(* ===== verification/Prelude.thy ===== *)
theory Prelude
  imports Main "HOL-Library.Word" "HOL-Library.Signed_Division" "HOL-Library.Multiset"
    "HOL-Library.Monad_Syntax"
begin

text \<open>
  Shared vocabulary of the development: the fixed-width integer types of the C sources on the
  32-bit ARM target, the C arithmetic operators whose behaviour differs from the HOL ones
  (division that faults on a zero divisor and truncates towards zero), the pairing of two 32-bit
  halves into a 64-bit word, and generic lemmas on words and lists the component theories share.

  The collections \<open>wcat_simps\<close> (facts on 64-bit values held as two 32-bit halves) and
  \<open>c_defs\<close> (unfolding of the C operators) are what the component proofs hand to the simplifier.
\<close>

unbundle bit_operations_syntax

named_theorems wcat_simps \<open>64-bit values as pairs of 32-bit halves\<close>
named_theorems c_defs \<open>unfolding of the C operators\<close>

section \<open>Types of the target\<close>

text \<open>
  On the target \<open>int\<close>, \<open>long\<close>, \<open>ulong\<close> and pointers are 32 bits wide. A signed variable is kept as
  its bit pattern and read with \<open>sint\<close>.
\<close>

type_synonym u8 = "8 word"
type_synonym u16 = "16 word"
type_synonym u32 = "32 word"
type_synonym u64 = "64 word"

section \<open>C operators\<close>

text \<open>
  32-bit division is done by the runtime (\<open>Libc/arm/div.s\<close>): a zero divisor faults (\<open>None\<close>),
  signed division truncates towards zero, and the one overflowing quotient wraps around.
\<close>

definition c_udiv :: "u32 \<Rightarrow> u32 \<Rightarrow> u32 option" where
  [c_defs]: "c_udiv a b = (if b = 0 then None else Some (a div b))"

definition c_umod :: "u32 \<Rightarrow> u32 \<Rightarrow> u32 option" where
  [c_defs]: "c_umod a b = (if b = 0 then None else Some (a mod b))"

definition c_sdiv :: "u32 \<Rightarrow> u32 \<Rightarrow> u32 option" where
  [c_defs]: "c_sdiv a b = (if b = 0 then None else Some (word_of_int (sint a sdiv sint b)))"

definition c_smod :: "u32 \<Rightarrow> u32 \<Rightarrow> u32 option" where
  [c_defs]: "c_smod a b = (if b = 0 then None else Some (word_of_int (sint a smod sint b)))"

text \<open>
  Where a component keeps its signed 32-bit variables as integers, \<open>i32\<close> is the wrap-around of the
  result of an operation.
\<close>

definition i32 :: "int \<Rightarrow> int" where
  "i32 x = (x + 2147483648) mod 4294967296 - 2147483648"

lemma i32_id: "- 2147483648 \<le> x \<Longrightarrow> x < 2147483648 \<Longrightarrow> i32 x = x"
  by (simp add: i32_def)

lemma i32_range: "- 2147483648 \<le> i32 x" "i32 x < 2147483648"
  by (simp_all add: i32_def)

lemma i32_add_sub [simp]: "i32 (i32 (x + y) - y) = i32 x" "i32 (i32 (x - y) + y) = i32 x"
  by (simp_all add: i32_def mod_simps algebra_simps)

section \<open>Byte buffers\<close>

text \<open>
  A C string or byte array is the buffer it lives in and an index; reading outside the buffer is
  an error (\<open>None\<close>), never a default value.
\<close>

type_synonym buf = "u8 list"

definition rd :: "'a list \<Rightarrow> nat \<Rightarrow> 'a option" where
  "rd b i = (if i < length b then Some (b ! i) else None)"

definition wr :: "'a list \<Rightarrow> nat \<Rightarrow> 'a \<Rightarrow> 'a list option" where
  "wr b i v = (if i < length b then Some (b[i := v]) else None)"

lemma rd_Some_iff: "rd b i = Some v \<longleftrightarrow> i < length b \<and> b ! i = v"
  by (auto simp: rd_def)

lemma wr_Some_iff: "wr b i v = Some b' \<longleftrightarrow> i < length b \<and> b' = b[i := v]"
  by (auto simp: wr_def)

lemma rd_None_iff: "rd b i = None \<longleftrightarrow> length b \<le> i"
  by (auto simp: rd_def)

section \<open>Bounds of words\<close>

lemma uint32_bounds: "0 \<le> uint (w::u32)" "uint w < 2 ^ 32"
  using uint_bounded[of w] by auto

lemma unat8_less: "unat (w::u8) < 2 ^ 8"
  using unsigned_less[of w, where 'a=nat] by simp

lemma unat32_less: "unat (w::u32) < 2 ^ 32"
  using unsigned_less[of w, where 'a=nat] by simp

lemma unat64_less: "unat (w::u64) < 2 ^ 64"
  using unsigned_less[of w, where 'a=nat] by simp

lemma sint32_bounds: "- (2 ^ 31) \<le> sint (w::u32)" "sint w < 2 ^ 31"
  using sint_greater_eq[of w] sint_less[of w] by simp_all

lemma sint64_bounds: "- (2 ^ 63) \<le> sint (w::u64)" "sint w < 2 ^ 63"
  using sint_greater_eq[of w] sint_less[of w] by simp_all

lemma bit32_less: "bit (w::u32) k \<Longrightarrow> k < 32"
  using bit_imp_le_length[of w k] by simp

lemma unat32_add: "unat ((a::u32) + b) = (unat a + unat b) mod 2 ^ 32"
  by (simp add: unat_word_ariths)

lemma unat_add32: "unat (a::u32) + unat b < 4294967296 \<Longrightarrow> unat (a + b) = unat a + unat b"
  by (simp add: unat32_add)

lemma unat_sub32: "unat (b::u32) \<le> unat a \<Longrightarrow> unat (a - b) = unat a - unat b"
  by (simp add: unat_sub word_le_nat_alt)

lemma unat64_add: "unat ((a::u64) + b) = (unat a + unat b) mod 2 ^ 64"
  by (simp add: unat_word_ariths)

lemma unat32_carry: "(a::u32) + b < a \<longleftrightarrow> 2 ^ 32 \<le> unat a + unat b"
  using unat32_less[of a] unat32_less[of b]
  by (auto simp add: word_less_nat_alt unat32_add mod_if)

text \<open>The signed reading of a word from its unsigned one.\<close>

lemma sint_uint_shift:
  "sint (w::'a::len word) = (uint w + 2 ^ (LENGTH('a) - 1)) mod 2 ^ LENGTH('a) - 2 ^ (LENGTH('a) - 1)"
  by (simp add: sint_uint signed_take_bit_eq_take_bit_shift take_bit_eq_mod)

lemma i32_sint: "i32 x = sint (word_of_int x :: u32)"
  by (simp add: i32_def sint_uint_shift uint_word_of_int mod_simps)

lemma mod_half: "M \<le> x \<Longrightarrow> x < 2 * M \<Longrightarrow> (x + M) mod (2 * M) = x - (M::int)"
  using mod_add_self2[of "x - M" "2 * M"] by (simp add: mod_pos_pos_trivial add.commute)

lemma sint_uint_if:
  "sint (w::'a::len word) =
   (if uint w < 2 ^ (LENGTH('a) - 1) then uint w else uint w - 2 ^ LENGTH('a))"
proof -
  have p: "(2::int) ^ LENGTH('a) = 2 * 2 ^ (LENGTH('a) - 1)"
    by (simp add: power_Suc[symmetric] Suc_pred')
  show ?thesis
    using mod_half[of "2 ^ (LENGTH('a) - 1)" "uint w"] uint_bounded[of w] p
    by (auto simp: sint_uint_shift not_less)
qed

lemma sint32_uint: "sint (w::u32) = (if uint w < 2 ^ 31 then uint w else uint w - 2 ^ 32)"
  using sint_uint_if[of w] by simp

lemma sint64_uint: "sint (w::u64) = (if uint w < 2 ^ 63 then uint w else uint w - 2 ^ 64)"
  using sint_uint_if[of w] by simp

lemma sint32_small: "unat (w::u32) < 2147483648 \<Longrightarrow> sint w = int (unat w)"
proof -
  assume "unat w < 2147483648"
  then have "int (unat w) < 2147483648" by linarith
  then have "uint w < 2 ^ 31" by simp
  then show ?thesis by (simp add: sint32_uint)
qed

lemma bit31_iff: "bit (w::u32) 31 \<longleftrightarrow> sint w < 0"
  using bit_last_iff[of w] by simp

section \<open>Two halves of a 64-bit word\<close>

abbreviation wcat :: "u32 \<Rightarrow> u32 \<Rightarrow> u64" where
  "wcat h l \<equiv> word_cat h l"

lemma uint_wcat: "uint (wcat h l) = uint h * 2 ^ 32 + uint l"
proof -
  have *: "wcat h l = of_int (uint h * 2 ^ 32 + uint l)"
    by (simp only: word_cat_eq' concat_bit_eq push_bit_eq_mult)
      (simp add: add.commute take_bit_eq_mod mod_pos_pos_trivial uint32_bounds[simplified])
  have "uint h * 2 ^ 32 + uint l < 2 ^ 64" "0 \<le> uint h * 2 ^ 32 + uint l"
    using uint32_bounds[of h] uint32_bounds[of l] by simp_all
  then show ?thesis unfolding *
    by (simp only: uint_word_of_int_eq take_bit_eq_mod) simp
qed

lemma unat_wcat: "unat (wcat h l) = unat h * 2 ^ 32 + unat l"
proof -
  have "int (unat (wcat h l)) = int (unat h * 2 ^ 32 + unat l)"
    by (simp add: uint_wcat)
  then show ?thesis by linarith
qed

lemma wcat_less [wcat_simps]: "wcat h1 l1 < wcat h2 l2 \<longleftrightarrow> h1 < h2 \<or> h1 = h2 \<and> l1 < l2"
  using unat32_less[of l1] unat32_less[of l2]
  by (auto simp add: word_less_nat_alt unat_wcat word_unat_eq_iff)

lemma wcat_inject [wcat_simps]: "wcat h1 l1 = wcat h2 l2 \<longleftrightarrow> h1 = h2 \<and> l1 = l2"
  using wcat_less[of h1 l1 h2 l2] wcat_less[of h2 l2 h1 l1] by (auto simp: neq_iff)

lemma wcat_le [wcat_simps]: "wcat h1 l1 \<le> wcat h2 l2 \<longleftrightarrow> h1 < h2 \<or> h1 = h2 \<and> l1 \<le> l2"
  using wcat_less[of h2 l2 h1 l1] by (auto simp: linorder_not_less[symmetric] dest: order.asym)

lemma wcat_eq_0 [wcat_simps]: "wcat h l = 0 \<longleftrightarrow> h = 0 \<and> l = 0"
  using unat32_less[of l] by (auto simp add: word_unat_eq_iff unat_wcat)

lemma sint_pair:
  "0 \<le> a \<Longrightarrow> a < 2 ^ 32 \<Longrightarrow> 0 \<le> b \<Longrightarrow> b < 2 ^ 32 \<Longrightarrow>
   (if a * 2 ^ 32 + b < 2 ^ 63 then a * 2 ^ 32 + b else a * 2 ^ 32 + b - 2 ^ 64) =
   (if a < 2 ^ 31 then a else a - 2 ^ 32) * 2 ^ 32 + (b::int)"
  by auto

lemma sint_wcat: "sint (wcat h l) = sint h * 2 ^ 32 + uint l"
  unfolding sint32_uint sint64_uint uint_wcat
  by (rule sint_pair) (fact uint32_bounds)+

lemma wcat_push_bit:
  "0 < n \<Longrightarrow> n < 32 \<Longrightarrow>
   wcat (push_bit n h OR drop_bit (32 - n) l) (push_bit n l) = push_bit n (wcat h l)"
  by (rule bit_eqI) (auto simp add: bit_simps ac_simps dest: bit32_less)

lemma wcat_drop_bit:
  "0 < n \<Longrightarrow> n < 32 \<Longrightarrow>
   wcat (drop_bit n h) (drop_bit n l OR push_bit (32 - n) h) = drop_bit n (wcat h l)"
  by (rule bit_eqI) (auto simp add: bit_simps add.commute[of n] dest: bit32_less)

lemma mod_pair: "r < K \<Longrightarrow> (x * K + r) mod (K * M) = (x mod M) * K + (r::nat)"
  by (simp add: mod_mult2_eq)

lemma unat_wcat_mod:
  "r < 2 ^ 32 \<Longrightarrow> (x mod 2 ^ 32) * 2 ^ 32 + r = (x * 2 ^ 32 + r) mod (2 ^ 64 :: nat)"
  using mod_pair[of r "2 ^ 32" x "2 ^ 32"] by simp

lemma wcat_add:
  "wcat (if l1 + l2 < l1 then h1 + h2 + 1 else h1 + h2) (l1 + l2) = wcat h1 l1 + wcat h2 l2"
proof -
  define s c where "s = unat l1 + unat l2" and "c = (if 2 ^ 32 \<le> s then 1 else (0::nat))"
  have s: "s = c * 2 ^ 32 + unat (l1 + l2)" "unat (l1 + l2) < 2 ^ 32"
    using unat32_less[of l1] unat32_less[of l2] by (auto simp: s_def c_def unat32_add mod_if)
  have h: "unat (if l1 + l2 < l1 then h1 + h2 + 1 else h1 + h2) = (unat h1 + unat h2 + c) mod 2 ^ 32"
    by (simp add: unat32_carry c_def s_def unat32_add mod_simps)
  have "unat (wcat h1 l1 + wcat h2 l2) = ((unat h1 + unat h2) * 2 ^ 32 + s) mod 2 ^ 64"
    by (simp add: unat64_add unat_wcat s_def algebra_simps)
  also have "\<dots> = ((unat h1 + unat h2 + c) * 2 ^ 32 + unat (l1 + l2)) mod 2 ^ 64"
    by (simp add: s(1) algebra_simps)
  also have "\<dots> = (unat h1 + unat h2 + c) mod 2 ^ 32 * 2 ^ 32 + unat (l1 + l2)"
    using unat_wcat_mod[OF s(2)] by simp
  also have "\<dots> = unat (wcat (if l1 + l2 < l1 then h1 + h2 + 1 else h1 + h2) (l1 + l2))"
    by (simp only: unat_wcat h)
  finally show ?thesis by (simp add: word_unat_eq_iff)
qed

lemma wcat_sub:
  "wcat (if l1 < l1 - l2 then h1 - h2 - 1 else h1 - h2) (l1 - l2) = wcat h1 l1 - wcat h2 l2"
  using wcat_add[of "l1 - l2" l2 "if l1 < l1 - l2 then h1 - h2 - 1 else h1 - h2" h2]
  by (simp add: eq_diff_eq split: if_splits)

lemma wcat_neg:
  "wcat (if l = 0 then - h else NOT h) (- l) = - wcat h l"
  using wcat_sub[of 0 l 0 h] wcat_eq_0[of 0 0]
  by (auto simp: not_eq_complement word_less_nat_alt unat_eq_0 split: if_splits)

section \<open>Masks and disjoint bits\<close>

lemma unat_or_disjoint: "a AND b = 0 \<Longrightarrow> unat a + unat b < 2 ^ 32 \<Longrightarrow> unat ((a::u32) OR b) = unat a + unat b"
  by (subst disjunctive_add_eq_or[symmetric]) (simp_all add: unat32_add)

lemma unat_take_bit32: "unat (take_bit k (w::u32)) = unat w mod 2 ^ k"
  unfolding unsigned_take_bit_eq by (simp add: take_bit_eq_mod)

lemma unat_drop_bit32: "unat (drop_bit k (w::u32)) = unat w div 2 ^ k"
  unfolding unsigned_drop_bit_eq
  by (simp add: take_bit_nat_eq_self unat32_less[simplified] drop_bit_eq_div)

lemma unat_push_bit32: "unat w * 2 ^ k < 2 ^ 32 \<Longrightarrow> unat (push_bit k (w::u32)) = unat w * 2 ^ k"
  unfolding unsigned_push_bit_eq by (simp add: take_bit_eq_mod push_bit_eq_mult)

lemma push_and_small: "unat c < 2 ^ k \<Longrightarrow> push_bit k w AND (c::u32) = 0"
proof -
  assume "unat c < 2 ^ k"
  then have "take_bit k c = c"
    by (simp add: word_unat_eq_iff unat_take_bit32)
  then have "push_bit k w AND c = push_bit k w AND take_bit k c" by simp
  also have "\<dots> = 0" by (rule bit_eqI) (auto simp add: bit_simps)
  finally show ?thesis .
qed

lemma unat_shift_or:
  "unat w * 2 ^ k < 2 ^ 32 \<Longrightarrow> unat c < 2 ^ k \<Longrightarrow> unat w * 2 ^ k + unat c < 2 ^ 32 \<Longrightarrow>
   unat (push_bit k w OR (c::u32)) = unat w * 2 ^ k + unat c"
  by (simp only: unat_or_disjoint push_and_small unat_push_bit32)

lemma unat_word32: "n < 4294967296 \<Longrightarrow> unat (word_of_nat n :: u32) = n"
  by (simp add: unat_of_nat)

lemma unat_nonneg: "0 \<le> sint (w::u32) \<Longrightarrow> int (unat w) = sint w"
  using sint32_uint[of w] by (simp split: if_splits) (use uint32_bounds(2)[of w] in simp)

lemma unat_ucast8: "unat (ucast (b::u8) :: u32) = unat b"
  using unat8_less[of b] by (simp add: unsigned_ucast_eq take_bit_nat_eq_self)

lemma word_or_eq_add: "a AND b = 0 \<Longrightarrow> (a::u32) OR b = a + b"
  by (rule disjunctive_add_eq_or[symmetric])

text \<open>A predicate on bytes holds everywhere once it is checked at the 256 values.\<close>

lemma byte_all: "list_all (\<lambda>n. P (word_of_nat n)) [0..<256] \<Longrightarrow> P (b::u8)"
proof -
  assume "list_all (\<lambda>n. P (word_of_nat n)) [0..<256]"
  moreover have "unat b \<in> set [0..<256]" using unat8_less[of b] by simp
  ultimately have "P (word_of_nat (unat b))" unfolding list_all_iff by blast
  then show ?thesis by simp
qed

end
