(* ===== verification/Vlrt.thy ===== *)
theory Vlrt
  imports Prelude
begin

text \<open>
  The 64-bit integer runtime of the ARM C library (\<open>src/kernel/Libc/arm/vlrt.c\<close>). The compiler
  lowers every operation on \<open>vlong\<close> and \<open>uvlong\<close> to a call of one of these routines, which work on
  a pair of 32-bit halves. The output parameter of a routine is the result of its definition; a
  division fault, and the one undefined conversion of a double, is \<open>None\<close>. The theorems relate
  every routine to the operation of 64-bit words it implements, through \<open>vval\<close>.
\<close>

section \<open>The two halves\<close>

record vlong =
  vlo :: u32
  vhi :: u32

definition mkv :: "u32 \<Rightarrow> u32 \<Rightarrow> vlong" where
  "mkv h l = \<lparr>vlo = l, vhi = h\<rparr>"

definition vval :: "vlong \<Rightarrow> u64" where
  "vval v = wcat (vhi v) (vlo v)"

lemma mkv_simps [simp]: "vlo (mkv h l) = l" "vhi (mkv h l) = h"
  by (simp_all add: mkv_def)

lemma vval_mkv: "vval (mkv h l) = wcat h l"
  by (simp add: vval_def)

section \<open>Addition and subtraction\<close>

definition addv :: "vlong \<Rightarrow> vlong \<Rightarrow> vlong" where
  "addv a b =
    (let lo = vlo a + vlo b;
         hi = vhi a + vhi b
     in mkv (if lo < vlo a then hi + 1 else hi) lo)"

definition subv :: "vlong \<Rightarrow> vlong \<Rightarrow> vlong" where
  "subv a b =
    (let lo = vlo a - vlo b;
         hi = vhi a - vhi b
     in mkv (if lo > vlo a then hi - 1 else hi) lo)"

section \<open>Conversion of a double\<close>

text \<open>
  \<open>_d2v\<close> works on the bits of the double; \<open>None\<close> is the branch whose comment reads
  "causes something awful".
\<close>

definition d2v_mag :: "u32 \<Rightarrow> u32 \<Rightarrow> int \<Rightarrow> (u32 \<times> u32) option" where
  "d2v_mag xhi xlo sh =
    (if sh \<ge> 0 then
       if sh < 32 then
         if sh = 0 then Some (xhi, xlo)
         else Some (drop_bit (nat sh) xhi,
                    drop_bit (nat sh) xlo OR push_bit (nat (32 - sh)) xhi)
       else if sh = 32 then Some (0, xhi)
       else if sh < 64 then Some (0, drop_bit (nat (sh - 32)) xhi)
       else Some (0, 0)
     else let sh' = - sh in
       if sh' \<le> 10 then Some (push_bit (nat sh') xhi OR drop_bit (nat (32 - sh')) xlo,
                             push_bit (nat sh') xlo)
       else None)"

definition d2v :: "vlong \<Rightarrow> vlong option" where
  "d2v x =
    (let xhi = (vhi x AND 0xfffff) OR 0x100000;
         xlo = vlo x;
         sh = 1075 - int (unat (drop_bit 20 (vhi x) AND 0x7ff))
     in case d2v_mag xhi xlo sh of
          None \<Rightarrow> None
        | Some (yhi, ylo) \<Rightarrow>
            if vhi x AND 0x80000000 \<noteq> 0
            then Some (if ylo \<noteq> 0 then mkv (NOT yhi) (- ylo) else mkv (- yhi) ylo)
            else Some (mkv yhi ylo))"

section \<open>Division\<close>

text \<open>
  The alignment loop shifts the denominator left until it is no smaller than the numerator; it is
  kept as a loop that may not end (with a zero denominator it would not), and is shown below to
  return. The second loop runs \<open>i + 1\<close> times.
\<close>

partial_function (option) dodiv_align ::
  "u32 \<Rightarrow> u32 \<Rightarrow> u32 \<Rightarrow> u32 \<Rightarrow> nat \<Rightarrow> (u32 \<times> u32 \<times> nat) option" where
  "dodiv_align quohi quolo denhi denlo i =
    (if denhi < quohi \<or> (denhi = quohi \<and> denlo < quolo)
     then dodiv_align quohi quolo (push_bit 1 denhi OR drop_bit 31 denlo) (push_bit 1 denlo) (i + 1)
     else Some (denhi, denlo, i))"

declare dodiv_align.simps [code]

record divst =
  numhi :: u32
  numlo :: u32
  denhi :: u32
  denlo :: u32
  quohi :: u32
  quolo :: u32

definition dodiv_body :: "divst \<Rightarrow> divst" where
  "dodiv_body s =
    (let s = s\<lparr>quohi := push_bit 1 (quohi s) OR drop_bit 31 (quolo s),
               quolo := push_bit 1 (quolo s)\<rparr>;
         s = (if numhi s > denhi s \<or> (numhi s = denhi s \<and> numlo s \<ge> denlo s)
              then let t = numlo s;
                       nl = numlo s - denlo s;
                       nh = (if nl > t then numhi s - 1 else numhi s)
                   in s\<lparr>numlo := nl, numhi := nh - denhi s, quolo := quolo s OR 1\<rparr>
              else s)
     in s\<lparr>denlo := drop_bit 1 (denlo s) OR push_bit 31 (denhi s),
          denhi := drop_bit 1 (denhi s)\<rparr>)"

fun dodiv_loop :: "nat \<Rightarrow> divst \<Rightarrow> divst" where
  "dodiv_loop 0 s = s"
| "dodiv_loop (Suc i) s = dodiv_loop i (dodiv_body s)"

definition dodiv :: "vlong \<Rightarrow> vlong \<Rightarrow> (vlong \<times> vlong) option" where
  "dodiv num den =
    (if vlo den = 0 \<and> vhi den = 0 then None
     else
       let (qh, ql) = (if vhi num \<ge> 0x80000000 then (0x80000000, 0) else (vhi num, vlo num))
       in case dodiv_align qh ql (vhi den) (vlo den) 0 of
            None \<Rightarrow> None
          | Some (dh, dl, i) \<Rightarrow>
              let s = dodiv_loop (i + 1)
                        \<lparr>numhi = vhi num, numlo = vlo num, denhi = dh, denlo = dl,
                         quohi = 0, quolo = 0\<rparr>
              in Some (mkv (quohi s) (quolo s), mkv (numhi s) (numlo s)))"

definition divvu :: "vlong \<Rightarrow> vlong \<Rightarrow> vlong option" where
  "divvu n d =
    (if vhi n = 0 \<and> vhi d = 0 then map_option (mkv 0) (c_udiv (vlo n) (vlo d))
     else map_option fst (dodiv n d))"

definition modvu :: "vlong \<Rightarrow> vlong \<Rightarrow> vlong option" where
  "modvu n d =
    (if vhi n = 0 \<and> vhi d = 0 then map_option (mkv 0) (c_umod (vlo n) (vlo d))
     else map_option snd (dodiv n d))"

definition vneg :: "vlong \<Rightarrow> vlong" where
  "vneg v = (if vlo v = 0 then v\<lparr>vhi := - vhi v\<rparr>
             else v\<lparr>vlo := - vlo v, vhi := NOT (vhi v)\<rparr>)"

text \<open>\<open>((long)x) >> 31\<close>: all ones for a negative \<open>x\<close>, zero otherwise.\<close>

abbreviation sar31 :: "u32 \<Rightarrow> u32" where
  "sar31 x \<equiv> signed_drop_bit 31 x"

definition divv :: "vlong \<Rightarrow> vlong \<Rightarrow> vlong option" where
  "divv n d =
    (if vhi n = sar31 (vlo n) \<and> vhi d = sar31 (vlo d)
     then map_option (\<lambda>q. mkv (sar31 q) q) (c_sdiv (vlo n) (vlo d))
     else
       let nneg = drop_bit 31 (vhi n);
           n = (if nneg \<noteq> 0 then vneg n else n);
           dneg = drop_bit 31 (vhi d);
           d = (if dneg \<noteq> 0 then vneg d else d)
       in map_option (\<lambda>(q, r). if nneg \<noteq> dneg then vneg q else q) (dodiv n d))"

definition modv :: "vlong \<Rightarrow> vlong \<Rightarrow> vlong option" where
  "modv n d =
    (if vhi n = sar31 (vlo n) \<and> vhi d = sar31 (vlo d)
     then map_option (\<lambda>r. mkv (sar31 r) r) (c_smod (vlo n) (vlo d))
     else
       let nneg = drop_bit 31 (vhi n);
           n = (if nneg \<noteq> 0 then vneg n else n);
           dneg = drop_bit 31 (vhi d);
           d = (if dneg \<noteq> 0 then vneg d else d)
       in map_option (\<lambda>(q, r). if nneg \<noteq> 0 then vneg r else r) (dodiv n d))"

section \<open>Shifts and bitwise operations\<close>

definition rshav :: "vlong \<Rightarrow> int \<Rightarrow> vlong" where
  "rshav a b =
    (let t = vhi a in
     if b \<ge> 32 then
       if b \<ge> 64 then mkv (sar31 t) (sar31 t)
       else mkv (sar31 t) (signed_drop_bit (nat (b - 32)) t)
     else if b \<le> 0 then mkv t (vlo a)
     else mkv (signed_drop_bit (nat b) t)
              (push_bit (nat (32 - b)) t OR drop_bit (nat b) (vlo a)))"

definition rshlv :: "vlong \<Rightarrow> int \<Rightarrow> vlong" where
  "rshlv a b =
    (let t = vhi a in
     if b \<ge> 32 then
       if b \<ge> 64 then mkv 0 0
       else mkv 0 (drop_bit (nat (b - 32)) t)
     else if b \<le> 0 then mkv t (vlo a)
     else mkv (drop_bit (nat b) t)
              (push_bit (nat (32 - b)) t OR drop_bit (nat b) (vlo a)))"

definition lshv :: "vlong \<Rightarrow> int \<Rightarrow> vlong" where
  "lshv a b =
    (let t = vlo a in
     if b \<ge> 32 then
       if b \<ge> 64 then mkv 0 0
       else mkv (push_bit (nat (b - 32)) t) 0
     else if b \<le> 0 then mkv (vhi a) t
     else mkv (drop_bit (nat (32 - b)) t OR push_bit (nat b) (vhi a))
              (push_bit (nat b) t))"

definition andv :: "vlong \<Rightarrow> vlong \<Rightarrow> vlong" where
  "andv a b = mkv (vhi a AND vhi b) (vlo a AND vlo b)"

definition orv :: "vlong \<Rightarrow> vlong \<Rightarrow> vlong" where
  "orv a b = mkv (vhi a OR vhi b) (vlo a OR vlo b)"

definition xorv :: "vlong \<Rightarrow> vlong \<Rightarrow> vlong" where
  "xorv a b = mkv (vhi a XOR vhi b) (vlo a XOR vlo b)"

section \<open>Increment and decrement\<close>

text \<open>Each returns the value of the expression and the new content of the operand.\<close>

definition vinc :: "vlong \<Rightarrow> vlong" where
  "vinc r = (let lo = vlo r + 1 in mkv (if lo = 0 then vhi r + 1 else vhi r) lo)"

definition vdec :: "vlong \<Rightarrow> vlong" where
  "vdec r = mkv (if vlo r = 0 then vhi r - 1 else vhi r) (vlo r - 1)"

definition vpp :: "vlong \<Rightarrow> vlong \<times> vlong" where
  "vpp r = (mkv (vhi r) (vlo r), vinc r)"

definition vmm :: "vlong \<Rightarrow> vlong \<times> vlong" where
  "vmm r = (mkv (vhi r) (vlo r), vdec r)"

definition ppv :: "vlong \<Rightarrow> vlong \<times> vlong" where
  "ppv r = (let r = vinc r in (mkv (vhi r) (vlo r), r))"

definition mmv :: "vlong \<Rightarrow> vlong \<times> vlong" where
  "mmv r = (let r = vdec r in (mkv (vhi r) (vlo r), r))"

section \<open>Assignment operators on narrower lvalues\<close>

text \<open>
  \<open>_vasop\<close> implements \<open>lv op= rv\<close> for a 64-bit \<open>rv\<close>; its \<open>type\<close> argument says what \<open>lv\<close> points
  at, here the constructor of the lvalue. Any other type code aborts. The operand \<open>t.lo\<close> is
  unsigned in the code, so \<open>t.lo >> 31\<close> is a logical shift.
\<close>

datatype lval =
    LSchar u8 | LUchar u8 | LShort u16 | LUshort u16
  | LInt u32 | LUint u32 | LLong u32 | LUlong u32
  | LVlong vlong | LUvlong vlong
  | LOther int

definition vasop_signed :: "u32 \<Rightarrow> vlong" where
  "vasop_signed lo = mkv (drop_bit 31 lo) lo"

definition vasop_unsigned :: "u32 \<Rightarrow> vlong" where
  "vasop_unsigned lo = mkv 0 lo"

definition vasop ::
  "lval \<Rightarrow> (vlong \<Rightarrow> vlong \<Rightarrow> vlong option) \<Rightarrow> vlong \<Rightarrow> (vlong \<times> lval) option" where
  "vasop lv fn rv =
    (case lv of
       LSchar c \<Rightarrow> map_option (\<lambda>u. (u, LSchar (ucast (vlo u)))) (fn (vasop_signed (scast c)) rv)
     | LUchar c \<Rightarrow> map_option (\<lambda>u. (u, LUchar (ucast (vlo u)))) (fn (vasop_unsigned (ucast c)) rv)
     | LShort c \<Rightarrow> map_option (\<lambda>u. (u, LShort (ucast (vlo u)))) (fn (vasop_signed (scast c)) rv)
     | LUshort c \<Rightarrow> map_option (\<lambda>u. (u, LUshort (ucast (vlo u)))) (fn (vasop_unsigned (ucast c)) rv)
     | LInt c \<Rightarrow> map_option (\<lambda>u. (u, LInt (vlo u))) (fn (vasop_signed c) rv)
     | LUint c \<Rightarrow> map_option (\<lambda>u. (u, LUint (vlo u))) (fn (vasop_unsigned c) rv)
     | LLong c \<Rightarrow> map_option (\<lambda>u. (u, LLong (vlo u))) (fn (vasop_signed c) rv)
     | LUlong c \<Rightarrow> map_option (\<lambda>u. (u, LUlong (vlo u))) (fn (vasop_unsigned c) rv)
     | LVlong v \<Rightarrow> map_option (\<lambda>u. (u, LVlong u)) (fn v rv)
     | LUvlong v \<Rightarrow> map_option (\<lambda>u. (u, LUvlong u)) (fn v rv)
     | LOther _ \<Rightarrow> None)"

section \<open>Conversions\<close>

definition p2v :: "u32 \<Rightarrow> vlong" where
  "p2v p = mkv 0 p"

definition sl2v :: "u32 \<Rightarrow> vlong" where
  "sl2v sl = mkv (sar31 sl) sl"

definition ul2v :: "u32 \<Rightarrow> vlong" where
  "ul2v ul = mkv 0 ul"

definition si2v :: "u32 \<Rightarrow> vlong" where
  "si2v si = mkv (sar31 si) si"

definition ui2v :: "u32 \<Rightarrow> vlong" where
  "ui2v ui = mkv 0 ui"

definition sh2v :: "u32 \<Rightarrow> vlong" where
  "sh2v sh = (let t = signed_drop_bit 16 (push_bit 16 sh) in mkv (sar31 t) t)"

definition uh2v :: "u32 \<Rightarrow> vlong" where
  "uh2v ul = mkv 0 (ul AND 0xffff)"

definition sc2v :: "u32 \<Rightarrow> vlong" where
  "sc2v uc = (let t = signed_drop_bit 24 (push_bit 24 uc) in mkv (sar31 t) t)"

definition uc2v :: "u32 \<Rightarrow> vlong" where
  "uc2v ul = mkv 0 (ul AND 0xff)"

definition v2sc :: "vlong \<Rightarrow> u32" where
  "v2sc rv = signed_drop_bit 24 (push_bit 24 (vlo rv AND 0xff))"

definition v2uc :: "vlong \<Rightarrow> u32" where
  "v2uc rv = vlo rv AND 0xff"

definition v2sh :: "vlong \<Rightarrow> u32" where
  "v2sh rv = signed_drop_bit 16 (push_bit 16 (vlo rv AND 0xffff))"

definition v2uh :: "vlong \<Rightarrow> u32" where
  "v2uh rv = vlo rv AND 0xffff"

definition v2sl :: "vlong \<Rightarrow> u32" where
  "v2sl rv = vlo rv"

definition v2ul :: "vlong \<Rightarrow> u32" where
  "v2ul rv = vlo rv"

definition v2si :: "vlong \<Rightarrow> u32" where
  "v2si rv = vlo rv"

definition v2ui :: "vlong \<Rightarrow> u32" where
  "v2ui rv = vlo rv"

section \<open>Tests and comparisons\<close>

definition testv :: "vlong \<Rightarrow> bool" where
  "testv rv \<longleftrightarrow> vlo rv \<noteq> 0 \<or> vhi rv \<noteq> 0"

definition eqv :: "vlong \<Rightarrow> vlong \<Rightarrow> bool" where
  "eqv lv rv \<longleftrightarrow> vlo lv = vlo rv \<and> vhi lv = vhi rv"

definition nev :: "vlong \<Rightarrow> vlong \<Rightarrow> bool" where
  "nev lv rv \<longleftrightarrow> vlo lv \<noteq> vlo rv \<or> vhi lv \<noteq> vhi rv"

definition ltv :: "vlong \<Rightarrow> vlong \<Rightarrow> bool" where
  "ltv lv rv \<longleftrightarrow> sint (vhi lv) < sint (vhi rv) \<or> (vhi lv = vhi rv \<and> vlo lv < vlo rv)"

definition lev :: "vlong \<Rightarrow> vlong \<Rightarrow> bool" where
  "lev lv rv \<longleftrightarrow> sint (vhi lv) < sint (vhi rv) \<or> (vhi lv = vhi rv \<and> vlo lv \<le> vlo rv)"

definition gtv :: "vlong \<Rightarrow> vlong \<Rightarrow> bool" where
  "gtv lv rv \<longleftrightarrow> sint (vhi lv) > sint (vhi rv) \<or> (vhi lv = vhi rv \<and> vlo lv > vlo rv)"

definition gev :: "vlong \<Rightarrow> vlong \<Rightarrow> bool" where
  "gev lv rv \<longleftrightarrow> sint (vhi lv) > sint (vhi rv) \<or> (vhi lv = vhi rv \<and> vlo lv \<ge> vlo rv)"

definition lov :: "vlong \<Rightarrow> vlong \<Rightarrow> bool" where
  "lov lv rv \<longleftrightarrow> vhi lv < vhi rv \<or> (vhi lv = vhi rv \<and> vlo lv < vlo rv)"

definition lsv :: "vlong \<Rightarrow> vlong \<Rightarrow> bool" where
  "lsv lv rv \<longleftrightarrow> vhi lv < vhi rv \<or> (vhi lv = vhi rv \<and> vlo lv \<le> vlo rv)"

definition hiv :: "vlong \<Rightarrow> vlong \<Rightarrow> bool" where
  "hiv lv rv \<longleftrightarrow> vhi lv > vhi rv \<or> (vhi lv = vhi rv \<and> vlo lv > vlo rv)"

definition hsv :: "vlong \<Rightarrow> vlong \<Rightarrow> bool" where
  "hsv lv rv \<longleftrightarrow> vhi lv > vhi rv \<or> (vhi lv = vhi rv \<and> vlo lv \<ge> vlo rv)"

lemmas vcmp_defs = testv_def eqv_def nev_def ltv_def lev_def gtv_def gev_def lov_def lsv_def
  hiv_def hsv_def

section \<open>Correctness of the routines on 64-bit values\<close>

lemma vval_addv: "vval (addv a b) = vval a + vval b"
  by (simp only: addv_def Let_def vval_def mkv_simps wcat_add)

lemma vval_subv: "vval (subv a b) = vval a - vval b"
  by (simp only: subv_def Let_def vval_def mkv_simps wcat_sub)

lemma vval_vneg: "vval (vneg v) = - vval v"
  by (simp add: vneg_def vval_def wcat_neg[symmetric])

lemma vval_bitwise:
  "vval (andv a b) = vval a AND vval b"
  "vval (orv a b) = vval a OR vval b"
  "vval (xorv a b) = vval a XOR vval b"
  by (rule bit_eqI; auto simp add: andv_def orv_def xorv_def vval_def bit_simps)+

lemma inc_carry: "(x::u32) + 1 < x \<longleftrightarrow> x + 1 = 0"
proof -
  have "unat x + 1 < 2 ^ 32 \<or> unat x + 1 = 2 ^ 32"
    using unat32_less[of x] by auto
  then show ?thesis
    by (auto simp: unat32_carry word_unat_eq_iff unat32_add dest: dvd_imp_le)
qed

lemma vval_one: "vval (mkv 0 1) = 1"
  by (simp add: vval_def word_unat_eq_iff unat_wcat)

lemma vval_vinc: "vval (vinc v) = vval v + 1"
  using vval_addv[of v "mkv 0 1"] by (simp add: vinc_def addv_def Let_def inc_carry vval_one)

lemma vval_vdec: "vval (vdec v) = vval v - 1"
proof -
  have "vdec v = subv v (mkv 0 1)"
    by (auto simp: vdec_def subv_def Let_def word_less_nat_alt unat_sub_if' word_unat_eq_iff)
  then show ?thesis by (simp add: vval_subv vval_one)
qed

lemma wcat_sdrop_hi:
  "32 \<le> n \<Longrightarrow> wcat (signed_drop_bit 31 h) (signed_drop_bit (n - 32) h) = signed_drop_bit n (wcat h l)"
proof (rule bit_eqI)
  fix m assume "32 \<le> n" "possible_bit TYPE(64 word) m"
  then show "bit (wcat (signed_drop_bit 31 h) (signed_drop_bit (n - 32) h)) m
    = bit (signed_drop_bit n (wcat h l)) m"
    by (cases "m = 32") (auto simp add: bit_simps dest: bit32_less)
qed

lemma wcat_drop_hi: "32 \<le> n \<Longrightarrow> wcat 0 (drop_bit (n - 32) h) = drop_bit n (wcat h l)"
  by (rule bit_eqI) (auto simp add: bit_simps dest: bit32_less)

lemma wcat_push_lo: "32 \<le> n \<Longrightarrow> wcat (push_bit (n - 32) l) 0 = push_bit n (wcat h l)"
  by (rule bit_eqI) (auto simp add: bit_simps dest: bit32_less)

lemma wcat_sdrop_bit:
  "0 < n \<Longrightarrow> n < 32 \<Longrightarrow>
   wcat (signed_drop_bit n h) (push_bit (32 - n) h OR drop_bit n l) = signed_drop_bit n (wcat h l)"
  by (rule bit_eqI) (auto simp add: bit_simps add.commute[of n] dest: bit32_less)


lemma sar31_if: "sar31 w = (if bit w 31 then - 1 else 0)"
  by (rule bit_eqI, rename_tac m, case_tac m) (auto simp add: bit_simps dest: bit32_less)

lemma sdrop32_beyond: "32 \<le> n \<Longrightarrow> signed_drop_bit n (w::u32) = sar31 w"
  using signed_drop_bit_beyond[of n w] by (simp add: sar31_if)

lemma vval_rshlv: "0 \<le> b \<Longrightarrow> vval (rshlv a b) = drop_bit (nat b) (vval a)"
  using wcat_drop_bit[of "nat b" "vhi a" "vlo a"] wcat_drop_hi[of "nat b" "vhi a" "vlo a"]
  by (auto simp: rshlv_def Let_def vval_def nat_diff_distrib' or.commute wcat_eq_0 drop_bit_word_beyond)

lemma vval_lshv: "0 \<le> b \<Longrightarrow> vval (lshv a b) = push_bit (nat b) (vval a)"
  using wcat_push_bit[of "nat b" "vhi a" "vlo a"] wcat_push_lo[of "nat b"  "vlo a" "vhi a"]
  by (auto simp: lshv_def Let_def vval_def nat_diff_distrib' or.commute wcat_eq_0 push_bit_word_beyond)

lemma vval_rshav: "0 \<le> b \<Longrightarrow> vval (rshav a b) = signed_drop_bit (nat b) (vval a)"
  using wcat_sdrop_bit[of "nat b" "vhi a" "vlo a"] wcat_sdrop_hi[of "nat b" "vhi a" "vlo a"]
    sdrop32_beyond[of "nat b - 32" "vhi a"]
  by (auto simp: rshav_def Let_def vval_def nat_diff_distrib' or.commute)

lemma align_loop_step:
  "wcat (push_bit 1 h OR drop_bit 31 l) (push_bit 1 l) = push_bit 1 (wcat h l)"
  using wcat_push_bit[of 1 h l] by simp

lemma unat_push1: "unat (w::u64) < 2 ^ 63 \<Longrightarrow> unat (push_bit 1 w) = 2 * unat w"
  by (simp add: unat_word_ariths)

lemma unat_drop1: "unat (drop_bit 1 (w::u64)) = unat w div 2"
  by (simp add: drop_bit_eq_div unat_div_distrib)

lemma dodiv_align_correct:
  assumes "unat (wcat qh ql) \<le> 2 ^ 63" "wcat dh dl \<noteq> 0" "unat (wcat dh dl) = D * 2 ^ i"
  shows "\<exists>dh' dl' i'. dodiv_align qh ql dh dl i = Some (dh', dl', i') \<and>
    unat (wcat dh' dl') = D * 2 ^ i' \<and> unat (wcat qh ql) \<le> unat (wcat dh' dl')"
  using assms
proof (induction "2 ^ 63 - unat (wcat dh dl)" arbitrary: dh dl i rule: less_induct)
  case less
  let ?d = "wcat dh dl" and ?dh = "push_bit 1 dh OR drop_bit 31 dl" and ?dl = "push_bit 1 dl"
  show ?case
  proof (cases "wcat dh dl < wcat qh ql")
    case True
    then have lt: "unat ?d < 2 ^ 63" using less.prems(1) by (simp add: word_less_nat_alt)
    have d': "unat (wcat ?dh ?dl) = 2 * unat ?d"
      unfolding align_loop_step by (rule unat_push1[OF lt])
    have pos: "0 < unat ?d" using less.prems(2) by (simp add: unat_gt_0)
    have eq: "dodiv_align qh ql dh dl i = dodiv_align qh ql ?dh ?dl (i + 1)"
      using True by (subst dodiv_align.simps) (simp add: wcat_less)
    show ?thesis unfolding eq
    proof (rule less.hyps)
      show "2 ^ 63 - unat (wcat ?dh ?dl) < 2 ^ 63 - unat ?d" using d' pos lt by simp
      show "unat (wcat qh ql) \<le> 2 ^ 63" by (rule less.prems(1))
      show "wcat ?dh ?dl \<noteq> 0" using d' pos by (auto simp: word_unat_eq_iff simp del: unat_eq_zero)
      show "unat (wcat ?dh ?dl) = D * 2 ^ (i + 1)" using d' less.prems(3) by simp
    qed
  next
    case False
    then have "\<not> (dh < qh \<or> (dh = qh \<and> dl < ql))" unfolding wcat_less .
    then have "dodiv_align qh ql dh dl i = Some (dh, dl, i)"
      by (subst dodiv_align.simps) (rule if_not_P)
    with False less.prems(3) show ?thesis by (simp add: word_le_nat_alt not_less)
  qed
qed


abbreviation "vnum s \<equiv> unat (wcat (numhi s) (numlo s))"
abbreviation "vden s \<equiv> unat (wcat (denhi s) (denlo s))"
abbreviation "vquo s \<equiv> unat (wcat (quohi s) (quolo s))"

lemma wcat_or1: "wcat h (l OR 1) = wcat h l OR 1"
  by (rule bit_eqI) (auto simp add: bit_simps)

lemma unat_push1_or1: "unat (w::u64) < 2 ^ 63 \<Longrightarrow> unat (push_bit 1 w OR 1) = 2 * unat w + 1"
proof -
  assume a: "unat w < 2 ^ 63"
  have "push_bit 1 w OR 1 = push_bit 1 w + 1"
    by (rule disjunctive_add_eq_or[symmetric]) (simp add: and_one_eq mod_2_eq_odd)
  then show ?thesis using a by (simp add: unat_word_ariths)
qed

lemma dodiv_body_correct:
  assumes "vquo s < 2 ^ 63"
  shows "vden (dodiv_body s) = vden s div 2"
    and "vnum s < vden s \<Longrightarrow> vnum (dodiv_body s) = vnum s"
    and "vnum s < vden s \<Longrightarrow> vquo (dodiv_body s) = 2 * vquo s"
    and "vden s \<le> vnum s \<Longrightarrow> vnum (dodiv_body s) = vnum s - vden s"
    and "vden s \<le> vnum s \<Longrightarrow> vquo (dodiv_body s) = 2 * vquo s + 1"
proof -
  have cmp: "(denhi s < numhi s \<or> numhi s = denhi s \<and> denlo s \<le> numlo s) \<longleftrightarrow> vden s \<le> vnum s"
    using wcat_le[of "denhi s" "denlo s" "numhi s" "numlo s"] by (auto simp: word_le_nat_alt)
  note defs = dodiv_body_def Let_def cmp
  have den: "wcat (denhi (dodiv_body s)) (denlo (dodiv_body s)) = drop_bit 1 (wcat (denhi s) (denlo s))"
    using wcat_drop_bit[of 1 "denhi s" "denlo s"] by (simp add: defs)
  show "vden (dodiv_body s) = vden s div 2" unfolding den by (rule unat_drop1)
  show "vnum s < vden s \<Longrightarrow> vnum (dodiv_body s) = vnum s"
    by (simp add: defs del: if_split)
  show "vnum s < vden s \<Longrightarrow> vquo (dodiv_body s) = 2 * vquo s"
    using unat_push1[OF assms] align_loop_step[of "quohi s" "quolo s"]
    by (simp add: defs del: if_split)
  show "vden s \<le> vnum s \<Longrightarrow> vquo (dodiv_body s) = 2 * vquo s + 1"
    using unat_push1_or1[OF assms] align_loop_step[of "quohi s" "quolo s"]
    by (simp add: defs wcat_or1 del: if_split)
  show "vnum (dodiv_body s) = vnum s - vden s" if "vden s \<le> vnum s"
  proof -
    have "wcat (numhi (dodiv_body s)) (numlo (dodiv_body s)) =
        wcat (numhi s) (numlo s) - wcat (denhi s) (denlo s)"
      using that wcat_sub[of "numlo s" "denlo s" "numhi s" "denhi s"]
      by (cases "numlo s < numlo s - denlo s")
        (simp_all add: defs diff_diff_eq add.commute del: if_split)
    then show ?thesis using that by (simp add: unat_sub word_le_nat_alt)
  qed
qed

lemma dodiv_loop_correct:
  assumes "0 < D" "vnum s < D * 2 ^ c" "0 < c \<Longrightarrow> vden s = D * 2 ^ (c - 1)"
    "vquo s * 2 ^ c * D + vnum s < 2 ^ 64"
  shows "vquo (dodiv_loop c s) * D + vnum (dodiv_loop c s) = vquo s * 2 ^ c * D + vnum s \<and>
    vnum (dodiv_loop c s) < D"
  using assms
proof (induction c arbitrary: s)
  case 0
  then show ?case by simp
next
  case (Suc c)
  let ?s = "dodiv_body s"
  have "vquo s * 2 * 1 \<le> vquo s * 2 * (2 ^ c * D)"
    using Suc.prems(1) by (intro mult_le_mono2) simp
  also have "\<dots> \<le> vquo s * 2 ^ Suc c * D + vnum s" by simp
  also have "\<dots> < 2 ^ 64" by (rule Suc.prems(4))
  finally have q: "vquo s < 2 ^ 63" by simp
  note body = dodiv_body_correct[OF q]
  have den: "vden s = D * 2 ^ c" using Suc.prems(3) by simp
  have step: "vquo ?s * 2 ^ c * D + vnum ?s = vquo s * 2 ^ Suc c * D + vnum s \<and> vnum ?s < D * 2 ^ c"
  proof (cases "vnum s < vden s")
    case True
    then show ?thesis using body(2,3) den by simp
  next
    case False
    then have le: "vden s \<le> vnum s" by simp
    show ?thesis using body(4,5)[OF le] den le Suc.prems(2)
      by (simp add: algebra_simps)
  qed
  have "0 < c \<Longrightarrow> vden ?s = D * 2 ^ (c - 1)"
    using body(1) den by (cases c) simp_all
  then show ?case
    using Suc.IH[of ?s] step Suc.prems(1,4) by simp
qed


lemma dodiv_correct:
  assumes "vval d \<noteq> 0"
  obtains q r where "dodiv n d = Some (q, r)" "vval q = vval n div vval d" "vval r = vval n mod vval d"
proof -
  define N D where "N = unat (vval n)" and "D = unat (vval d)"
  define qh ql where "qh = (if vhi n \<ge> 0x80000000 then 0x80000000 else vhi n)"
    and "ql = (if vhi n \<ge> 0x80000000 then 0 else vlo n)"
  have N: "N < 2 ^ 64" "N = unat (vhi n) * 2 ^ 32 + unat (vlo n)"
    using unat64_less[of "vval n"] by (simp_all add: N_def) (simp add: vval_def unat_wcat)
  have Q: "unat (wcat qh ql) = min N (2 ^ 63)"
    using N(2) unat32_less[of "vlo n"]
    by (auto simp: qh_def ql_def unat_wcat word_le_nat_alt min_def)
  have D: "0 < D" "wcat (vhi d) (vlo d) \<noteq> 0" "unat (wcat (vhi d) (vlo d)) = D * 2 ^ 0"
    using assms by (simp_all add: D_def vval_def unat_gt_0)
  obtain dh dl i where al: "dodiv_align qh ql (vhi d) (vlo d) 0 = Some (dh, dl, i)"
    and den: "unat (wcat dh dl) = D * 2 ^ i" and ge: "min N (2 ^ 63) \<le> D * 2 ^ i"
    using dodiv_align_correct[of qh ql "vhi d" "vlo d" D 0] D Q by auto
  define s0 where "s0 = \<lparr>numhi = vhi n, numlo = vlo n, denhi = dh, denlo = dl,
                         quohi = 0, quolo = 0\<rparr>"
  define s where "s = dodiv_loop (i + 1) s0"
  have s0: "vnum s0 = N" "vden s0 = D * 2 ^ i" "vquo s0 = 0"
    by (simp_all add: s0_def N_def vval_def den)
  define x where "x = D * 2 ^ i"
  have "0 < x" "D * 2 ^ (i + 1) = 2 * x" using D(1) by (simp_all add: x_def)
  then have "N < D * 2 ^ (i + 1)"
    using ge N(1) unfolding min_def x_def[symmetric] by (cases "N \<le> 2 ^ 63") simp_all
  then have "vquo s * D + vnum s = N \<and> vnum s < D"
    using dodiv_loop_correct[of D s0 "i + 1"] D(1) s0 N(1) by (simp add: s_def)
  then have div: "vquo s = N div D" "vnum s = N mod D"
    by (auto simp: mult.commute dest: sym)
  have "dodiv n d = Some (mkv (quohi s) (quolo s), mkv (numhi s) (numlo s))"
    using al D(2) by (auto simp: dodiv_def Let_def qh_def ql_def s_def s0_def wcat_eq_0 split: if_splits)
  moreover have "vval (mkv (quohi s) (quolo s)) = vval n div vval d"
    using div(1) by (simp add: vval_mkv word_unat_eq_iff unat_div_distrib N_def D_def)
  moreover have "vval (mkv (numhi s) (numlo s)) = vval n mod vval d"
    using div(2) by (simp add: vval_mkv word_unat_eq_iff unat_mod_distrib N_def D_def)
  ultimately show thesis by (rule that)
qed

lemma vval_eq_lo: "vhi v = 0 \<Longrightarrow> unat (vval v) = unat (vlo v)"
  using unat_wcat[of 0 "vlo v"] by (simp add: vval_def)

lemma divvu_correct: "vval d \<noteq> 0 \<Longrightarrow> map_option vval (divvu n d) = Some (vval n div vval d)"
proof (cases "vhi n = 0 \<and> vhi d = 0")
  case True
  moreover assume "vval d \<noteq> 0"
  moreover have "vlo d \<noteq> 0" using calculation by (auto simp: vval_def wcat_eq_0)
  ultimately show ?thesis
    by (simp add: divvu_def c_udiv_def word_unat_eq_iff unat_div_distrib vval_eq_lo)
next
  case False
  moreover assume "vval d \<noteq> 0"
  ultimately show ?thesis
    by (elim dodiv_correct[of d n]) (auto simp: divvu_def)
qed

lemma modvu_correct: "vval d \<noteq> 0 \<Longrightarrow> map_option vval (modvu n d) = Some (vval n mod vval d)"
proof (cases "vhi n = 0 \<and> vhi d = 0")
  case True
  moreover assume "vval d \<noteq> 0"
  moreover have "vlo d \<noteq> 0" using calculation by (auto simp: vval_def wcat_eq_0)
  ultimately show ?thesis
    by (simp add: modvu_def c_umod_def word_unat_eq_iff unat_mod_distrib vval_eq_lo)
next
  case False
  moreover assume "vval d \<noteq> 0"
  ultimately show ?thesis
    by (elim dodiv_correct[of d n]) (auto simp: modvu_def)
qed


lemma drop31_if: "drop_bit 31 (w::u32) = (if bit w 31 then 1 else 0)"
  by (rule bit_eqI, rename_tac m, case_tac m) (auto simp add: bit_simps dest: bit32_less)

lemma neg_pair: "0 \<le> b \<Longrightarrow> b < 2 ^ 32 \<Longrightarrow> a * 2 ^ 32 + b < 0 \<longleftrightarrow> a < (0::int)"
  by auto

lemma neg_wcat: "sint (wcat h l) < 0 \<longleftrightarrow> sint h < 0"
  unfolding sint_wcat by (rule neg_pair) (fact uint32_bounds)+

lemma sign_bit: "drop_bit 31 (vhi v) = (if sint (vval v) < 0 then 1 else 0)"
  by (simp add: drop31_if bit31_iff vval_def neg_wcat)

lemma abs64: "uint (if sint w < 0 then - w else w) = \<bar>sint (w::u64)\<bar>"
  using uint_bounded[of w]
  by (auto simp: sint64_uint uint_word_ariths zmod_zminus1_eq_if  split: if_splits)

lemma uint_vabs: "uint (vval (if sint (vval v) < 0 then vneg v else v)) = \<bar>sint (vval v)\<bar>"
  using abs64[of "vval v"] by (simp add: vval_vneg split: if_splits)

lemma sint_sar31: "sint (sar31 w) = (if sint w < 0 then - 1 else 0)"
  by (simp add: sar31_if bit31_iff)

lemma vval_fast: "vhi v = sar31 (vlo v) \<longleftrightarrow> sint (vval v) = sint (vlo v)"
proof -
  have "vhi v = sar31 (vlo v) \<longleftrightarrow> sint (vhi v) = sint (sar31 (vlo v))"
    by (rule word_eq_iff_signed)
  moreover have "sint (vval v) = sint (vhi v) * 2 ^ 32 + uint (vlo v)"
    by (simp add: vval_def sint_wcat)
  moreover have "sint (vlo v) = (if sint (vlo v) < 0 then - 1 else 0) * 2 ^ 32 + uint (vlo v)"
    using uint32_bounds[of "vlo v"] unfolding sint32_uint by (cases "uint (vlo v) < 2 ^ 31") simp_all
  ultimately show ?thesis unfolding sint_sar31 by (auto split: if_splits)
qed

lemma vval_sar31: "vval (mkv (sar31 q) q) = word_of_int (sint q)"
proof -
  have "sint (vval (mkv (sar31 q) q)) = sint q"
    using vval_fast[of "mkv (sar31 q) q"] by simp
  then have "word_of_int (sint (vval (mkv (sar31 q) q))) = (word_of_int (sint q) :: u64)"
    by (rule arg_cong)
  then show ?thesis by (simp add: word_eq_iff_signed)
qed

lemma sdiv32_fits:
  assumes "\<not> (a = - (2 ^ 31) \<and> b = - 1)" "- (2 ^ 31) \<le> a" "a < 2 ^ 31"
  shows "- (2 ^ 31) \<le> a sdiv b \<and> a sdiv b < (2 ^ 31 :: int)"
proof (cases "a = - (2 ^ 31)")
  case True
  then have "a sdiv b \<noteq> - a" using assms(1) int_sdiv_negated_is_minus1[of a b] by simp
  then show ?thesis using sdiv_int_range[of a b] True by auto
next
  case False
  then show ?thesis using sdiv_int_range[of a b] assms(2,3) by (auto simp: abs_if split: if_splits)
qed

lemma smod32_fits:
  assumes "b \<noteq> 0" "- (2 ^ 31) \<le> b" "b < 2 ^ 31"
  shows "- (2 ^ 31) \<le> a smod b \<and> a smod b < (2 ^ 31 :: int)"
  using smod_int_range[of b a] assms by (auto simp: abs_if split: if_splits)

lemma sint32_of_int: "- (2 ^ 31) \<le> k \<Longrightarrow> k < 2 ^ 31 \<Longrightarrow> sint (word_of_int k :: u32) = k"
  by (simp add: sint_sbintrunc' signed_take_bit_int_eq_self)

lemma divv_correct:
  assumes "vval d \<noteq> 0" "\<not> (sint (vval n) = - (2 ^ 31) \<and> sint (vval d) = - 1)"
  shows "map_option vval (divv n d) = Some (word_of_int (sint (vval n) sdiv sint (vval d)))"
proof (cases "vhi n = sar31 (vlo n) \<and> vhi d = sar31 (vlo d)")
  case True
  then have eq: "sint (vval n) = sint (vlo n)" "sint (vval d) = sint (vlo d)"
    by (simp_all add: vval_fast)
  have nz: "vlo d \<noteq> 0" using eq(2) assms(1) by (auto simp: signed_eq_0_iff)
  have "\<not> (sint (vlo n) = - (2 ^ 31) \<and> sint (vlo d) = - 1)"
    using assms(2) eq by simp
  then have "sint (word_of_int (sint (vlo n) sdiv sint (vlo d)) :: u32) = sint (vlo n) sdiv sint (vlo d)"
    using sdiv32_fits[of "sint (vlo n)" "sint (vlo d)"] sint32_bounds[of "vlo n"]
    by (simp add: sint32_of_int)
  with True nz eq show ?thesis by (simp add: divv_def c_sdiv_def vval_sar31)
next
  case False
  define n' d' where "n' = (if sint (vval n) < 0 then vneg n else n)"
    and "d' = (if sint (vval d) < 0 then vneg d else d)"
  have abs: "uint (vval n') = \<bar>sint (vval n)\<bar>" "uint (vval d') = \<bar>sint (vval d)\<bar>"
    by (simp_all only: n'_def d'_def uint_vabs)
  have "vval d' \<noteq> 0" using assms(1) by (simp add: d'_def vval_vneg)
  then obtain q r where dd: "dodiv n' d' = Some (q, r)" "vval q = vval n' div vval d'"
    by (rule dodiv_correct)
  have q: "vval q = word_of_int (\<bar>sint (vval n)\<bar> div \<bar>sint (vval d)\<bar>)"
    unfolding dd(2) word_div_def abs ..
  have "divv n d = Some (if (sint (vval n) < 0) \<noteq> (sint (vval d) < 0) then vneg q else q)"
    using False dd(1) by (auto simp: divv_def Let_def sign_bit n'_def d'_def split: if_splits)
  with q show ?thesis
    by (auto simp: vval_vneg signed_divide_int_def sgn_if split: if_splits)
qed

lemma modv_correct:
  assumes "vval d \<noteq> 0"
  shows "map_option vval (modv n d) = Some (word_of_int (sint (vval n) smod sint (vval d)))"
proof (cases "vhi n = sar31 (vlo n) \<and> vhi d = sar31 (vlo d)")
  case True
  then have eq: "sint (vval n) = sint (vlo n)" "sint (vval d) = sint (vlo d)"
    by (simp_all add: vval_fast)
  have nz: "vlo d \<noteq> 0" using eq(2) assms(1) by (auto simp: signed_eq_0_iff)
  then have "sint (word_of_int (sint (vlo n) smod sint (vlo d)) :: u32) = sint (vlo n) smod sint (vlo d)"
    using smod32_fits[of "sint (vlo d)" "sint (vlo n)"] sint32_bounds[of "vlo d"]
    by (simp add: sint32_of_int signed_eq_0_iff)
  with True nz eq show ?thesis by (simp add: modv_def c_smod_def vval_sar31)
next
  case False
  define n' d' where "n' = (if sint (vval n) < 0 then vneg n else n)"
    and "d' = (if sint (vval d) < 0 then vneg d else d)"
  have abs: "uint (vval n') = \<bar>sint (vval n)\<bar>" "uint (vval d') = \<bar>sint (vval d)\<bar>"
    by (simp_all only: n'_def d'_def uint_vabs)
  have "vval d' \<noteq> 0" using assms(1) by (simp add: d'_def vval_vneg)
  then obtain q r where dd: "dodiv n' d' = Some (q, r)" "vval r = vval n' mod vval d'"
    by (rule dodiv_correct)
  have r: "vval r = word_of_int (\<bar>sint (vval n)\<bar> mod \<bar>sint (vval d)\<bar>)"
    unfolding dd(2) word_mod_def abs ..
  have "modv n d = Some (if sint (vval n) < 0 then vneg r else r)"
    using False dd(1) by (auto simp: modv_def Let_def sign_bit n'_def d'_def split: if_splits)
  with r show ?thesis
    by (auto simp: vval_vneg signed_modulo_int_def sgn_if split: if_splits)
qed


section \<open>Truncation of a double\<close>

text \<open>
  The integer a finite double stands for, from its exponent and mantissa: \<open>dbl_trunc\<close> is the value
  rounded towards zero (a denormal, read with the implicit bit as the code does, truncates to zero).
\<close>

definition dbl_exp :: "vlong \<Rightarrow> nat" where
  "dbl_exp x = unat (drop_bit 20 (vhi x) AND 0x7ff)"

definition dbl_mant :: "vlong \<Rightarrow> nat" where
  "dbl_mant x = 2 ^ 52 + unat (vhi x) mod 2 ^ 20 * 2 ^ 32 + unat (vlo x)"

definition dbl_trunc :: "vlong \<Rightarrow> int" where
  "dbl_trunc x = (let m = dbl_mant x; e = dbl_exp x;
     t = int (if e \<le> 1075 then m div 2 ^ (1075 - e) else m * 2 ^ (e - 1075))
     in if bit (vhi x) 31 then - t else t)"

lemma unat_drop_bit64: "unat (drop_bit k (w::u64)) = unat w div 2 ^ k"
  unfolding unsigned_drop_bit_eq by (simp add: take_bit_nat_eq_self unat64_less[simplified] drop_bit_eq_div)

lemma d2v_mag_correct:
  assumes "- 10 \<le> sh" "unat (wcat xhi xlo) < 2 ^ 53"
  shows "\<exists>yhi ylo. d2v_mag xhi xlo sh = Some (yhi, ylo) \<and>
    unat (wcat yhi ylo) =
      (if 0 \<le> sh then unat (wcat xhi xlo) div 2 ^ nat sh else unat (wcat xhi xlo) * 2 ^ nat (- sh))"
proof -
  let ?x = "wcat xhi xlo"
  consider "sh < 0" | "sh = 0" | "0 < sh" "sh < 32" | "32 \<le> sh" "sh < 64" | "64 \<le> sh" by linarith
  then show ?thesis
  proof cases
    case 1
    define k where "k = nat (- sh)"
    have k: "0 < k" "k \<le> 10" "nat (32 + sh) = 32 - k" using 1 assms(1) by (auto simp: k_def)
    have "unat ?x * 2 ^ k \<le> unat ?x * 2 ^ 10" using k by (intro mult_le_mono2 power_increasing) auto
    also have "\<dots> < 2 ^ 53 * 2 ^ 10" using assms(2) by simp
    finally have "unat ?x * 2 ^ k < 2 ^ 64" by (rule less_trans) simp
    then have "unat (push_bit k ?x) = unat ?x * 2 ^ k"
      unfolding unsigned_push_bit_eq by (simp add: take_bit_eq_mod push_bit_eq_mult)
    then show ?thesis
      using 1 k assms(1) wcat_push_bit[of k xhi xlo] by (auto simp: d2v_mag_def Let_def k_def)
  next
    case 3
    define k where "k = nat sh"
    have k: "0 < k" "k < 32" "nat (32 - sh) = 32 - k" using 3 by (auto simp: k_def)
    have "unat (drop_bit k ?x) = unat ?x div 2 ^ k" by (rule unat_drop_bit64)
    then show ?thesis
      using 3 k wcat_drop_bit[of k xhi xlo] by (auto simp: d2v_mag_def k_def)
  next
    case 4
    define k where "k = nat sh"
    have k: "32 \<le> k" "nat (sh - 32) = k - 32" using 4 by (auto simp: k_def)
    have "unat (drop_bit k ?x) = unat ?x div 2 ^ k" by (rule unat_drop_bit64)
    then show ?thesis
      using 4 k wcat_drop_hi[of k xhi xlo] by (auto simp: d2v_mag_def k_def)
  next
    case 5
    have "(2::nat) ^ 53 \<le> 2 ^ nat sh" using 5 by (intro power_increasing) auto
    then have "unat ?x div 2 ^ nat sh = 0" using assms(2) by (intro div_less) linarith
    then show ?thesis using 5 by (simp add: d2v_mag_def)
  qed (auto simp: d2v_mag_def)
qed

lemma dbl_mant_wcat: "unat (wcat ((vhi x AND 0xfffff) OR 0x100000) (vlo x)) = dbl_mant x"
proof -
  have "(vhi x AND 0xfffff) OR 0x100000 = (vhi x AND 0xfffff) + 0x100000"
    by (rule disjunctive_add_eq_or[symmetric]) (simp add: and.assoc)
  moreover have "vhi x AND 0xfffff = take_bit 20 (vhi x)"
    by (simp add: take_bit_eq_mask mask_eq_decr_exp)
  moreover have "unat (take_bit 20 (vhi x)) = unat (vhi x) mod 2 ^ 20"
    by (simp add: take_bit_eq_mod unat_mod_distrib)
  ultimately have "unat ((vhi x AND 0xfffff) OR 0x100000) = unat (vhi x) mod 2 ^ 20 + 2 ^ 20"
    by (simp add: unat_word_ariths)
  then show ?thesis by (simp add: unat_wcat dbl_mant_def)
qed

lemma dbl_mant_less: "dbl_mant x < 2 ^ 53"
proof -
  have "unat (vhi x) mod 2 ^ 20 < 2 ^ 20" by simp
  then show ?thesis using unat32_less[of "vlo x"] by (simp add: dbl_mant_def)
qed

lemma sign_mask: "vhi x AND 0x80000000 \<noteq> 0 \<longleftrightarrow> bit (vhi x) 31"
proof -
  have "(0x80000000::u32) = push_bit 31 1" by simp
  then show ?thesis by (simp only: and_exp_eq_0_iff_not_bit push_bit_eq_mult mult_1 not_not)
qed


lemma d2v_correct:
  assumes "dbl_exp x \<le> 1085"
  shows "map_option (\<lambda>y. sint (vval y)) (d2v x) = Some (dbl_trunc x)"
proof -
  let ?xhi = "(vhi x AND 0xfffff) OR 0x100000"
  let ?sh = "1075 - int (dbl_exp x)"
  define t where "t = (if dbl_exp x \<le> 1075 then dbl_mant x div 2 ^ (1075 - dbl_exp x) else dbl_mant x * 2 ^ (dbl_exp x - 1075))"
  have 1: "nat ?sh = 1075 - dbl_exp x" "nat (- ?sh) = dbl_exp x - 1075" by auto
  obtain yhi ylo where y: "d2v_mag ?xhi (vlo x) ?sh = Some (yhi, ylo)" "unat (wcat yhi ylo) = t"
    using d2v_mag_correct[of ?sh ?xhi "vlo x"] assms dbl_mant_less[of x]
    unfolding dbl_mant_wcat 1 t_def by auto
  have "t < 2 ^ 63"
  proof (cases "dbl_exp x \<le> 1075")
    case True
    then have "t \<le> dbl_mant x" by (simp add: t_def div_le_dividend)
    then show ?thesis using dbl_mant_less[of x] by simp
  next
    case False
    have "(2::nat) ^ (dbl_exp x - 1075) \<le> 2 ^ 10" using assms by (intro power_increasing) auto
    then have "t \<le> dbl_mant x * 2 ^ 10" using False by (simp add: t_def mult_le_mono2)
    then show ?thesis using dbl_mant_less[of x] by simp
  qed
  moreover have u: "uint (wcat yhi ylo) = int t" using y(2) by (metis uint_nat)
  ultimately have s: "sint (wcat yhi ylo) = int t" "sint (- wcat yhi ylo) = - int t"
    unfolding sint64_uint uint_word_ariths u by (auto simp: zmod_zminus1_eq_if)
  have "d2v x = Some (if bit (vhi x) 31 then vneg (mkv yhi ylo) else mkv yhi ylo)"
    using y(1) by (auto simp: d2v_def Let_def sign_mask dbl_exp_def vneg_def mkv_def)
  then show ?thesis
    using s by (simp add: vval_vneg vval_mkv dbl_trunc_def Let_def t_def)
qed

section \<open>Narrow operands\<close>

lemma sext16: "signed_drop_bit 16 (push_bit 16 (w::u32)) = scast (ucast w :: u16)"
  by (rule bit_eqI) (auto simp add: bit_simps add.commute dest: bit32_less)

lemma sext8: "signed_drop_bit 24 (push_bit 24 (w::u32)) = scast (ucast w :: u8)"
  by (rule bit_eqI) (auto simp add: bit_simps add.commute dest: bit32_less)

lemma zext16: "(w::u32) AND 0xffff = ucast (ucast w :: u16)"
proof -
  have m: "(0xffff::u32) = mask 16" by (simp add: mask_eq_decr_exp)
  show ?thesis unfolding m by (rule bit_eqI) (auto simp add: bit_simps)
qed

lemma zext8: "(w::u32) AND 0xff = ucast (ucast w :: u8)"
proof -
  have m: "(0xff::u32) = mask 8" by (simp add: mask_eq_decr_exp)
  show ?thesis unfolding m by (rule bit_eqI) (auto simp add: bit_simps)
qed

lemma ucast_zext: "ucast (ucast (w::u8) :: u32) = w" "ucast (ucast (h::u16) :: u32) = h"
  by (rule bit_eqI, auto simp add: bit_simps)+

lemma sint_scast: "sint (scast (w::u8) :: u32) = sint w" "sint (scast (h::u16) :: u32) = sint h"
  using sint_greater_eq[of w] sint_less[of w] sint_greater_eq[of h] sint_less[of h]
  by (simp_all add: signed_scast_eq signed_take_bit_int_eq_self)

lemma sint_vasop: "sint (vval (vasop_signed c)) = (if sint c < 0 then sint c + 2 ^ 33 else sint c)"
  using uint32_bounds[of c]
  by (simp add: vasop_signed_def vval_mkv sint_wcat drop31_if bit31_iff sint32_uint[of c])

section \<open>The contract of the 64-bit runtime\<close>

text \<open>
  What compiled code relies on when it works with \<open>uvlong\<close> values: the operations it calls and the
  word operation each stands for. The clients' facts are proved from these laws only.
\<close>

locale uvlong_runtime =
  fixes val :: "'v \<Rightarrow> u64"
    and add :: "'v \<Rightarrow> 'v \<Rightarrow> 'v"
    and sub :: "'v \<Rightarrow> 'v \<Rightarrow> 'v"
    and shl :: "'v \<Rightarrow> int \<Rightarrow> 'v"
    and shr :: "'v \<Rightarrow> int \<Rightarrow> 'v"
    and udiv :: "'v \<Rightarrow> 'v \<Rightarrow> 'v option"
    and umod :: "'v \<Rightarrow> 'v \<Rightarrow> 'v option"
    and ult :: "'v \<Rightarrow> 'v \<Rightarrow> bool"
  assumes val_add: "val (add a b) = val a + val b"
    and val_sub: "val (sub a b) = val a - val b"
    and val_shl: "0 \<le> k \<Longrightarrow> val (shl a k) = push_bit (nat k) (val a)"
    and val_shr: "0 \<le> k \<Longrightarrow> val (shr a k) = drop_bit (nat k) (val a)"
    and val_udiv: "val d \<noteq> 0 \<Longrightarrow> map_option val (udiv n d) = Some (val n div val d)"
    and val_umod: "val d \<noteq> 0 \<Longrightarrow> map_option val (umod n d) = Some (val n mod val d)"
    and ult_val: "ult a b \<longleftrightarrow> val a < val b"
begin

lemma add_sub_cancel: "val (sub (add a b) b) = val a"
  by (simp add: val_add val_sub)

lemma divmod_reconstruct:
  assumes "udiv n d = Some q" "umod n d = Some r" "val d \<noteq> 0"
  shows "val n = val q * val d + val r \<and> ult r d"
proof -
  have "val q = val n div val d" "val r = val n mod val d"
    using val_udiv[OF assms(3), of n] val_umod[OF assms(3), of n] assms(1,2) by simp_all
  then show ?thesis
    using assms(3)
    by (simp add: ult_val word_less_nat_alt unat_mod_distrib unat_gt_0 word_mod_div_equality)
qed

lemma shl_div: "val d \<noteq> 0 \<Longrightarrow> 0 \<le> k \<Longrightarrow>
    map_option val (udiv (shl n k) d) = Some (push_bit (nat k) (val n) div val d)"
  by (simp add: val_udiv val_shl)

end

lemma ucmp_vval:
  "lov a b \<longleftrightarrow> vval a < vval b"
  "lsv a b \<longleftrightarrow> vval a \<le> vval b"
  "hiv a b \<longleftrightarrow> vval a > vval b"
  "hsv a b \<longleftrightarrow> vval a \<ge> vval b"
  by (auto simp: lov_def lsv_def hiv_def hsv_def vval_def wcat_less wcat_le)

lemma scmp_pair:
  "0 \<le> x \<Longrightarrow> x < 2 ^ 32 \<Longrightarrow> 0 \<le> y \<Longrightarrow> y < 2 ^ 32 \<Longrightarrow>
   a * 2 ^ 32 + x < b * 2 ^ 32 + y \<longleftrightarrow> a < b \<or> a = b \<and> x < (y::int)"
  by auto

lemma ltv_vval: "ltv a b \<longleftrightarrow> sint (vval a) < sint (vval b)"
  unfolding ltv_def vval_def sint_wcat scmp_pair[OF uint32_bounds uint32_bounds]
  by (simp add: word_eq_iff_signed[where 'a=int] word_less_def)

lemma eqv_vval: "eqv a b \<longleftrightarrow> vval a = vval b" "nev a b \<longleftrightarrow> vval a \<noteq> vval b" "testv a \<longleftrightarrow> vval a \<noteq> 0"
  by (auto simp: eqv_def nev_def testv_def vval_def wcat_inject wcat_eq_0)

lemma scmp_vval:
  "lev a b \<longleftrightarrow> sint (vval a) \<le> sint (vval b)"
  "gtv a b \<longleftrightarrow> sint (vval a) > sint (vval b)"
  "gev a b \<longleftrightarrow> sint (vval a) \<ge> sint (vval b)"
proof -
  have "gtv a b \<longleftrightarrow> ltv b a" "lev a b \<longleftrightarrow> ltv a b \<or> eqv a b" "gev a b \<longleftrightarrow> ltv b a \<or> eqv a b"
    by (auto simp: vcmp_defs)
  then show "lev a b \<longleftrightarrow> sint (vval a) \<le> sint (vval b)"
    "gtv a b \<longleftrightarrow> sint (vval a) > sint (vval b)" "gev a b \<longleftrightarrow> sint (vval a) \<ge> sint (vval b)"
    by (auto simp: ltv_vval eqv_vval word_eq_iff_signed[where 'a=int])
qed

lemma sint_sl2v: "sint (vval (sl2v x)) = sint x"
  using vval_fast[of "sl2v x"] by (simp add: sl2v_def)

lemma vval_inject: "vval a = vval b \<longleftrightarrow> a = b"
  by (cases a; cases b) (auto simp add: vval_def wcat_inject)

lemma divv_eqI:
  assumes "vval d \<noteq> 0" "\<not> (sint (vval n) = - (2 ^ 31) \<and> sint (vval d) = - 1)"
    "vval q = word_of_int (sint (vval n) sdiv sint (vval d))"
  shows "divv n d = Some q"
  using divv_correct[OF assms(1,2)] unfolding assms(3)[symmetric] by (auto simp: vval_inject)

lemma ucast_vval: "ucast (vval v) = vlo v"
  unfolding vval_def by (rule bit_eqI) (auto simp add: bit_simps)

lemma ucast_vval8: "ucast (vval v) = (ucast (vlo v) :: u8)"
  unfolding vval_def by (rule bit_eqI) (auto simp add: bit_simps)

lemma ucast_vval16: "ucast (vval v) = (ucast (vlo v) :: u16)"
  unfolding vval_def by (rule bit_eqI) (auto simp add: bit_simps)

lemma uint_zext: "uint (ucast (w::u8) :: u32) = uint w" "uint (ucast (h::u16) :: u32) = uint h"
  using uint_bounded[of w] uint_bounded[of h]
  by (simp_all add: unsigned_ucast_eq take_bit_int_eq_self_iff)

lemma uint_mkv0: "uint (vval (mkv 0 x)) = uint x"
  using uint_wcat[of 0 x] by (simp add: vval_mkv)

interpretation vlrt: uvlong_runtime vval addv subv lshv rshlv divvu modvu lov
  by unfold_locales
    (simp_all add: vval_addv vval_subv vval_lshv vval_rshlv divvu_correct modvu_correct ucmp_vval)

section \<open>Properties\<close>

lemma word_operations:
  "vval (addv a b) = vval a + vval b \<and> vval (subv a b) = vval a - vval b \<and>
   vval (vneg a) = - vval a \<and>
   vval (andv a b) = vval a AND vval b \<and> vval (orv a b) = vval a OR vval b \<and>
   vval (xorv a b) = vval a XOR vval b \<and>
   map_prod vval vval (vpp a) = (vval a, vval a + 1) \<and>
   map_prod vval vval (vmm a) = (vval a, vval a - 1) \<and>
   map_prod vval vval (ppv a) = (vval a + 1, vval a + 1) \<and>
   map_prod vval vval (mmv a) = (vval a - 1, vval a - 1)"
  using vval_vinc[of a] vval_vdec[of a]
  by (simp add: vval_addv vval_subv vval_vneg vval_bitwise vpp_def vmm_def ppv_def mmv_def Let_def
      vval_mkv) (simp add: vval_def)

lemma comparisons:
  "(ltv a b \<longleftrightarrow> sint (vval a) < sint (vval b)) \<and> (lev a b \<longleftrightarrow> sint (vval a) \<le> sint (vval b)) \<and>
   (gtv a b \<longleftrightarrow> sint (vval a) > sint (vval b)) \<and> (gev a b \<longleftrightarrow> sint (vval a) \<ge> sint (vval b)) \<and>
   (lov a b \<longleftrightarrow> vval a < vval b) \<and> (lsv a b \<longleftrightarrow> vval a \<le> vval b) \<and>
   (hiv a b \<longleftrightarrow> vval a > vval b) \<and> (hsv a b \<longleftrightarrow> vval a \<ge> vval b) \<and>
   (eqv a b \<longleftrightarrow> vval a = vval b) \<and> (nev a b \<longleftrightarrow> vval a \<noteq> vval b) \<and> (testv a \<longleftrightarrow> vval a \<noteq> 0)"
  by (simp add: ltv_vval scmp_vval ucmp_vval eqv_vval)

lemma vlong_eqI: "sint (vval a) = sint (vval b) \<Longrightarrow> a = b"
proof -
  assume "sint (vval a) = sint (vval b)"
  then have "vval a = vval b" by (rule signed_word_eqI)
  then show "a = b" by (cases a; cases b) (simp add: vval_def wcat_inject)
qed

text \<open>
  C1. Unsigned 64-bit division. For every numerator and every non-zero denominator, \<open>_divvu\<close> and
  \<open>_modvu\<close> return, and their results are the quotient and the remainder of the 64-bit values.
\<close>

theorem divvu_modvu_correct:
  assumes "vval d \<noteq> 0"
  shows "\<exists>q r. divvu n d = Some q \<and> modvu n d = Some r \<and>
    vval q = vval n div vval d \<and> vval r = vval n mod vval d"
  using vlrt.val_udiv[OF assms, of n] vlrt.val_umod[OF assms, of n] by auto

theorem divvu_modvu_correct_witness:
  "vval (mkv 0 3) \<noteq> 0 \<and> (\<exists>q r. divvu (mkv 5 7) (mkv 0 3) = Some q \<and> modvu (mkv 5 7) (mkv 0 3) = Some r \<and>
    vval q = vval (mkv 5 7) div vval (mkv 0 3) \<and> vval r = vval (mkv 5 7) mod vval (mkv 0 3))"
proof -
  have nz: "vval (mkv 0 3) \<noteq> 0" by (simp add: vval_mkv)
  show ?thesis using nz divvu_modvu_correct[OF nz, of "mkv 5 7"] by blast
qed

text \<open>
  C2. Signed 64-bit division truncates towards zero. For a non-zero divisor \<open>_modv\<close> returns the
  remainder of truncating division, which has the sign of the numerator, and \<open>_divv\<close> returns the
  truncated quotient of the signed values, wrapped to 64 bits, except at one input: dividing
  \<open>-2147483648\<close> by \<open>-1\<close>, where the 32-bit fast path gives \<open>-2147483648\<close> although the quotient
  \<open>2147483648\<close> is representable.
\<close>

theorem signed_division:
  assumes "vval d \<noteq> 0"
  shows "(\<exists>r. modv n d = Some r \<and> vval r = word_of_int (sint (vval n) smod sint (vval d)))
   \<and> (\<exists>q. divv n d = Some q \<and>
        sint (vval q) = (if sint (vval n) = - (2 ^ 31) \<and> sint (vval d) = - 1 then - (2 ^ 31)
          else sint (word_of_int (sint (vval n) sdiv sint (vval d)) :: u64)))"
proof (rule conjI)
  show "\<exists>r. modv n d = Some r \<and> vval r = word_of_int (sint (vval n) smod sint (vval d))"
    using modv_correct[OF assms, where n = n] by auto
next
  show "\<exists>q. divv n d = Some q \<and>
        sint (vval q) = (if sint (vval n) = - (2 ^ 31) \<and> sint (vval d) = - 1 then - (2 ^ 31)
          else sint (word_of_int (sint (vval n) sdiv sint (vval d)) :: u64))"
  proof (cases "sint (vval n) = - (2 ^ 31) \<and> sint (vval d) = - 1")
  case True
  then have nd: "n = sl2v 0x80000000" "d = sl2v (- 1)"
    by (simp_all add: vlong_eqI sint_sl2v)
  have "divv (sl2v 0x80000000) (sl2v (- 1)) = Some (sl2v 0x80000000)" by code_simp
  then show ?thesis unfolding nd by (simp add: sint_sl2v)
next
  case False
  then show ?thesis using divv_correct[OF assms False] by auto
  qed
qed

theorem signed_division_witness:
  "(\<exists>r. modv (sl2v (- 7)) (sl2v 2) = Some r \<and>
      vval r = word_of_int (sint (vval (sl2v (- 7))) smod sint (vval (sl2v 2))))
   \<and> (\<exists>q. divv (sl2v (- 7)) (sl2v 2) = Some q \<and> sint (vval q) = - 3)"
proof -
  have "vval (sl2v 2) \<noteq> 0" by (simp add: sl2v_def vval_mkv wcat_eq_0)
  from signed_division[OF this, of "sl2v (- 7)"] show ?thesis by (simp add: sint_sl2v)
qed

text \<open>
  C3. The other operations agree with 64-bit word arithmetic: addition, subtraction, negation and
  the bitwise operations, the four increment and decrement forms (a postfix form yields the old
  value), the signed and unsigned comparisons, and the shifts for every non-negative count,
  including the counts of 32 and 64 and more that the routines treat apart.
\<close>

theorem vlrt_operations:
  assumes "0 \<le> k"
  shows "vval (addv a b) = vval a + vval b \<and> vval (subv a b) = vval a - vval b \<and>
   vval (vneg a) = - vval a \<and>
   vval (andv a b) = vval a AND vval b \<and> vval (orv a b) = vval a OR vval b \<and>
   vval (xorv a b) = vval a XOR vval b \<and>
   map_prod vval vval (vpp a) = (vval a, vval a + 1) \<and>
   map_prod vval vval (vmm a) = (vval a, vval a - 1) \<and>
   map_prod vval vval (ppv a) = (vval a + 1, vval a + 1) \<and>
   map_prod vval vval (mmv a) = (vval a - 1, vval a - 1) \<and>
   (ltv a b \<longleftrightarrow> sint (vval a) < sint (vval b)) \<and> (lev a b \<longleftrightarrow> sint (vval a) \<le> sint (vval b)) \<and>
   (gtv a b \<longleftrightarrow> sint (vval a) > sint (vval b)) \<and> (gev a b \<longleftrightarrow> sint (vval a) \<ge> sint (vval b)) \<and>
   (lov a b \<longleftrightarrow> vval a < vval b) \<and> (lsv a b \<longleftrightarrow> vval a \<le> vval b) \<and>
   (hiv a b \<longleftrightarrow> vval a > vval b) \<and> (hsv a b \<longleftrightarrow> vval a \<ge> vval b) \<and>
   (eqv a b \<longleftrightarrow> vval a = vval b) \<and> (nev a b \<longleftrightarrow> vval a \<noteq> vval b) \<and> (testv a \<longleftrightarrow> vval a \<noteq> 0) \<and>
   vval (lshv a k) = push_bit (nat k) (vval a) \<and> vval (rshlv a k) = drop_bit (nat k) (vval a) \<and>
   vval (rshav a k) = signed_drop_bit (nat k) (vval a)"
  using word_operations[of a b] comparisons[of a b] vlrt.val_shl[OF assms] vlrt.val_shr[OF assms]
    vval_rshav[OF assms]
  by simp

theorem vlrt_operations_witness:
  "vval (lshv (mkv 1 2) 33) = push_bit (nat 33) (vval (mkv 1 2)) \<and>
   (ltv (mkv 1 2) (mkv 3 4) \<longleftrightarrow> sint (vval (mkv 1 2)) < sint (vval (mkv 3 4)))"
proof -
  have "(0::int) \<le> 33" by simp
  from vlrt_operations[OF this, of "mkv 1 2" "mkv 3 4"] show ?thesis by blast
qed

text \<open>
  Conversion of a double whose exponent keeps it below \<open>2 ^ 63\<close> in magnitude yields its value
  rounded towards zero.
\<close>

theorem d2v_truncates:
  assumes "dbl_exp x \<le> 1085"
  shows "\<exists>y. d2v x = Some y \<and> sint (vval y) = dbl_trunc x"
  using d2v_correct[OF assms] by auto

theorem d2v_truncates_witness:
  "\<exists>y. d2v (mkv 0xC0040000 0) = Some y \<and> sint (vval y) = dbl_trunc (mkv 0xC0040000 0) \<and>
    dbl_trunc (mkv 0xC0040000 0) = - 2"
proof -
  have e: "dbl_exp (mkv 0xC0040000 0) \<le> 1085" by (simp add: dbl_exp_def)
  have "dbl_trunc (mkv 0xC0040000 0) = - 2"
    by (simp add: dbl_trunc_def dbl_mant_def dbl_exp_def Let_def)
  then show ?thesis using d2v_truncates[OF e] by simp
qed

text \<open>
  C4. The conversions keep the value: sign extension from \<open>long\<close>, \<open>short\<close> and \<open>signed char\<close>, zero
  extension from their unsigned forms, and truncation back to the narrow type.
\<close>

theorem conversions_correct:
  "sint (vval (sl2v w)) = sint w \<and> sint (vval (si2v w)) = sint w \<and>
   sint (vval (sh2v w)) = sint (ucast w :: u16) \<and> sint (vval (sc2v w)) = sint (ucast w :: u8) \<and>
   uint (vval (ul2v w)) = uint w \<and> uint (vval (ui2v w)) = uint w \<and> uint (vval (p2v w)) = uint w \<and>
   uint (vval (uh2v w)) = uint (ucast w :: u16) \<and> uint (vval (uc2v w)) = uint (ucast w :: u8) \<and>
   v2sl v = ucast (vval v) \<and> v2ul v = ucast (vval v) \<and>
   v2si v = ucast (vval v) \<and> v2ui v = ucast (vval v) \<and>
   sint (v2sc v) = sint (ucast (vval v) :: u8) \<and> sint (v2sh v) = sint (ucast (vval v) :: u16) \<and>
   uint (v2uc v) = uint (ucast (vval v) :: u8) \<and> uint (v2uh v) = uint (ucast (vval v) :: u16)"
  unfolding sh2v_def sc2v_def uh2v_def uc2v_def v2sc_def v2uc_def v2sh_def v2uh_def sext8 sext16
    zext8 zext16 ucast_zext ucast_vval8 ucast_vval16 ucast_vval Let_def sl2v_def[symmetric]
  by (simp add: sint_sl2v sint_scast uint_mkv0 uint_zext ul2v_def ui2v_def p2v_def si2v_def
      sl2v_def[symmetric] v2sl_def v2ul_def v2si_def v2ui_def)

text \<open>
  What an lvalue holds as a number, whether it is a signed type narrower than 64 bits, and the lvalue
  after a 64-bit value is assigned to it (truncated to its width).
\<close>

fun lval_value :: "lval \<Rightarrow> int" where
  "lval_value (LSchar c) = sint c"
| "lval_value (LUchar c) = uint c"
| "lval_value (LShort c) = sint c"
| "lval_value (LUshort c) = uint c"
| "lval_value (LInt c) = sint c"
| "lval_value (LUint c) = uint c"
| "lval_value (LLong c) = sint c"
| "lval_value (LUlong c) = uint c"
| "lval_value (LVlong v) = sint (vval v)"
| "lval_value (LUvlong v) = uint (vval v)"
| "lval_value (LOther n) = 0"

fun narrow_signed :: "lval \<Rightarrow> bool" where
  "narrow_signed (LSchar c) = True"
| "narrow_signed (LShort c) = True"
| "narrow_signed (LInt c) = True"
| "narrow_signed (LLong c) = True"
| "narrow_signed lv = False"

fun lval_assign :: "lval \<Rightarrow> vlong \<Rightarrow> lval" where
  "lval_assign (LSchar c) u = LSchar (ucast (vval u))"
| "lval_assign (LUchar c) u = LUchar (ucast (vval u))"
| "lval_assign (LShort c) u = LShort (ucast (vval u))"
| "lval_assign (LUshort c) u = LUshort (ucast (vval u))"
| "lval_assign (LInt c) u = LInt (ucast (vval u))"
| "lval_assign (LUint c) u = LUint (ucast (vval u))"
| "lval_assign (LLong c) u = LLong (ucast (vval u))"
| "lval_assign (LUlong c) u = LUlong (ucast (vval u))"
| "lval_assign (LVlong v) u = LVlong u"
| "lval_assign (LUvlong v) u = LUvlong u"
| "lval_assign (LOther n) u = LOther n"

lemma uint_vasop:
  "uint (vval (vasop_signed c)) = (if sint c < 0 then sint c + 2 ^ 33 else sint c)"
  "uint (vval (vasop_unsigned c)) = uint c"
proof -
  have "0 \<le> sint (vval (vasop_signed c))" using sint_greater_eq[of c] by (simp add: sint_vasop)
  then have "uint (vval (vasop_signed c)) = sint (vval (vasop_signed c))"
    using uint_bounded[of "vval (vasop_signed c)"] by (simp add: sint64_uint split: if_splits)
  then show "uint (vval (vasop_signed c)) = (if sint c < 0 then sint c + 2 ^ 33 else sint c)" by (simp add: sint_vasop)
  show "uint (vval (vasop_unsigned c)) = uint c" by (simp add: vasop_unsigned_def uint_mkv0)
qed

lemma vasop_operand:
  assumes "\<And>n. lv \<noteq> LOther n"
  shows "\<exists>t. (\<forall>fn rv. vasop lv fn rv = map_option (\<lambda>u. (u, lval_assign lv u)) (fn t rv))
          \<and> uint (vval t) = (if narrow_signed lv \<and> lval_value lv < 0 then lval_value lv + 2 ^ 33
                            else lval_value lv mod 2 ^ 64)"
proof (cases lv)
  case (LSchar c)
  show ?thesis by (rule exI[of _ "vasop_signed (scast c)"]) (use sint_less[of c] in \<open>simp add: LSchar vasop_def uint_vasop sint_scast uint_zext ucast_vval8 ucast_vval16 ucast_vval\<close>)
next
  case (LShort c)
  show ?thesis by (rule exI[of _ "vasop_signed (scast c)"]) (use sint_less[of c] in \<open>simp add: LShort vasop_def uint_vasop sint_scast uint_zext ucast_vval8 ucast_vval16 ucast_vval\<close>)
next
  case (LInt c)
  show ?thesis by (rule exI[of _ "vasop_signed c"]) (use sint_less[of c] in \<open>simp add: LInt vasop_def uint_vasop sint_scast uint_zext ucast_vval8 ucast_vval16 ucast_vval\<close>)
next
  case (LLong c)
  show ?thesis by (rule exI[of _ "vasop_signed c"]) (use sint_less[of c] in \<open>simp add: LLong vasop_def uint_vasop sint_scast uint_zext ucast_vval8 ucast_vval16 ucast_vval\<close>)
next
  case (LUchar c)
  show ?thesis by (rule exI[of _ "vasop_unsigned (ucast c)"]) (use uint_bounded[of c] in \<open>simp add: LUchar vasop_def uint_vasop sint_scast uint_zext ucast_vval8 ucast_vval16 ucast_vval\<close>)
next
  case (LUshort c)
  show ?thesis by (rule exI[of _ "vasop_unsigned (ucast c)"]) (use uint_bounded[of c] in \<open>simp add: LUshort vasop_def uint_vasop sint_scast uint_zext ucast_vval8 ucast_vval16 ucast_vval\<close>)
next
  case (LUint c)
  show ?thesis by (rule exI[of _ "vasop_unsigned c"]) (use uint_bounded[of c] in \<open>simp add: LUint vasop_def uint_vasop sint_scast uint_zext ucast_vval8 ucast_vval16 ucast_vval\<close>)
next
  case (LUlong c)
  show ?thesis by (rule exI[of _ "vasop_unsigned c"]) (use uint_bounded[of c] in \<open>simp add: LUlong vasop_def uint_vasop sint_scast uint_zext ucast_vval8 ucast_vval16 ucast_vval\<close>)
next
  case (LVlong v)
  have "sint (vval v) mod 2 ^ 64 = uint (vval v)" using uint_bounded[of "vval v"] by (simp add: sint64_uint)
  then show ?thesis by (intro exI[of _ v]) (simp add: LVlong vasop_def)
next
  case (LUvlong v)
  show ?thesis by (rule exI[of _ v]) (use uint_bounded[of "vval v"] in \<open>simp add: LUvlong vasop_def\<close>)
qed (use assms in auto)

text \<open>
  C5. \<open>_vasop\<close> zero-extends the sign. For every lvalue the routine for the operator is called with one
  operand, and its result is assigned back with truncation; the operand is the value of the lvalue
  modulo \<open>2 ^ 64\<close> for the unsigned and the 64-bit types, but a negative \<open>schar\<close>, \<open>short\<close>, \<open>int\<close> or
  \<open>long\<close> reaches the routine as its value plus \<open>2 ^ 33\<close>. So \<open>x /= (vlong)2\<close> leaves a variable of \<open>-1\<close>
  at \<open>-1\<close> in each of these types, whereas the same division of a \<open>vlong\<close> of \<open>-1\<close> gives \<open>0\<close>. The other
  type codes abort.
\<close>

theorem vasop_signed_operand_defect:
  "((\<exists>n. lv = LOther n) \<and> (\<forall>fn rv. vasop lv fn rv = None)
    \<or> (\<exists>t. (\<forall>fn rv. vasop lv fn rv = map_option (\<lambda>u. (u, lval_assign lv u)) (fn t rv))
          \<and> uint (vval t) = (if narrow_signed lv \<and> lval_value lv < 0 then lval_value lv + 2 ^ 33
                            else lval_value lv mod 2 ^ 64)))
   \<and> vasop (LSchar (- 1)) divv (sl2v 2) = Some (mkv 0 0xffffffff, LSchar (- 1))
   \<and> vasop (LShort (- 1)) divv (sl2v 2) = Some (mkv 0 0xffffffff, LShort (- 1))
   \<and> vasop (LInt (- 1)) divv (sl2v 2) = Some (mkv 0 0xffffffff, LInt (- 1))
   \<and> vasop (LLong (- 1)) divv (sl2v 2) = Some (mkv 0 0xffffffff, LLong (- 1))
   \<and> vasop (LVlong (sl2v (- 1))) divv (sl2v 2) = Some (mkv 0 0, LVlong (mkv 0 0))"
proof -
  have 1: "divv (vasop_signed (- 1)) (sl2v 2) = Some (mkv 0 0xffffffff)"
    by (rule divv_eqI) (simp_all add: sint_vasop sint_sl2v vval_mkv, simp add: sl2v_def vval_mkv wcat_eq_0)
  moreover have "divv (sl2v (- 1)) (sl2v 2) = Some (mkv 0 0)" by code_simp
  moreover have "\<exists>t. (\<forall>fn rv. vasop lv fn rv = map_option (\<lambda>u. (u, lval_assign lv u)) (fn t rv))
          \<and> uint (vval t) = (if narrow_signed lv \<and> lval_value lv < 0 then lval_value lv + 2 ^ 33
                            else lval_value lv mod 2 ^ 64)" if "\<And>n. lv \<noteq> LOther n"
    using that by (rule vasop_operand)
  ultimately show ?thesis by (cases lv) (simp_all add: vasop_def)
qed

end
