(* ===== verification/Cstring.thy ===== *)
theory Cstring
  imports Prelude
begin

text \<open>
  The byte-string routines of the kernel C library (\<open>src/kernel/Libc/port\<close>): \<open>strchr\<close>, \<open>strlen\<close>,
  \<open>strncmp\<close>, \<open>strncpy\<close>, \<open>memccpy\<close>, \<open>memcmp\<close>, \<open>toupper\<close>, \<open>abs\<close>, and the number parsers \<open>atol\<close> and
  \<open>strtoul\<close>. A pointer is an index into a buffer; \<open>None\<close> is a read or write outside the buffer. A
  null result is an inner \<open>None\<close>. Source and destination buffers are distinct.
\<close>

section \<open>Searching\<close>

function strend :: "buf \<Rightarrow> nat \<Rightarrow> nat option" where
  "strend s p =
    (case rd s p of None \<Rightarrow> None
     | Some b \<Rightarrow> if b = 0 then Some p else strend s (p + 1))"
  by pat_completeness auto
termination
  by (relation "measure (\<lambda>(s, p). length s - p)") (auto simp: rd_Some_iff)

function strchr_loop :: "buf \<Rightarrow> nat \<Rightarrow> u8 \<Rightarrow> nat option option" where
  "strchr_loop s p c0 =
    (case rd s p of None \<Rightarrow> None
     | Some c1 \<Rightarrow> if c1 = 0 then Some None
                 else if c1 = c0 then Some (Some p)
                 else strchr_loop s (p + 1) c0)"
  by pat_completeness auto
termination
  by (relation "measure (\<lambda>(s, p, c0). length s - p)") (auto simp: rd_Some_iff)

declare strend.simps [simp del] strchr_loop.simps [simp del]

definition strchr :: "buf \<Rightarrow> nat \<Rightarrow> u32 \<Rightarrow> nat option option" where
  "strchr s p c = (if c = 0 then map_option Some (strend s p) else strchr_loop s p (ucast c))"

definition strlen :: "buf \<Rightarrow> nat \<Rightarrow> nat option" where
  "strlen s p = (case strchr s p 0 of Some (Some e) \<Rightarrow> Some (e - p) | _ \<Rightarrow> None)"

section \<open>Comparing\<close>

text \<open>A \<open>char\<close> is signed; \<open>strncmp\<close> compares the sign-extended bytes as unsigned integers.\<close>

fun strncmp_loop :: "buf \<Rightarrow> nat \<Rightarrow> buf \<Rightarrow> nat \<Rightarrow> nat \<Rightarrow> int option" where
  "strncmp_loop s1 p s2 q 0 = Some 0"
| "strncmp_loop s1 p s2 q (Suc n) =
    do {
      b1 \<leftarrow> rd s1 p;
      b2 \<leftarrow> rd s2 q;
      let c1 = (scast b1 :: u32);
      let c2 = (scast b2 :: u32);
      if c1 \<noteq> c2 then Some (if c1 > c2 then 1 else - 1)
      else if c1 = 0 then Some 0
      else strncmp_loop s1 (p + 1) s2 (q + 1) n
    }"

definition strncmp :: "buf \<Rightarrow> nat \<Rightarrow> buf \<Rightarrow> nat \<Rightarrow> int \<Rightarrow> int option" where
  "strncmp s1 p s2 q n = strncmp_loop s1 p s2 q (nat n)"

fun memcmp :: "buf \<Rightarrow> nat \<Rightarrow> buf \<Rightarrow> nat \<Rightarrow> nat \<Rightarrow> int option" where
  "memcmp s1 p s2 q 0 = Some 0"
| "memcmp s1 p s2 q (Suc n) =
    do {
      c1 \<leftarrow> rd s1 p;
      c2 \<leftarrow> rd s2 q;
      if c1 \<noteq> c2 then Some (if c1 > c2 then 1 else - 1)
      else memcmp s1 (p + 1) s2 (q + 1) n
    }"

section \<open>Copying\<close>

fun strncpy_pad :: "buf \<Rightarrow> nat \<Rightarrow> nat \<Rightarrow> buf option" where
  "strncpy_pad d i 0 = Some d"
| "strncpy_pad d i (Suc k) = do { d \<leftarrow> wr d i 0; strncpy_pad d (i + 1) k }"

fun strncpy_loop :: "buf \<Rightarrow> nat \<Rightarrow> buf \<Rightarrow> nat \<Rightarrow> nat \<Rightarrow> buf option" where
  "strncpy_loop d i s j 0 = Some d"
| "strncpy_loop d i s j (Suc k) =
    do {
      b \<leftarrow> rd s j;
      d \<leftarrow> wr d i b;
      if b = 0 then strncpy_pad d (i + 1) k
      else strncpy_loop d (i + 1) s (j + 1) k
    }"

definition strncpy :: "buf \<Rightarrow> nat \<Rightarrow> buf \<Rightarrow> nat \<Rightarrow> int \<Rightarrow> buf option" where
  "strncpy d i s j n = strncpy_loop d i s j (nat n)"

text \<open>\<open>memccpy\<close> yields the destination and, unless the byte was not met, the index after its copy.\<close>

fun memccpy_loop :: "buf \<Rightarrow> nat \<Rightarrow> buf \<Rightarrow> nat \<Rightarrow> u8 \<Rightarrow> nat \<Rightarrow> (buf \<times> nat option) option" where
  "memccpy_loop d i s j c 0 = Some (d, None)"
| "memccpy_loop d i s j c (Suc n) =
    do {
      b \<leftarrow> rd s j;
      d \<leftarrow> wr d i b;
      if b = c then Some (d, Some (i + 1))
      else memccpy_loop d (i + 1) s (j + 1) c n
    }"

definition memccpy :: "buf \<Rightarrow> nat \<Rightarrow> buf \<Rightarrow> nat \<Rightarrow> u32 \<Rightarrow> nat \<Rightarrow> (buf \<times> nat option) option" where
  "memccpy d i s j c n = memccpy_loop d i s j (ucast (c AND 0xFF)) n"

section \<open>Characters and integers\<close>

definition toupper :: "u32 \<Rightarrow> u32" where
  "toupper c = (if sint c < 0x61 \<or> sint c > 0x7A then c else c - 0x61 + 0x41)"

definition tolower :: "u32 \<Rightarrow> u32" where
  "tolower c = (if sint c < 0x41 \<or> sint c > 0x5A then c else c - 0x41 + 0x61)"

definition abs_int :: "u32 \<Rightarrow> u32" where
  "abs_int a = (if sint a < 0 then - a else a)"

section \<open>Parsing numbers\<close>

function skip_while :: "(u8 \<Rightarrow> bool) \<Rightarrow> buf \<Rightarrow> nat \<Rightarrow> nat option" where
  "skip_while P s p =
    (case rd s p of None \<Rightarrow> None | Some b \<Rightarrow> if P b then skip_while P s (p + 1) else Some p)"
  by pat_completeness auto
termination
  by (relation "measure (\<lambda>(P, s, p). length s - p)") (auto simp: rd_Some_iff)

declare skip_while.simps [simp del]

definition is_blank :: "u8 \<Rightarrow> bool" where
  "is_blank b \<longleftrightarrow> b = 0x20 \<or> b = 0x09"

text \<open>
  The digit loops accumulate in a 32-bit \<open>long\<close>, which wraps around. The value of a digit in base
  10, 8 or 16 is \<open>None\<close> when the loop stops at it.
\<close>

definition digit_hex :: "u8 \<Rightarrow> u32 option" where
  "digit_hex c =
    (if c \<ge> 0x30 \<and> c \<le> 0x39 then Some (ucast c - 0x30)
     else if c \<ge> 0x61 \<and> c \<le> 0x66 then Some (ucast c - 0x61 + 10)
     else if c \<ge> 0x41 \<and> c \<le> 0x46 then Some (ucast c - 0x41 + 10)
     else None)"

definition digit_oct :: "u8 \<Rightarrow> u32 option" where
  "digit_oct c = (if c \<ge> 0x30 \<and> c \<le> 0x37 then Some (ucast c - 0x30) else None)"

definition digit_dec :: "u8 \<Rightarrow> u32 option" where
  "digit_dec c = (if c \<ge> 0x30 \<and> c \<le> 0x39 then Some (ucast c - 0x30) else None)"

function atol_digits :: "(u8 \<Rightarrow> u32 option) \<Rightarrow> u32 \<Rightarrow> buf \<Rightarrow> nat \<Rightarrow> u32 \<Rightarrow> u32 option" where
  "atol_digits dig base s p n =
    (case rd s p of None \<Rightarrow> None
     | Some c \<Rightarrow> (case dig c of None \<Rightarrow> Some n
                | Some v \<Rightarrow> atol_digits dig base s (p + 1) (n * base + v)))"
  by pat_completeness auto
termination
  by (relation "measure (\<lambda>(dig, base, s, p, n). length s - p)") (auto simp: rd_Some_iff)

declare atol_digits.simps [simp del]

definition atol_body :: "buf \<Rightarrow> nat \<Rightarrow> u32 option" where
  "atol_body s p =
    do {
      c0 \<leftarrow> rd s p;
      if c0 = 0x30 then
        do {
          c1 \<leftarrow> rd s (p + 1);
          if c1 = 0 then atol_digits digit_dec 10 s p 0
          else if c1 = 0x78 \<or> c1 = 0x58 then atol_digits digit_hex 16 s (p + 2) 0
          else atol_digits digit_oct 8 s p 0
        }
      else atol_digits digit_dec 10 s p 0
    }"

definition atol :: "buf \<Rightarrow> nat \<Rightarrow> u32 option" where
  "atol s p =
    do {
      p \<leftarrow> skip_while is_blank s p;
      c \<leftarrow> rd s p;
      if c = 0x2D \<or> c = 0x2B then
        do {
          p \<leftarrow> skip_while is_blank s (p + 1);
          n \<leftarrow> atol_body s p;
          Some (if c = 0x2D then - n else n)
        }
      else atol_body s p
    }"

definition atoi :: "buf \<Rightarrow> nat \<Rightarrow> u32 option" where
  "atoi s p = atol s p"

definition is_space :: "u8 \<Rightarrow> bool" where
  "is_space b \<longleftrightarrow> b = 0x20 \<or> b = 0x09 \<or> b = 0x0A \<or> b = 0x0C \<or> b = 0x0D \<or> b = 0x0B"

definition strtoul_digit :: "u8 \<Rightarrow> int \<Rightarrow> int" where
  "strtoul_digit c base =
    (if 0x30 \<le> c \<and> c \<le> 0x39 then uint c - 0x30
     else if 0x61 \<le> c \<and> c \<le> 0x7A then uint c - 0x61 + 10
     else if 0x41 \<le> c \<and> c \<le> 0x5A then uint c - 0x41 + 10
     else base)"

record strtoul_st =
  st_p :: nat
  st_n :: u32
  st_ndig :: nat
  st_ovfl :: bool

function strtoul_loop :: "buf \<Rightarrow> int \<Rightarrow> u32 \<Rightarrow> strtoul_st \<Rightarrow> strtoul_st option" where
  "strtoul_loop s base m st =
    (case rd s (st_p st) of None \<Rightarrow> None
     | Some c \<Rightarrow>
        let v = strtoul_digit c base in
        if v \<ge> base then Some st
        else
          let nn = st_n st * word_of_int base + word_of_int v in
          strtoul_loop s base m
            \<lparr>st_p = st_p st + 1, st_n = nn, st_ndig = st_ndig st + 1,
             st_ovfl = st_ovfl st \<or> st_n st > m \<or> nn < st_n st\<rparr>)"
  by pat_completeness auto
termination
  by (relation "measure (\<lambda>(s, base, m, st). length s - st_p st)") (auto simp: rd_Some_iff)

declare strtoul_loop.simps [simp del]

definition is_hexdigit :: "u8 \<Rightarrow> bool" where
  "is_hexdigit b \<longleftrightarrow> (0x30 \<le> b \<and> b \<le> 0x39) \<or> (0x61 \<le> b \<and> b \<le> 0x66) \<or> (0x41 \<le> b \<and> b \<le> 0x46)"

definition strtoul_prefix :: "buf \<Rightarrow> nat \<Rightarrow> int \<Rightarrow> nat option" where
  "strtoul_prefix s p base =
    (if base = 16 then
       do {
         c0 \<leftarrow> rd s p;
         if c0 = 0x30 then
           do {
             c1 \<leftarrow> rd s (p + 1);
             if c1 = 0x78 \<or> c1 = 0x58 then
               do { c2 \<leftarrow> rd s (p + 2); Some (if is_hexdigit c2 then p + 2 else p) }
             else Some p
           }
         else Some p
       }
     else Some p)"

definition strtoul_base :: "buf \<Rightarrow> nat \<Rightarrow> int \<Rightarrow> int option" where
  "strtoul_base s p base =
    (if base = 0 then
       do {
         c0 \<leftarrow> rd s p;
         if c0 \<noteq> 0x30 then Some 10
         else do { c1 \<leftarrow> rd s (p + 1); Some (if c1 = 0x78 \<or> c1 = 0x58 then 16 else 8) }
       }
     else Some base)"

text \<open>The value and the end pointer.\<close>

definition strtoul :: "buf \<Rightarrow> nat \<Rightarrow> int \<Rightarrow> (u32 \<times> nat) option" where
  "strtoul s nptr base =
    do {
      p \<leftarrow> skip_while is_space s nptr;
      c \<leftarrow> rd s p;
      let neg = (c = 0x2D);
      let p = (if c = 0x2D \<or> c = 0x2B then p + 1 else p);
      base \<leftarrow> strtoul_base s p base;
      if base < 2 \<or> 36 < base then Some (if neg then - 0 else 0, nptr)
      else
        do {
          p \<leftarrow> strtoul_prefix s p base;
          let m = (0xFFFFFFFF :: u32) div word_of_int base;
          st \<leftarrow> strtoul_loop s base m \<lparr>st_p = p, st_n = 0, st_ndig = 0, st_ovfl = False\<rparr>;
          let e = (if st_ndig st = 0 then nptr else st_p st);
          Some (if st_ovfl st then 0xFFFFFFFF else if neg then - st_n st else st_n st, e)
        }
    }"


section \<open>Searching, comparing and copying terminated strings\<close>

lemma rd_mid [simp]: "rd (pre @ b # post) (length pre) = Some b"
  by (simp add: rd_def)

lemma strend_str: "0 \<notin> set bs \<Longrightarrow> strend (pre @ bs @ 0 # post) (length pre) = Some (length pre + length bs)"
proof (induction bs arbitrary: pre)
  case Nil
  then show ?case by (simp add: strend.simps)
next
  case (Cons b bs)
  then show ?case using Cons.IH[of "pre @ [b]"] by (subst strend.simps) auto
qed

lemma strchr_loop_str:
  "0 \<notin> set bs \<Longrightarrow> c \<noteq> 0 \<Longrightarrow> strchr_loop (pre @ bs @ 0 # post) (length pre) c =
    Some (if c \<in> set bs then Some (length pre + length (takeWhile (\<lambda>b. b \<noteq> c) bs)) else None)"
proof (induction bs arbitrary: pre)
  case Nil
  then show ?case by (simp add: strchr_loop.simps)
next
  case (Cons b bs)
  then show ?case using Cons.IH[of "pre @ [b]"] by (subst strchr_loop.simps) auto
qed

fun lexcmp :: "u8 list \<Rightarrow> u8 list \<Rightarrow> int" where
  "lexcmp [] [] = 0"
| "lexcmp [] (y # ys) = - 1"
| "lexcmp (x # xs) [] = 1"
| "lexcmp (x # xs) (y # ys) = (if x = y then lexcmp xs ys else if x > y then 1 else - 1)"

lemma lexcmp_0_iff: "lexcmp xs ys = 0 \<longleftrightarrow> xs = ys"
  by (induction xs ys rule: lexcmp.induct) auto

lemma memcmp_lex:
  "length xs = length ys \<Longrightarrow>
   memcmp (pre @ xs @ post) (length pre) (pre' @ ys @ post') (length pre') (length xs) = Some (lexcmp xs ys)"
proof (induction xs ys arbitrary: pre pre' rule: list_induct2)
  case (Cons x xs y ys)
  then show ?case using Cons.IH[of "pre @ [x]" "pre' @ [y]"] by auto
qed simp

lemma scast8_cmp: "(scast (a::u8) :: u32) = scast b \<longleftrightarrow> a = b" "(scast (a::u8) :: u32) < scast b \<longleftrightarrow> a < b"
proof -
  have v: "uint (scast a :: u32) = (if uint a < 128 then uint a else uint a + 4294967040)" for a :: u8
  proof -
    have "scast a = (word_of_int (sint a) :: u32)" by simp
    then have "uint (scast a :: u32) = sint a mod 4294967296"
      by (simp only: uint_word_of_int) simp
    moreover have "(x - 256) mod 4294967296 = x + 4294967040" if "0 \<le> x" "x < 256" for x :: int
      using that mod_add_self2[of "x - 256" 4294967296] by (simp add: mod_pos_pos_trivial)
    ultimately show ?thesis using uint_bounded[of a] by (auto simp: sint_uint_if)
  qed
  have b: "uint a < 256" "uint b < 256" using uint_bounded[of a] uint_bounded[of b] by simp_all
  show "(scast a :: u32) = scast b \<longleftrightarrow> a = b" unfolding word_uint_eq_iff v using b by auto
  show "(scast a :: u32) < scast b \<longleftrightarrow> a < b" unfolding word_less_def v using b by auto
qed

lemma scast8_0: "(scast (a::u8) :: u32) = 0 \<longleftrightarrow> a = 0"
  using scast8_cmp(1)[of a 0] by simp

lemma strncmp_lex:
  "0 \<notin> set xs \<Longrightarrow> 0 \<notin> set ys \<Longrightarrow>
   strncmp_loop (pre @ xs @ 0 # post) (length pre) (pre' @ ys @ 0 # post') (length pre') n =
   Some (lexcmp (take n xs) (take n ys))"
proof (induction n arbitrary: xs ys pre pre')
  case (Suc n)
  have "\<not> x < (0::u8)" for x by (simp add: word_less_nat_alt)
  then show ?case
    using Suc.prems Suc.IH[of "tl xs" "tl ys" "pre @ [hd xs]" "pre' @ [hd ys]"]
    by (cases xs; cases ys) (auto simp: scast8_cmp scast8_0 Let_def word_gt_0)
qed simp

lemma strncpy_pad_eq: "i + k \<le> length d \<Longrightarrow> strncpy_pad d i k = Some (take i d @ replicate k 0 @ drop (i + k) d)"
proof (induction k arbitrary: d i)
  case (Suc k)
  then show ?case using Suc.IH[of "i + 1" "d[i := 0]"]
    by (simp add: wr_def take_Suc_conv_app_nth replicate_append_same[symmetric] del: replicate_append_same)
qed simp

lemma strncpy_loop_eq:
  "0 \<notin> set bs \<Longrightarrow> i + n \<le> length d \<Longrightarrow>
   strncpy_loop d i (pre @ bs @ 0 # post) (length pre) n = Some (take i d @ take n (bs @ replicate n 0) @ drop (i + n) d)"
proof (induction n arbitrary: d i pre bs)
  case (Suc n)
  show ?case
  proof (cases bs)
    case Nil
    then show ?thesis using Suc.prems strncpy_pad_eq[of "i + 1" n "d[i := 0]"]
      by (simp add: wr_def take_Suc_conv_app_nth)
  next
    case (Cons b bs')
    have "take n (bs' @ 0 # replicate n 0) = take n (bs' @ replicate n 0)"
      by (simp add: take_Cons' replicate_append_same[symmetric] del: replicate_append_same)
    then show ?thesis using Suc.prems Cons Suc.IH[of bs' "i + 1" "d[i := b]" "pre @ [b]"]
      by (auto simp: wr_def take_Suc_conv_app_nth)
  qed
qed simp

section \<open>Numbers\<close>

lemma skip_while_str:
  "\<forall>b\<in>set ws. P b \<Longrightarrow> \<not> P c \<Longrightarrow> skip_while P (pre @ ws @ c # post) (length pre) = Some (length pre + length ws)"
proof (induction ws arbitrary: pre)
  case Nil
  then show ?case by (simp add: skip_while.simps)
next
  case (Cons b bs)
  then show ?case using Cons.IH[of "pre @ [b]"] by (subst skip_while.simps) auto
qed

definition digits_value :: "int \<Rightarrow> u8 list \<Rightarrow> int \<Rightarrow> int" where
  "digits_value base ds v = foldl (\<lambda>v c. v * base + strtoul_digit c base) v ds"

lemma digits_value_simps [simp]:
  "digits_value base [] v = v"
  "digits_value base (c # ds) v = digits_value base ds (v * base + strtoul_digit c base)"
  by (simp_all add: digits_value_def)

lemma strtoul_digit_nonneg: "2 \<le> base \<Longrightarrow> 0 \<le> strtoul_digit c base"
  by (auto simp: strtoul_digit_def word_le_def)

lemma ovfl_step:
  fixes n :: u32
  assumes "2 \<le> base" "base \<le> 36" "0 \<le> d" "d < base" "n = word_of_int V" "0 \<le> V"
  shows "(V \<ge> 4294967296 \<or> n > 0xFFFFFFFF div word_of_int base \<or> n * word_of_int base + word_of_int d < n)
     \<longleftrightarrow> V * base + d \<ge> 4294967296"
proof -
  have ge: "V \<le> V * base" using assms mult_left_mono[of 1 base V] by simp
  show ?thesis
proof (cases "V \<ge> 4294967296")
  case True
  then show ?thesis using ge assms(3) by linarith
next
  case False
  have b: "uint (word_of_int base :: u32) = base" using assms by (simp add: uint_word_of_int)
  have v: "uint n = V" using False assms by (simp add: uint_word_of_int)
  have m: "uint (0xFFFFFFFF div word_of_int base :: u32) = 4294967295 div base"
    by (simp add: uint_div b)
  have gt: "n > 0xFFFFFFFF div word_of_int base \<longleftrightarrow> V > 4294967295 div base"
    unfolding word_less_def m v ..
  have nn: "uint (n * word_of_int base + word_of_int d) = (V * base + d) mod 4294967296"
  proof -
    have "n * word_of_int base + word_of_int d = word_of_int (V * base + d)" using assms(5) by simp
    then show ?thesis by (simp only: uint_word_of_int) simp
  qed
  have lt: "n * word_of_int base + word_of_int d < n \<longleftrightarrow> (V * base + d) mod 4294967296 < V"
    unfolding word_less_def nn v ..
  have "V \<le> 4294967295 div base \<longleftrightarrow> V * base \<le> 4294967295"
  proof
    assume "V \<le> 4294967295 div base"
    then have "V * base \<le> 4294967295 div base * base" using assms(1) by (intro mult_right_mono) auto
    also have "\<dots> \<le> 4294967295" using assms(1) div_mult_mod_eq[of 4294967295 base] pos_mod_sign[of base 4294967295]
      by linarith
    finally show "V * base \<le> 4294967295" .
  next
    assume "V * base \<le> 4294967295"
    then have "V * base div base \<le> 4294967295 div base" using assms(1) by (intro zdiv_mono1) auto
    then show "V \<le> 4294967295 div base" using assms(1) by simp
  qed
  then have gt': "n > 0xFFFFFFFF div word_of_int base \<longleftrightarrow> 4294967296 \<le> V * base" unfolding gt by linarith
  have small: "V \<le> 36 \<Longrightarrow> V * base \<le> 36 * 36" using assms by (intro mult_mono) auto
  define W where "W = V * base + d"
  have W: "V * base \<le> W" "W < V * base + 36" using assms by (auto simp: W_def)
  consider "4294967296 \<le> V * base" | "V * base < 4294967296" "4294967296 \<le> W" | "W < 4294967296"
    by linarith
  then have "4294967296 \<le> V * base \<or> W mod 4294967296 < V \<longleftrightarrow> 4294967296 \<le> W"
  proof cases
    case 1
    then show ?thesis using W by simp
  next
    case 2
    then have "W - 4294967296 < 36" "0 \<le> W - 4294967296" using W by linarith+
    then have "W mod 4294967296 = W - 4294967296"
      using mod_pos_geq[of 4294967296 W] mod_pos_pos_trivial[of "W - 4294967296" 4294967296] by linarith
    moreover have "36 < V"
    proof (rule ccontr)
      assume "\<not> 36 < V"
      then have "V * base \<le> 1296" using small by simp
      then show False using W 2 by simp
    qed
    ultimately show ?thesis using 2 W by simp
  next
    case 3
    then have "W mod 4294967296 = W" using W ge assms(6) by simp
    then show ?thesis using 3 W ge by simp
  qed
  then show ?thesis unfolding gt' lt W_def using False by simp
qed
qed

definition strtoul_val :: "int \<Rightarrow> strtoul_st \<Rightarrow> int \<Rightarrow> bool" where
  "strtoul_val base st V \<longleftrightarrow> 0 \<le> V \<and> st_n st = word_of_int V \<and> (st_ovfl st \<longleftrightarrow> V \<ge> 4294967296)"

lemma strtoul_loop_value:
  assumes "2 \<le> base" "base \<le> 36"
  shows "\<forall>c\<in>set ds. strtoul_digit c base < base \<Longrightarrow> \<not> strtoul_digit x base < base \<Longrightarrow>
    st_p st = length pre \<Longrightarrow> strtoul_val base st V \<Longrightarrow>
    \<exists>st'. strtoul_loop (pre @ ds @ x # post) base (0xFFFFFFFF div word_of_int base) st = Some st' \<and>
      st_p st' = length pre + length ds \<and> st_ndig st' = st_ndig st + length ds \<and>
      strtoul_val base st' (digits_value base ds V)"
proof (induction ds arbitrary: pre st V)
  case Nil
  then show ?case by (subst strtoul_loop.simps) (simp add: Let_def)
next
  case (Cons c ds)
  let ?d = "strtoul_digit c base"
  let ?nn = "st_n st * word_of_int base + word_of_int ?d"
  let ?st = "\<lparr>st_p = st_p st + 1, st_n = ?nn, st_ndig = st_ndig st + 1,
     st_ovfl = st_ovfl st \<or> st_n st > 0xFFFFFFFF div word_of_int base \<or> ?nn < st_n st\<rparr>"
  have d: "?d < base" "0 \<le> ?d" using Cons.prems strtoul_digit_nonneg[OF assms(1)] by auto
  have V: "0 \<le> V" "st_n st = word_of_int V" using Cons.prems by (auto simp: strtoul_val_def)
  have v: "strtoul_val base ?st (V * base + ?d)"
    using ovfl_step[OF assms d(2,1) V(2,1)] Cons.prems(4) V assms(1) d(2)
    by (auto simp: strtoul_val_def)
  have "\<exists>st'. strtoul_loop ((pre @ [c]) @ ds @ x # post) base (0xFFFFFFFF div word_of_int base) ?st = Some st' \<and>
      st_p st' = length (pre @ [c]) + length ds \<and> st_ndig st' = st_ndig ?st + length ds \<and>
      strtoul_val base st' (digits_value base ds (V * base + ?d))"
    by (rule Cons.IH) (use Cons.prems v in auto)
  moreover have "rd (pre @ (c # ds) @ x # post) (st_p st) = Some c" using Cons.prems by simp
  ultimately show ?case using d(1) by (subst strtoul_loop.simps) (simp add: Let_def)
qed

definition sign_bytes :: "bool option \<Rightarrow> u8 list" where
  "sign_bytes sg = (case sg of None \<Rightarrow> [] | Some True \<Rightarrow> [0x2D] | Some False \<Rightarrow> [0x2B])"

lemma digit_chars:
  "strtoul_digit c base < base \<Longrightarrow> \<not> is_space c \<and> c \<noteq> 0x2D \<and> c \<noteq> 0x2B"
  by (auto simp: strtoul_digit_def is_space_def)

lemma x_digit: "strtoul_digit 0x78 16 = 33" "strtoul_digit 0x58 16 = 33"
  by (simp_all add: strtoul_digit_def)

lemma strtoul_prefix_none:
  assumes "ds \<noteq> []" "\<forall>c\<in>set ds. strtoul_digit c base < base" "x \<noteq> 0x78" "x \<noteq> 0x58"
  shows "strtoul_prefix (pre @ ds @ x # post) (length pre) base = Some (length pre)"
proof -
  obtain c ds' where ds: "ds = c # ds'" using assms(1) by (cases ds) auto
  obtain b where b: "rd (pre @ ds @ x # post) (length pre + 1) = Some b" "base = 16 \<longrightarrow> b \<noteq> 0x78 \<and> b \<noteq> 0x58"
  proof (cases ds')
    case Nil
    then show thesis using that[of x] assms ds by (simp add: rd_def nth_append)
  next
    case (Cons b ds'')
    moreover have "base = 16 \<longrightarrow> b \<noteq> 0x78 \<and> b \<noteq> 0x58" using Cons assms(2) ds x_digit by force
    ultimately show thesis using that[of b] ds by (simp add: rd_def nth_append)
  qed
  then show ?thesis by (auto simp: strtoul_prefix_def ds)
qed

lemma strtoul_start:
  assumes "ds \<noteq> []" "\<forall>c\<in>set ds. strtoul_digit c base < base"
  shows "\<exists>c r. sign_bytes sg @ ds = c # r \<and> \<not> is_space c \<and> (c = 0x2D \<longleftrightarrow> sg = Some True) \<and>
    (c = 0x2B \<longleftrightarrow> sg = Some False)"
proof -
  obtain c ds' where ds: "ds = c # ds'" using assms(1) by (cases ds) auto
  then show ?thesis using digit_chars[of c base] assms(2)
    by (cases sg) (auto simp: sign_bytes_def is_space_def split: bool.splits)
qed

text \<open>
  C21. \<open>strtoul\<close> reads, after white space and an optional sign, a maximal sequence of digits of the base: it
  returns its value, negated modulo \<open>2^32\<close> after a minus sign, or \<open>ULONG_MAX\<close> exactly when the value does not
  fit 32 bits, and the pointer after the last digit.
\<close>

theorem strtoul_value:
  assumes "2 \<le> base" "base \<le> 36" "\<forall>b\<in>set ws. is_space b" "ds \<noteq> []"
    "\<forall>c\<in>set ds. strtoul_digit c base < base" "\<not> strtoul_digit x base < base" "x \<noteq> 0x78" "x \<noteq> 0x58"
  shows "strtoul (pre @ ws @ sign_bytes sg @ ds @ x # post) (length pre) base =
    Some (if digits_value base ds 0 \<ge> 2 ^ 32 then 0xFFFFFFFF
          else if sg = Some True then - word_of_int (digits_value base ds 0)
          else word_of_int (digits_value base ds 0),
          length pre + length ws + length (sign_bytes sg) + length ds)"
proof -
  let ?s = "pre @ ws @ sign_bytes sg @ ds @ x # post"
  obtain c r where c: "sign_bytes sg @ ds = c # r" "\<not> is_space c" "c = 0x2D \<longleftrightarrow> sg = Some True"
    "c = 0x2B \<longleftrightarrow> sg = Some False" using strtoul_start[OF assms(4,5), of sg] by (elim exE conjE) (rule that)
  have "?s = pre @ ws @ (sign_bytes sg @ ds) @ x # post" by simp
  also have "\<dots> = pre @ ws @ c # r @ x # post" by (simp only: c(1) append_Cons)
  finally have s: "?s = pre @ ws @ c # r @ x # post" .
  have sk: "skip_while is_space ?s (length pre) = Some (length pre + length ws)"
    unfolding s by (rule skip_while_str) (use assms c in auto)
  have rc: "rd ?s (length pre + length ws) = Some c"
    unfolding s using rd_mid[of "pre @ ws" c "r @ x # post"] by simp
  let ?pre = "pre @ ws @ sign_bytes sg"
  have p: "(if c = 0x2D \<or> c = 0x2B then length pre + length ws + 1 else length pre + length ws) = length ?pre"
    using c(3,4) by (cases sg) (auto simp: sign_bytes_def split: bool.splits)
  have pf: "strtoul_prefix ?s (length ?pre) base = Some (length ?pre)"
    using strtoul_prefix_none[OF assms(4,5,7,8), of ?pre post] by simp
  let ?st = "\<lparr>st_p = length ?pre, st_n = 0, st_ndig = 0, st_ovfl = False\<rparr>"
  have "\<exists>st'. strtoul_loop (?pre @ ds @ x # post) base (0xFFFFFFFF div word_of_int base) ?st = Some st' \<and>
      st_p st' = length ?pre + length ds \<and> st_ndig st' = st_ndig ?st + length ds \<and>
      strtoul_val base st' (digits_value base ds 0)"
    by (rule strtoul_loop_value[OF assms(1,2,5,6)]) (simp_all add: strtoul_val_def)
  then obtain st' where st: "strtoul_loop ?s base (0xFFFFFFFF div word_of_int base) ?st = Some st'"
      "st_p st' = length ?pre + length ds" "st_ndig st' = length ds"
      "strtoul_val base st' (digits_value base ds 0)" by auto
  show ?thesis
    using assms(1,2,4) sk rc pf st p[symmetric] c(3)
    by (simp add: strtoul_def strtoul_base_def Let_def strtoul_val_def del: append_assoc)
qed

theorem strtoul_value_witness:
  "strtoul [0x20, 0x2D, 0x34, 0x32, 0] 0 10 = Some (- 42, 4) \<and>
   strtoul [0x66, 0x66, 0x66, 0x66, 0x66, 0x66, 0x66, 0x66, 0x66, 0] 0 16 = Some (0xFFFFFFFF, 9)"
proof -
  have d: "\<forall>c\<in>set [0x34, 0x32]. strtoul_digit c 10 < 10" "\<not> strtoul_digit 0 10 < 10"
    "\<forall>c\<in>set ([0x66, 0x66, 0x66, 0x66, 0x66, 0x66, 0x66, 0x66, 0x66]). strtoul_digit c 16 < 16" "\<not> strtoul_digit 0 16 < 16"
    by (simp_all add: strtoul_digit_def)
  have w: "\<forall>b\<in>set [0x20]. is_space b" by (simp add: is_space_def)
  have 1: "strtoul ([] @ [0x20] @ sign_bytes (Some True) @ [0x34, 0x32] @ 0 # []) (length []) 10 =
      Some (- word_of_int (digits_value 10 [0x34, 0x32] 0), 4)"
    using strtoul_value[of 10 "[0x20]" "[0x34, 0x32]" 0 "[]" "Some True" "[]"] d w
    by (simp add: sign_bytes_def strtoul_digit_def)
  have 2: "strtoul ([] @ [] @ sign_bytes None @ [0x66, 0x66, 0x66, 0x66, 0x66, 0x66, 0x66, 0x66, 0x66] @ 0 # []) (length []) 16 = Some (0xFFFFFFFF, 9)"
    using strtoul_value[of 16 "[]" "[0x66, 0x66, 0x66, 0x66, 0x66, 0x66, 0x66, 0x66, 0x66]" 0 "[]" None "[]"] d
    by (simp add: sign_bytes_def strtoul_digit_def)
  show ?thesis using 1 2 by (simp add: sign_bytes_def strtoul_digit_def)
qed

lemma digit_dec_strtoul:
  "digit_dec c = (if strtoul_digit c 10 < 10 then Some (word_of_int (strtoul_digit c 10)) else None)"
proof -
  have "word_of_int (uint c - 0x30) = (ucast c - 0x30 :: u32)" by simp
  then show ?thesis by (auto simp: digit_dec_def strtoul_digit_def word_le_def)
qed

lemma atol_digits_value:
  "\<forall>c\<in>set ds. strtoul_digit c 10 < 10 \<Longrightarrow> \<not> strtoul_digit x 10 < 10 \<Longrightarrow>
   atol_digits digit_dec 10 (pre @ ds @ x # post) (length pre) (word_of_int V) = Some (word_of_int (digits_value 10 ds V))"
proof (induction ds arbitrary: pre V)
  case Nil
  then show ?case by (subst atol_digits.simps) (simp add: digit_dec_strtoul)
next
  case (Cons c ds)
  then show ?case using Cons.IH[of "pre @ [c]" "V * 10 + strtoul_digit c 10"]
    by (subst atol_digits.simps) (simp add: digit_dec_strtoul[of c])
qed

lemma atol_body_value:
  assumes "ds \<noteq> []" "hd ds \<noteq> 0x30" "\<forall>c\<in>set ds. strtoul_digit c 10 < 10" "\<not> strtoul_digit x 10 < 10"
  shows "atol_body (pre @ ds @ x # post) (length pre) = Some (word_of_int (digits_value 10 ds 0))"
  using assms atol_digits_value[OF assms(3,4), of pre post 0]
  by (cases ds) (auto simp: atol_body_def)

text \<open>
  \<open>atol\<close> on a decimal number (white space, optional sign, white space, digits without a leading zero) returns
  its value, wrapped to 32 bits without any overflow report.
\<close>

theorem atol_value:
  assumes "\<forall>b\<in>set ws. is_blank b" "\<forall>b\<in>set ws'. is_blank b" "sg = None \<longrightarrow> ws' = []"
    "ds \<noteq> []" "hd ds \<noteq> 0x30" "\<forall>c\<in>set ds. strtoul_digit c 10 < 10" "\<not> strtoul_digit x 10 < 10"
  shows "atol (pre @ ws @ sign_bytes sg @ ws' @ ds @ x # post) (length pre) =
    Some (word_of_int (if sg = Some True then - digits_value 10 ds 0 else digits_value 10 ds 0))"
proof -
  let ?s = "pre @ ws @ sign_bytes sg @ ws' @ ds @ x # post"
  obtain d r where d: "ds = d # r" "\<not> is_blank d" "d \<noteq> 0x2D" "d \<noteq> 0x2B"
    using assms(4,6) digit_chars[of _ 10] by (cases ds) (auto simp: is_blank_def is_space_def)
  show ?thesis
  proof (cases sg)
    case None
    have "skip_while is_blank ?s (length pre) = Some (length (pre @ ws))"
      using skip_while_str[of ws is_blank d pre "r @ x # post"] None assms d by (simp add: sign_bytes_def)
    moreover have "rd ?s (length (pre @ ws)) = Some d"
      using rd_mid[of "pre @ ws" d "r @ x # post"] None assms d by (simp add: sign_bytes_def)
    moreover have "atol_body ?s (length (pre @ ws)) = Some (word_of_int (digits_value 10 ds 0))"
      using atol_body_value[OF assms(4-7), of "pre @ ws" post] None assms(3) by (simp add: sign_bytes_def)
    ultimately show ?thesis using d None by (simp add: atol_def)
  next
    case (Some neg)
    define c :: u8 where "c = (if neg then 0x2D else 0x2B)"
    have s: "sign_bytes sg = [c]" "\<not> is_blank c" using Some by (auto simp: sign_bytes_def c_def is_blank_def)
    have "skip_while is_blank ?s (length pre) = Some (length (pre @ ws))"
      using skip_while_str[of ws is_blank c pre "ws' @ ds @ x # post"] s assms(1) by simp
    moreover have "rd ?s (length (pre @ ws)) = Some c"
      using rd_mid[of "pre @ ws" c "ws' @ ds @ x # post"] s by simp
    moreover have "skip_while is_blank ?s (length (pre @ ws) + 1) = Some (length (pre @ ws @ [c] @ ws'))"
      using skip_while_str[of ws' is_blank d "pre @ ws @ [c]" "r @ x # post"] s assms(2) d by simp
    moreover have "atol_body ?s (length (pre @ ws @ [c] @ ws')) = Some (word_of_int (digits_value 10 ds 0))"
      using atol_body_value[OF assms(4-7), of "pre @ ws @ [c] @ ws'" post] s by simp
    ultimately show ?thesis using Some by (auto simp: atol_def c_def)
  qed
qed

theorem atol_value_witness:
  "atol [0x20, 0x2D, 0x20, 0x31, 0x37, 0] 0 = Some (word_of_int (- 17))"
proof -
  have "atol ([] @ [0x20] @ sign_bytes (Some True) @ [0x20] @ [0x31, 0x37] @ 0 # []) (length []) =
    Some (word_of_int (- digits_value 10 [0x31, 0x37] 0))"
    using atol_value[of "[0x20]" "[0x20]" "Some True" "[0x31, 0x37]" 0 "[]" "[]"]
    by (simp add: is_blank_def strtoul_digit_def)
  then show ?thesis by (simp add: sign_bytes_def strtoul_digit_def)
qed

lemma string_routines_facts:
  assumes "0 \<notin> set xs" "0 \<notin> set ys" "0 < unat c" "unat c < 256" "i + n \<le> length d" "length us = length vs"
  shows "strlen (pre @ xs @ 0 # post) (length pre) = Some (length xs)"
    "strchr (pre @ xs @ 0 # post) (length pre) c = Some (if ucast c \<in> set xs
        then Some (length pre + length (takeWhile (\<lambda>b. b \<noteq> ucast c) xs)) else None)"
    "strncmp (pre @ xs @ 0 # post) (length pre) (pre' @ ys @ 0 # post') (length pre') (int k) =
       Some (lexcmp (take k xs) (take k ys))"
    "memcmp (pre @ us @ post) (length pre) (pre' @ vs @ post') (length pre') (length us) = Some (lexcmp us vs)"
    "strncpy d i (pre @ xs @ 0 # post) (length pre) (int n) =
       Some (take i d @ take n (xs @ replicate n 0) @ drop (i + n) d)"
proof -
  show "strlen (pre @ xs @ 0 # post) (length pre) = Some (length xs)"
    using strend_str[OF assms(1)] by (simp add: strlen_def strchr_def)
  have "unat (ucast c :: u8) = unat c"
    using assms(4) by (simp add: unsigned_ucast_eq take_bit_nat_eq_self)
  then have "ucast c \<noteq> (0 :: u8)" "c \<noteq> 0" using assms(3) by (auto simp: unat_eq_0)
  then show "strchr (pre @ xs @ 0 # post) (length pre) c = Some (if ucast c \<in> set xs
        then Some (length pre + length (takeWhile (\<lambda>b. b \<noteq> ucast c) xs)) else None)"
    using strchr_loop_str[OF assms(1)] by (simp add: strchr_def)
  show "strncmp (pre @ xs @ 0 # post) (length pre) (pre' @ ys @ 0 # post') (length pre') (int k) =
       Some (lexcmp (take k xs) (take k ys))"
    using strncmp_lex[OF assms(1,2)] by (simp add: strncmp_def)
  show "memcmp (pre @ us @ post) (length pre) (pre' @ vs @ post') (length pre') (length us) = Some (lexcmp us vs)"
    by (rule memcmp_lex[OF assms(6)])
  show "strncpy d i (pre @ xs @ 0 # post) (length pre) (int n) =
       Some (take i d @ take n (xs @ replicate n 0) @ drop (i + n) d)"
    using strncpy_loop_eq[OF assms(1,5)] by (simp add: strncpy_def)
qed


text \<open>
  C22. The string routines on terminated strings: \<open>strlen\<close> counts the bytes before the terminator, \<open>strchr\<close>
  finds the first occurrence of a character, \<open>strncmp\<close> and \<open>memcmp\<close> give the sign of the lexicographic
  comparison of unsigned bytes, and \<open>strncpy\<close> fills exactly \<open>n\<close> bytes, with NULs after the string.
\<close>

theorem string_routines:
  assumes "0 \<notin> set xs" "0 \<notin> set ys" "0 < unat c" "unat c < 256" "i + n \<le> length d" "length us = length vs"
  shows "strlen (pre @ xs @ 0 # post) (length pre) = Some (length xs) \<and>
    strchr (pre @ xs @ 0 # post) (length pre) c = Some (if ucast c \<in> set xs
        then Some (length pre + length (takeWhile (\<lambda>b. b \<noteq> ucast c) xs)) else None) \<and>
    strncmp (pre @ xs @ 0 # post) (length pre) (pre' @ ys @ 0 # post') (length pre') (int k) =
       Some (lexcmp (take k xs) (take k ys)) \<and>
    memcmp (pre @ us @ post) (length pre) (pre' @ vs @ post') (length pre') (length us) = Some (lexcmp us vs) \<and>
    strncpy d i (pre @ xs @ 0 # post) (length pre) (int n) =
       Some (take i d @ take n (xs @ replicate n 0) @ drop (i + n) d)"
  by (intro conjI string_routines_facts[OF assms])

theorem string_routines_witness:
  "strlen [0x61, 0x62, 0] 0 = Some 2 \<and> strchr [0x61, 0x62, 0] 0 0x62 = Some (Some 1) \<and>
   strncmp [0x61, 0x62, 0] 0 [0x61, 0xE9, 0] 0 5 = Some (- 1) \<and>
   memcmp [0, 0x62] 0 [0, 0x61] 0 2 = Some 1 \<and>
   strncpy [1, 1, 1, 1, 1] 0 [0x61, 0x62, 0] 0 4 = Some [0x61, 0x62, 0, 0, 1]"
proof -
  have h: "0 \<notin> set [0x61, 0x62 :: u8]" "0 \<notin> set [0x61, 0xE9 :: u8]" "0 < unat (0x62 :: u32)"
    "unat (0x62 :: u32) < 256" "0 + 4 \<le> length [1, 1, 1, 1, 1 :: u8]" "length [0, 0x62 :: u8] = length [0, 0x61 :: u8]"
    by simp_all
  note r = conjunct1[OF string_routines[OF h]] string_routines[OF h, THEN conjunct2, THEN conjunct1]
    string_routines[OF h, THEN conjunct2, THEN conjunct2, THEN conjunct1]
    string_routines[OF h, THEN conjunct2, THEN conjunct2, THEN conjunct2, THEN conjunct1]
    string_routines[OF h, THEN conjunct2, THEN conjunct2, THEN conjunct2, THEN conjunct2]
  have "strlen [0x61, 0x62, 0] 0 = Some 2" using r(1)[of "[]" "[]"] by (simp add: numeral_2_eq_2)
  moreover have "strchr [0x61, 0x62, 0] 0 0x62 = Some (Some 1)" using r(2)[of "[]" "[]"] by simp
  moreover have "strncmp [0x61, 0x62, 0] 0 [0x61, 0xE9, 0] 0 5 = Some (- 1)"
    using r(3)[of "[]" "[]" "[]" "[]" 5] by simp
  moreover have "lexcmp [0, 0x62] [0, 0x61] = 1" by simp
  then have "memcmp [0, 0x62] 0 [0, 0x61] 0 2 = Some 1"
    using r(4)[of "[]" "[]" "[]" "[]"] by (simp add: numeral_2_eq_2 del: memcmp.simps lexcmp.simps)
  moreover have "strncpy [1, 1, 1, 1, 1] 0 [0x61, 0x62, 0] 0 4 = Some [0x61, 0x62, 0, 0, 1]"
    using r(5)[of "[]" "[]"] by (simp add: eval_nat_numeral)
  ultimately show ?thesis by blast
qed

end
