(* ===== verification/Utf.thy ===== *)
theory Utf
  imports Cstring
begin

text \<open>
  UTF-8 in the kernel C library: \<open>chartorune\<close>, \<open>runetochar\<close>, \<open>runelen\<close>, \<open>runenlen\<close> and
  \<open>fullrune\<close> of \<open>src/kernel/Libc/port/rune.c\<close>, \<open>utflen.c\<close>. A string is a byte buffer and an index
  into it. The theorems show that decoding inverts encoding on every code point, that decoding
  accepts canonical encodings only, and when a decoder stays inside its buffer.
\<close>

section \<open>Constants and macros\<close>

definition Runeerror :: u32 where "Runeerror = 0xFFFD"
definition Runemax :: u32 where "Runemax = 0x10FFFF"
definition Rune1 :: u32 where "Rune1 = 0x7F"
definition SurrogateMin :: u32 where "SurrogateMin = 0xD800"
definition SurrogateMax :: u32 where "SurrogateMax = 0xDFFF"

text \<open>The macros \<open>T(i)\<close> and \<open>RuneX(i)\<close>, with \<open>Bit(i) = 7 - i\<close> and \<open>Bitx = Bit(1)\<close>.\<close>

definition Tmask :: "nat \<Rightarrow> u32" where
  "Tmask i = (push_bit ((7 - i) + 1) 1 - 1) XOR 0xFF"

definition RuneX :: "nat \<Rightarrow> u32" where
  "RuneX i = push_bit ((7 - i) + (i - 1) * 6) 1 - 1"

definition surrogate :: "u32 \<Rightarrow> bool" where
  "surrogate c \<longleftrightarrow> SurrogateMin \<le> c \<and> c \<le> SurrogateMax"

section \<open>Decoding\<close>

function chartorune_loop :: "buf \<Rightarrow> nat \<Rightarrow> u32 \<Rightarrow> u32 \<Rightarrow> nat \<Rightarrow> (u32 \<times> nat) option" where
  "chartorune_loop s p c0 l i =
    (if i < 4 then
       do {
         b \<leftarrow> rd s (p + i);
         let c = ucast b XOR Tmask 1;
         if c AND 0xC0 \<noteq> 0 then Some (Runeerror, 1)
         else
           let l = push_bit 6 l OR c in
           if c0 < Tmask (i + 2) then
             let l = l AND RuneX (i + 1) in
             if (if i = 1 then c0 < Tmask 2 \<or> l \<le> Rune1 else l \<le> RuneX i \<or> l > Runemax)
             then Some (Runeerror, 1)
             else if i = 2 \<and> surrogate l then Some (Runeerror, 1)
             else Some (l, i + 1)
           else chartorune_loop s p c0 l (i + 1)
       }
     else Some (Runeerror, 1))"
  by pat_completeness auto
termination
  by (relation "measure (\<lambda>(s, p, c0, l, i). 4 - i)") auto

declare chartorune_loop.simps [simp del]

definition chartorune :: "buf \<Rightarrow> nat \<Rightarrow> (u32 \<times> nat) option" where
  "chartorune s p =
    do {
      b \<leftarrow> rd s p;
      let c0 = ucast b;
      if c0 < Tmask 1 then Some (c0, 1) else chartorune_loop s p c0 c0 1
    }"

section \<open>Encoding\<close>

text \<open>The bytes \<open>runetochar\<close> writes; its return value is their number.\<close>

definition rune_bytes :: "u32 \<Rightarrow> nat \<Rightarrow> u8 list" where
  "rune_bytes c i =
    ucast (Tmask i OR drop_bit ((i - 1) * 6) c) #
    map (\<lambda>j. ucast (Tmask 1 OR (drop_bit ((i - j - 1) * 6) c AND 0x3F))) [1..<i]"

function runetochar_loop :: "u32 \<Rightarrow> nat \<Rightarrow> u8 list option" where
  "runetochar_loop c i =
    (if i < 5 then
       let c = (if i = 3 then
                  let c = (if c > Runemax then Runeerror else c)
                  in if surrogate c then Runeerror else c
                else c)
       in if c \<le> RuneX i \<or> i = 4 then Some (rune_bytes c i)
          else runetochar_loop c (i + 1)
     else None)"
  by pat_completeness auto
termination
  by (relation "measure (\<lambda>(c, i). 5 - i)") auto

declare runetochar_loop.simps [simp del]

definition runetochar :: "u32 \<Rightarrow> u8 list" where
  "runetochar c = (if c \<le> Rune1 then [ucast c] else case runetochar_loop c 2 of Some bs \<Rightarrow> bs | None \<Rightarrow> [])"

definition runelen :: "u32 \<Rightarrow> nat" where
  "runelen c = length (runetochar c)"

fun runenlen_one :: "u32 \<Rightarrow> nat" where
  "runenlen_one c =
    (if c \<le> Rune1 then 1
     else if c \<le> RuneX 2 then 2
     else if c \<le> RuneX 3 then 3
     else 4)"

fun runenlen :: "u32 list \<Rightarrow> nat" where
  "runenlen [] = 0"
| "runenlen (c # r) = runenlen_one c + runenlen r"

definition fullrune :: "buf \<Rightarrow> int \<Rightarrow> bool option" where
  "fullrune s n =
    (if n \<le> 0 then Some False
     else do {
       b \<leftarrow> rd s 0;
       let c = (ucast b :: u32);
       if c < Tmask 1 then Some True
       else if c < Tmask 3 then Some (n \<ge> 2)
       else if c < Tmask 4 then Some (n \<ge> 3)
       else Some (n \<ge> 4)
     })"

section \<open>The reference decoder\<close>

lemma Tmask_vals: "Tmask 1 = 0x80" "Tmask (Suc 0) = 0x80" "Tmask 2 = 0xC0" "Tmask 3 = 0xE0" "Tmask 4 = 0xF0" "Tmask 5 = 0xF8"
  by (simp_all add: Tmask_def)

lemma RuneX_vals: "RuneX 2 = 0x7FF" "RuneX 3 = 0xFFFF" "RuneX 4 = 0x1FFFFF"
  by (simp_all add: RuneX_def)

lemmas utf_consts = Tmask_vals RuneX_vals Runeerror_def Runemax_def Rune1_def surrogate_def SurrogateMin_def SurrogateMax_def

abbreviation cont :: "u8 \<Rightarrow> bool" where
  "cont b \<equiv> 128 \<le> unat b \<and> unat b < 192"

lemma unat_word8: "n < 256 \<Longrightarrow> unat (word_of_nat n :: u8) = n"
  by (simp add: unat_of_nat)

lemma cont_test: "((ucast b XOR 0x80 :: u32) AND 0xC0 = 0) = cont b"
proof (rule byte_all[where P="\<lambda>b. ((ucast b XOR 0x80 :: u32) AND 0xC0 = 0) = cont b"])
  have "list_all (\<lambda>n. ((ucast (word_of_nat n :: u8) XOR 0x80 :: u32) AND 0xC0 = 0) = (128 \<le> n \<and> n < 192)) [0..<256]"
    by code_simp
  then show "list_all (\<lambda>n. ((ucast (word_of_nat n :: u8) XOR 0x80 :: u32) AND 0xC0 = 0) = cont (word_of_nat n)) [0..<256]"
    by (simp only: list_all_iff) (auto simp: unat_word8)
qed

lemma cont_value: "cont b \<Longrightarrow> unat (ucast b XOR 0x80 :: u32) = unat b - 128"
proof -
  have "list_all (\<lambda>n. (128 \<le> n \<and> n < 192) \<longrightarrow> unat (ucast (word_of_nat n :: u8) XOR 0x80 :: u32) = n - 128) [0..<256]"
    by code_simp
  then have "list_all (\<lambda>n. cont (word_of_nat n) \<longrightarrow> unat (ucast (word_of_nat n :: u8) XOR 0x80 :: u32) = unat (word_of_nat n :: u8) - 128) [0..<256]"
    by (simp only: list_all_iff) (auto simp: unat_word8)
  then show "cont b \<Longrightarrow> unat (ucast b XOR 0x80 :: u32) = unat b - 128"
    using byte_all[where P="\<lambda>b. cont b \<longrightarrow> unat (ucast b XOR 0x80 :: u32) = unat b - 128"] by blast
qed

lemma shift_cont:
  assumes "cont b" "unat l < 16777216"
  shows "unat (push_bit 6 (l::u32) OR (ucast b XOR 0x80)) = unat l * 64 + (unat b - 128)"
proof -
  let ?x = "ucast b XOR 0x80 :: u32"
  have x: "unat ?x = unat b - 128" "unat ?x < 64" using cont_value[OF assms(1)] assms(1) by linarith+
  have "unat (push_bit 6 l OR ?x) = unat l * 2 ^ 6 + unat ?x"
    by (rule unat_shift_or) (use x(2) assms(2) in auto)
  then show ?thesis using x(1) by simp
qed

lemma mask_RuneX: "unat (l AND RuneX 2) = unat l mod 2048" "unat (l AND RuneX 3) = unat l mod 65536"
  "unat (l AND RuneX 4) = unat l mod 2097152"
proof -
  have m: "w AND RuneX 2 = take_bit 11 w" "w AND RuneX 3 = take_bit 16 w" "w AND RuneX 4 = take_bit 21 w" for w
    by (simp_all add: take_bit_eq_mask RuneX_def mask_eq_decr_exp)
  show "unat (l AND RuneX 2) = unat l mod 2048" "unat (l AND RuneX 3) = unat l mod 65536"
    "unat (l AND RuneX 4) = unat l mod 2097152"
    unfolding m unat_take_bit32 by simp_all
qed

definition dec2 :: "nat \<Rightarrow> nat \<Rightarrow> nat" where
  "dec2 a b = (a - 192) * 64 + (b - 128)"
definition dec3 :: "nat \<Rightarrow> nat \<Rightarrow> nat \<Rightarrow> nat" where
  "dec3 a b c = (a - 224) * 4096 + (b - 128) * 64 + (c - 128)"
definition dec4 :: "nat \<Rightarrow> nat \<Rightarrow> nat \<Rightarrow> nat \<Rightarrow> nat" where
  "dec4 a b c d = (a - 240) * 262144 + (b - 128) * 4096 + (c - 128) * 64 + (d - 128)"

definition utf8_tail4 :: "buf \<Rightarrow> nat \<Rightarrow> nat \<Rightarrow> nat \<Rightarrow> nat \<Rightarrow> (nat \<times> nat) option" where
  "utf8_tail4 s p a b c =
    do {
      d \<leftarrow> rd s (p + 3);
      if \<not> cont d then Some (0xFFFD, 1)
      else (let v = dec4 a b c (unat d) in
            if 248 \<le> a \<or> v < 0x10000 \<or> 0x10FFFF < v then Some (0xFFFD, 1) else Some (v, 4))
    }"

definition utf8_tail3 :: "buf \<Rightarrow> nat \<Rightarrow> nat \<Rightarrow> nat \<Rightarrow> (nat \<times> nat) option" where
  "utf8_tail3 s p a b =
    do {
      c \<leftarrow> rd s (p + 2);
      if \<not> cont c then Some (0xFFFD, 1)
      else if a < 240
      then (let v = dec3 a b (unat c) in
            if v < 0x800 \<or> 0xD800 \<le> v \<and> v \<le> 0xDFFF then Some (0xFFFD, 1) else Some (v, 3))
      else utf8_tail4 s p a b (unat c)
    }"

definition utf8_decode :: "buf \<Rightarrow> nat \<Rightarrow> (nat \<times> nat) option" where
  "utf8_decode s p =
    do {
      a \<leftarrow> rd s p;
      if unat a < 128 then Some (unat a, 1)
      else do {
        b \<leftarrow> rd s (p + 1);
        if \<not> cont b then Some (0xFFFD, 1)
        else if unat a < 224
        then (let v = dec2 (unat a) (unat b) in
              if unat a < 192 \<or> v < 128 then Some (0xFFFD, 1) else Some (v, 2))
        else utf8_tail3 s p (unat a) (unat b)
      }
    }"

lemma loop_None: "i < 4 \<Longrightarrow> rd s (p + i) = None \<Longrightarrow> chartorune_loop s p c0 l i = None"
  by (simp add: chartorune_loop.simps)

lemma loop_bad: "i < 4 \<Longrightarrow> rd s (p + i) = Some b \<Longrightarrow> \<not> cont b \<Longrightarrow>
  chartorune_loop s p c0 l i = Some (Runeerror, 1)"
  using cont_test[of b] by (simp add: chartorune_loop.simps Tmask_vals Let_def)

lemma loop_cont: "i < 4 \<Longrightarrow> rd s (p + i) = Some b \<Longrightarrow> cont b \<Longrightarrow>
  push_bit 6 l OR (ucast b XOR 0x80) = l' \<Longrightarrow>
  chartorune_loop s p c0 l i =
          (if c0 < Tmask (i + 2) then
             let l = l' AND RuneX (i + 1) in
             if (if i = 1 then c0 < Tmask 2 \<or> l \<le> Rune1 else l \<le> RuneX i \<or> l > Runemax)
             then Some (Runeerror, 1)
             else if i = 2 \<and> surrogate l then Some (Runeerror, 1)
             else Some (l, i + 1)
           else chartorune_loop s p c0 l' (i + 1))"
  using cont_test[of b] by (subst chartorune_loop.simps) (simp add: Tmask_vals Let_def)

lemma mod_split: "x = M * q + r \<Longrightarrow> r < M \<Longrightarrow> x mod M = (r::nat)"
  by simp

lemma dec2_mod:
  "192 \<le> a \<Longrightarrow> a < 224 \<Longrightarrow> 128 \<le> b \<Longrightarrow> b < 192 \<Longrightarrow> (a * 64 + (b - 128)) mod 2048 = dec2 a b"
  unfolding dec2_def by (rule mod_split[where q=6]) linarith+

lemma dec3_mod:
  "224 \<le> a \<Longrightarrow> a < 240 \<Longrightarrow> 128 \<le> b \<Longrightarrow> b < 192 \<Longrightarrow> 128 \<le> c \<Longrightarrow> c < 192 \<Longrightarrow>
   ((a * 64 + (b - 128)) * 64 + (c - 128)) mod 65536 = dec3 a b c"
  unfolding dec3_def by (rule mod_split[where q=14]) (auto simp: le_iff_add algebra_simps)

lemma dec4_mod:
  "240 \<le> a \<Longrightarrow> a < 248 \<Longrightarrow> 128 \<le> b \<Longrightarrow> b < 192 \<Longrightarrow> 128 \<le> c \<Longrightarrow> c < 192 \<Longrightarrow> 128 \<le> d \<Longrightarrow> d < 192 \<Longrightarrow>
   (((a * 64 + (b - 128)) * 64 + (c - 128)) * 64 + (d - 128)) mod 2097152 = dec4 a b c d"
  unfolding dec4_def by (rule mod_split[where q=30]) (auto simp: le_iff_add algebra_simps)

definition rmap :: "(u32 \<times> nat) option \<Rightarrow> (nat \<times> nat) option" where
  "rmap = map_option (map_prod unat id)"

lemma rmap_simps [simp]: "rmap None = None" "rmap (Some (r, n)) = Some (unat r, n)"
  by (simp_all add: rmap_def)

lemma unat_cmp32:
  "(l::u32) \<le> numeral k \<longleftrightarrow> unat l \<le> unat (numeral k :: u32)"
  "(l::u32) < numeral k \<longleftrightarrow> unat l < unat (numeral k :: u32)"
  "numeral k \<le> (l::u32) \<longleftrightarrow> unat (numeral k :: u32) \<le> unat l"
  "numeral k < (l::u32) \<longleftrightarrow> unat (numeral k :: u32) < unat l"
  by (simp_all add: word_le_nat_alt word_less_nat_alt)

lemma unat_Runeerror: "unat Runeerror = 0xFFFD"
  by (simp add: Runeerror_def)

lemma unat8_256: "unat (b::u8) < 256"
  using unat8_less[of b] by simp

lemma loop_stage3:
  assumes "cont b2" "cont b1" "240 \<le> unat (b0::u8)" "unat c0 = unat b0"
    "unat l = (unat b0 * 64 + (unat b1 - 128)) * 64 + (unat b2 - 128)"
  shows "rmap (chartorune_loop s p c0 l 3) = utf8_tail4 s p (unat b0) (unat b1) (unat b2)"
proof (cases "rd s (p + 3)")
  case None
  then show ?thesis using loop_None[of 3 s p] by (simp add: utf8_tail4_def)
next
  case (Some b3)
  show ?thesis
  proof (cases "cont b3")
    case False
    then show ?thesis using Some loop_bad[of 3 s p b3] by (auto simp: utf8_tail4_def unat_Runeerror)
  next
    case True
    define l' where "l' = push_bit 6 l OR (ucast b3 XOR 0x80)"
    have "unat b1 - 128 < 64" "unat b2 - 128 < 64" using assms(1,2) by linarith+
    then have "unat l < 16777216" using unat8_256[of b0] unfolding assms(5) distrib_right by linarith
    then have l: "unat l' = ((unat b0 * 64 + (unat b1 - 128)) * 64 + (unat b2 - 128)) * 64 + (unat b3 - 128)"
      unfolding l'_def assms(5)[symmetric] by (rule shift_cont[OF True])
    have m: "unat b0 < 248 \<Longrightarrow> unat (l' AND RuneX 4) = dec4 (unat b0) (unat b1) (unat b2) (unat b3)"
      unfolding mask_RuneX l using dec4_mod assms(1-3) True by blast
    have e: "chartorune_loop s p c l 4 = Some (Runeerror, 1)" for c l
      by (simp add: chartorune_loop.simps)
    show ?thesis
      using loop_cont[of 3 s p b3 l l' c0, OF _ Some True l'_def[symmetric]] m assms(3,4) True Some
      by (auto simp: Let_def unat_cmp32 utf_consts less_Suc_eq_le e utf8_tail4_def)
  qed
qed

lemma loop_stage2:
  assumes "cont b1" "224 \<le> unat (b0::u8)" "unat c0 = unat b0" "unat l = unat b0 * 64 + (unat b1 - 128)"
  shows "rmap (chartorune_loop s p c0 l 2) = utf8_tail3 s p (unat b0) (unat b1)"
proof (cases "rd s (p + 2)")
  case None
  then show ?thesis using loop_None[of 2 s p] by (simp add: utf8_tail3_def)
next
  case (Some b2)
  show ?thesis
  proof (cases "cont b2")
    case False
    then show ?thesis using Some loop_bad[of 2 s p b2] by (auto simp: utf8_tail3_def unat_Runeerror)
  next
    case True
    define l' where "l' = push_bit 6 l OR (ucast b2 XOR 0x80)"
    have "unat l < 16777216" using unat8_256[of b0] assms(1,4) by linarith
    then have l: "unat l' = (unat b0 * 64 + (unat b1 - 128)) * 64 + (unat b2 - 128)"
      unfolding l'_def assms(4)[symmetric] by (rule shift_cont[OF True])
    have m: "unat b0 < 240 \<Longrightarrow> unat (l' AND RuneX 3) = dec3 (unat b0) (unat b1) (unat b2)"
      unfolding mask_RuneX l using dec3_mod assms(1,2) True by blast
    have lt: "unat b0 < 240 \<Longrightarrow> dec3 (unat b0) (unat b1) (unat b2) < 65536"
      using m mask_RuneX(2)[of l'] by simp
    have "240 \<le> unat b0 \<Longrightarrow>
        rmap (chartorune_loop s p c0 l' 3) = utf8_tail4 s p (unat b0) (unat b1) (unat b2)"
      by (rule loop_stage3[OF True assms(1) _ assms(3) l])
    then show ?thesis
      using loop_cont[of 2 s p b2 l l' c0, OF _ Some True l'_def[symmetric]] m lt assms(2,3) True Some
      by (auto simp: Let_def unat_cmp32 utf_consts less_Suc_eq_le utf8_tail3_def)
  qed
qed

lemma loop_stage1:
  assumes "128 \<le> unat (b0::u8)" "unat c0 = unat b0"  "rd s (p + 1) = Some b1" "cont b1"
  shows "rmap (chartorune_loop s p c0 c0 1) =
    (if unat b0 < 224
     then (let v = dec2 (unat b0) (unat b1) in
           if unat b0 < 192 \<or> v < 128 then Some (0xFFFD, 1) else Some (v, 2))
     else utf8_tail3 s p (unat b0) (unat b1))"
proof -
  define l' where "l' = push_bit 6 c0 OR (ucast b1 XOR 0x80)"
  have l: "unat l' = unat b0 * 64 + (unat b1 - 128)"
    unfolding l'_def assms(2)[symmetric]
    by (rule shift_cont[OF assms(4)]) (use unat8_256[of b0] assms(2) in simp)
  have m: "192 \<le> unat b0 \<Longrightarrow> unat b0 < 224 \<Longrightarrow> unat (l' AND RuneX 2) = dec2 (unat b0) (unat b1)"
    unfolding mask_RuneX l using dec2_mod assms(4) by blast
  have "224 \<le> unat b0 \<Longrightarrow> rmap (chartorune_loop s p c0 l' 2) = utf8_tail3 s p (unat b0) (unat b1)"
    by (rule loop_stage2[OF assms(4) _ assms(2) l])
  then show ?thesis
    using loop_cont[of 1 s p b1 c0 l' c0, OF _ assms(3,4) l'_def[symmetric]] m assms(1,2)
    by (auto simp: Let_def unat_cmp32 Tmask_vals Rune1_def Runeerror_def numeral_2_eq_2[symmetric]
       numeral_3_eq_3[symmetric] less_Suc_eq_le)
qed

lemma chartorune_decode: "rmap (chartorune s p) = utf8_decode s p"
proof (cases "rd s p")
  case None
  then show ?thesis by (simp add: chartorune_def utf8_decode_def)
next
  case b0: (Some b0)
  let ?c0 = "ucast b0 :: u32"
  have c0: "unat ?c0 = unat b0" by (rule unat_ucast8)
  show ?thesis
  proof (cases "unat b0 < 128")
    case True
    then show ?thesis
      using b0 c0 by (simp add: chartorune_def utf8_decode_def Tmask_vals unat_cmp32 Let_def)
  next
    case False
    then have 0: "chartorune s p = chartorune_loop s p ?c0 ?c0 1"
      using b0 c0 by (simp add: chartorune_def Tmask_vals unat_cmp32 Let_def)
    have ge: "128 \<le> unat b0" using False by simp
    consider "rd s (p + 1) = None" | b1 where "rd s (p + 1) = Some b1" "\<not> cont b1"
      | b1 where "rd s (p + 1) = Some b1" "cont b1" by (cases "rd s (p + 1)") auto
    then show ?thesis
    proof cases
      case 1
      then show ?thesis using 0 b0 ge loop_None[of 1 s p] by (simp add: utf8_decode_def)
    next
      case (2 b1)
      then show ?thesis using 0 b0 ge loop_bad[of 1 s p b1] by (auto simp: utf8_decode_def unat_Runeerror)
    next
      case (3 b1)
      then show ?thesis using 0 b0 ge loop_stage1[OF ge c0 3] by (auto simp: utf8_decode_def)
    qed
  qed
qed


definition rune_enc :: "nat \<Rightarrow> nat list" where
  "rune_enc c =
    (if c < 0x80 then [c]
     else if c < 0x800 then [192 + c div 64, 128 + c mod 64]
     else if c < 0x10000 then [224 + c div 4096, 128 + c div 64 mod 64, 128 + c mod 64]
     else [240 + c div 262144, 128 + c div 4096 mod 64, 128 + c div 64 mod 64, 128 + c mod 64])"

lemma unat_ucast_byte: "unat (w::u32) < 256 \<Longrightarrow> unat (ucast w :: u8) = unat w"
  by (simp add: unsigned_ucast_eq take_bit_nat_eq_self)

lemma byte_cont: "unat (ucast (Tmask 1 OR (w AND 0x3F)) :: u8) = 128 + unat w mod 64"
proof -
  have w: "w AND 0x3F = take_bit 6 w" by (simp add: take_bit_eq_mask mask_eq_decr_exp)
  have "unat (push_bit 7 (1::u32) OR take_bit 6 w) = unat (1::u32) * 2 ^ 7 + unat (take_bit 6 w)"
    by (rule unat_shift_or) (simp_all add: unat_take_bit32 less_le_trans[OF mod_less_divisor])
  moreover have "Tmask 1 = push_bit 7 1" by (simp add: Tmask_vals)
  ultimately have "unat (Tmask 1 OR (w AND 0x3F)) = 128 + unat w mod 64" unfolding w by (simp add: unat_take_bit32)
  moreover have "128 + unat w mod 64 < 256" by (simp add: less_le_trans[OF mod_less_divisor])
  ultimately show ?thesis by (subst unat_ucast_byte) simp_all
qed

lemma byte_lead:
  "unat w < 32 \<Longrightarrow> unat (ucast (Tmask 2 OR w) :: u8) = 192 + unat w"
  "unat w < 16 \<Longrightarrow> unat (ucast (Tmask 3 OR w) :: u8) = 224 + unat w"
  "unat w < 8 \<Longrightarrow> unat (ucast (Tmask 4 OR w) :: u8) = 240 + unat w"
proof -
  have t: "Tmask 2 = push_bit 6 3" "Tmask 3 = push_bit 5 7" "Tmask 4 = push_bit 4 15" by (simp_all add: Tmask_vals)
  show "unat w < 32 \<Longrightarrow> unat (ucast (Tmask 2 OR w) :: u8) = 192 + unat w"
    using unat_shift_or[of "3::u32" 6 w] unfolding t by (subst unat_ucast_byte) simp_all
  show "unat w < 16 \<Longrightarrow> unat (ucast (Tmask 3 OR w) :: u8) = 224 + unat w"
    using unat_shift_or[of "7::u32" 5 w] unfolding t by (subst unat_ucast_byte) simp_all
  show "unat w < 8 \<Longrightarrow> unat (ucast (Tmask 4 OR w) :: u8) = 240 + unat w"
    using unat_shift_or[of "15::u32" 4 w] unfolding t by (subst unat_ucast_byte) simp_all
qed

lemma rune_bytes_enc:
  "128 \<le> unat c \<Longrightarrow> unat c < 0x800 \<Longrightarrow> map unat (rune_bytes c 2) = rune_enc (unat c)"
  "0x800 \<le> unat c \<Longrightarrow> unat c < 0x10000 \<Longrightarrow> map unat (rune_bytes c 3) = rune_enc (unat c)"
  "0x10000 \<le> unat c \<Longrightarrow> unat c < 0x200000 \<Longrightarrow> map unat (rune_bytes c 4) = rune_enc (unat c)"
proof -
  have u: "[1..<2] = [1]" "[1..<3] = [1, 2]" "[1..<4] = [1, 2, 3::nat]" by (simp_all add: upt_rec)
  have d: "unat (drop_bit 6 c) = unat c div 64" "unat (drop_bit 12 c) = unat c div 4096"
     "unat (drop_bit 18 c) = unat c div 262144"
    by (simp_all add: unat_drop_bit32)
  show "128 \<le> unat c \<Longrightarrow> unat c < 0x800 \<Longrightarrow> map unat (rune_bytes c 2) = rune_enc (unat c)"
    by (simp add: rune_bytes_def u byte_lead byte_cont d rune_enc_def del: One_nat_def)
  show "0x800 \<le> unat c \<Longrightarrow> unat c < 0x10000 \<Longrightarrow> map unat (rune_bytes c 3) = rune_enc (unat c)"
    by (simp add: rune_bytes_def u byte_lead byte_cont d rune_enc_def del: One_nat_def)
  show "0x10000 \<le> unat c \<Longrightarrow> unat c < 0x200000 \<Longrightarrow> map unat (rune_bytes c 4) = rune_enc (unat c)"
    by (simp add: rune_bytes_def u byte_lead byte_cont d rune_enc_def del: One_nat_def)
qed

definition valid_rune :: "u32 \<Rightarrow> bool" where
  "valid_rune c \<longleftrightarrow> c \<le> Runemax \<and> \<not> surrogate c"

lemma rtc_loop4: "runetochar_loop c 4 = Some (rune_bytes c 4)"
  by (simp add: runetochar_loop.simps)

lemma rtc_loop3: "runetochar_loop c 3 =
  (let c = (if valid_rune c then c else Runeerror) in Some (rune_bytes c (if c \<le> RuneX 3 then 3 else 4)))"
  by (auto simp: runetochar_loop.simps[of _ 3] rtc_loop4 valid_rune_def Let_def not_le utf_consts)

lemma runetochar_enc: "map unat (runetochar c) = rune_enc (if valid_rune c then unat c else 0xFFFD)"
proof -
  consider "unat c < 128" | "128 \<le> unat c" "unat c < 0x800" | "0x800 \<le> unat c" by linarith
  then show ?thesis
  proof cases
    case 1
    then show ?thesis
      by (auto simp: runetochar_def rune_enc_def unat_ucast_byte unat_cmp32 valid_rune_def utf_consts)
  next
    case 2
    then show ?thesis
      using rune_bytes_enc(1)[of c]
      by (auto simp: runetochar_def runetochar_loop.simps[of _ 2] unat_cmp32 valid_rune_def utf_consts)
  next
    case 3
    then have "runetochar_loop c 2 = runetochar_loop c 3"
      by (subst runetochar_loop.simps) (simp add: unat_cmp32 utf_consts)
    then show ?thesis
      using 3 rune_bytes_enc(2)[of c] rune_bytes_enc(2)[of Runeerror] rune_bytes_enc(3)[of c]
      by (auto simp: runetochar_def rtc_loop3 Let_def unat_Runeerror unat_cmp32 utf_consts valid_rune_def)
  qed
qed

section \<open>Decoding inverts encoding\<close>

lemma rd_append: "i < length bs \<Longrightarrow> rd (pre @ bs @ post) (length pre + i) = Some (bs ! i)"
  by (simp add: rd_def nth_append)

lemma div64_split: "(c::nat) div 4096 * 4096 + c div 64 mod 64 * 64 + c mod 64 = c"
proof -
  define q where "q = c div 64"
  have "c div 4096 = q div 64" by (simp add: q_def div_mult2_eq[symmetric])
  moreover have "q div 64 * 64 + q mod 64 = q" "q * 64 + c mod 64 = c" by (simp_all add: q_def)
  ultimately show ?thesis unfolding q_def[symmetric] by linarith
qed

lemma rune_enc_decode:
  assumes "map unat bs = rune_enc c" "c \<le> 0x10FFFF" "\<not> (0xD800 \<le> c \<and> c \<le> 0xDFFF)"
  shows "utf8_decode (pre @ bs @ post) (length pre) = Some (c, length bs)"
proof -
  have len: "length bs = length (rune_enc c)" using assms(1) by (metis length_map)
  have nth: "i < length bs \<Longrightarrow> \<exists>b. rd (pre @ bs @ post) (length pre + i) = Some b \<and> unat b = rune_enc c ! i" for i
    using rd_append[of i bs pre post] assms(1) by (metis nth_map)
  consider "c < 0x80" | "0x80 \<le> c" "c < 0x800" | "0x800 \<le> c" "c < 0x10000" | "0x10000 \<le> c" by linarith
  then show ?thesis
  proof cases
    case 1
    then show ?thesis using nth[of 0] len by (auto simp: rune_enc_def utf8_decode_def)
  next
    case 2
    then show ?thesis using nth[of 0] nth[of 1] len
      by (auto simp: rune_enc_def utf8_decode_def dec2_def Let_def)
  next
    case 3
    have "c div 4096 < 16" using 3 by simp
    then show ?thesis using 3 nth[of 0] nth[of 1] nth[of 2] len assms(3) div64_split[of c]
      by (auto simp: rune_enc_def utf8_decode_def utf8_tail3_def dec3_def Let_def)
  next
    case 4
    have "c div 262144 < 8" using assms(2) by simp
    moreover have "c div 262144 * 262144 + c div 4096 mod 64 * 4096 = c div 4096 * 4096"
      using div_mult_mod_eq[of "c div 4096" 64] by (simp add: div_mult2_eq[symmetric])
    ultimately show ?thesis using 4 nth[of 0] nth[of 1] nth[of 2] nth[of 3] len assms(2) div64_split[of c]
      by (auto simp: rune_enc_def utf8_decode_def utf8_tail3_def utf8_tail4_def dec4_def Let_def)
  qed
qed


lemma take_drop_bytes:
  "rd s p = Some a \<Longrightarrow> rd s (p + 1) = Some b \<Longrightarrow> take 2 (drop p s) = [a, b]"
  "rd s p = Some a \<Longrightarrow> rd s (p + 1) = Some b \<Longrightarrow> rd s (p + 2) = Some c \<Longrightarrow>
    take 3 (drop p s) = [a, b, c]"
  "rd s p = Some a \<Longrightarrow> rd s (p + 1) = Some b \<Longrightarrow> rd s (p + 2) = Some c \<Longrightarrow> rd s (p + 3) = Some d \<Longrightarrow>
    take 4 (drop p s) = [a, b, c, d]"
  by (auto simp: rd_Some_iff list_eq_iff_nth_eq less_Suc_eq numeral_eq_Suc)

lemma divmod64: "r < 64 \<Longrightarrow> (q * 64 + r) div 64 = q" "r < 64 \<Longrightarrow> (q * 64 + r) mod 64 = (r::nat)"
  by simp_all

lemma enc_dec2:
  assumes "192 \<le> a" "a < 224" "128 \<le> b" "b < 192" "128 \<le> dec2 a b"
  shows "rune_enc (dec2 a b) = [a, b]"
proof -
  have "b - 128 < 64" "dec2 a b = (a - 192) * 64 + (b - 128)" using assms(4) by (auto simp: dec2_def)
  then have "dec2 a b div 64 = a - 192" "dec2 a b mod 64 = b - 128" by (simp_all add: divmod64)
  moreover have "dec2 a b < 0x800" using assms by (auto simp: dec2_def)
  ultimately show ?thesis using assms by (simp add: rune_enc_def)
qed

lemma enc_dec3:
  assumes "224 \<le> a" "a < 240" "128 \<le> b" "b < 192" "128 \<le> c" "c < 192" "0x800 \<le> dec3 a b c"
  shows "rune_enc (dec3 a b c) = [a, b, c]"
proof -
  define x y z where "x = a - 224" "y = b - 128" "z = c - 128"
  have e: "a = 224 + x" "b = 128 + y" "c = 128 + z" "x < 16" "y < 64" "z < 64"
    using assms by (auto simp: x_y_z_def)
  have v: "dec3 a b c = (x * 64 + y) * 64 + z" by (simp add: dec3_def e)
  have 1: "dec3 a b c div 64 = x * 64 + y" unfolding v by (rule divmod64) (rule e)
  have "dec3 a b c div 4096 = x"
    using div_mult2_eq[of "dec3 a b c" 64 64] divmod64(1)[OF e(5), of x] unfolding 1 by simp
  moreover have "dec3 a b c mod 64 = z" unfolding v by (rule divmod64) (rule e)
  moreover have "dec3 a b c div 64 mod 64 = y" unfolding 1 by (rule divmod64) (rule e)
  moreover have "dec3 a b c < 0x10000" unfolding v using e by simp
  ultimately show ?thesis using assms(7) e(1-3) by (simp add: rune_enc_def)
qed

lemma enc_dec4:
  assumes "240 \<le> a" "a < 248" "128 \<le> b" "b < 192" "128 \<le> c" "c < 192" "128 \<le> d" "d < 192"
    "0x10000 \<le> dec4 a b c d"
  shows "rune_enc (dec4 a b c d) = [a, b, c, d]"
proof -
  define x y z w where "x = a - 240" "y = b - 128" "z = c - 128" "w = d - 128"
  have e: "a = 240 + x" "b = 128 + y" "c = 128 + z" "d = 128 + w" "y < 64" "z < 64" "w < 64"
    using assms by (auto simp: x_y_z_w_def)
  have v: "dec4 a b c d = ((x * 64 + y) * 64 + z) * 64 + w" by (simp add: dec4_def e)
  have 1: "dec4 a b c d div 64 = (x * 64 + y) * 64 + z" unfolding v by (rule divmod64) (rule e)
  have 2: "dec4 a b c d div 4096 = x * 64 + y"
    using div_mult2_eq[of "dec4 a b c d" 64 64] divmod64(1)[OF e(6), of "x * 64 + y"] unfolding 1 by simp
  have "dec4 a b c d div 262144 = x"
    using div_mult2_eq[of "dec4 a b c d" 4096 64] divmod64(1)[OF e(5), of x] unfolding 2 by simp
  moreover have "dec4 a b c d mod 64 = w" unfolding v by (rule divmod64) (rule e)
  moreover have "dec4 a b c d div 64 mod 64 = z" unfolding 1 by (rule divmod64) (rule e)
  moreover have "dec4 a b c d div 4096 mod 64 = y" unfolding 2 by (rule divmod64) (rule e)
  ultimately show ?thesis using assms(9) e(1-4) by (simp add: rune_enc_def)
qed

lemma dec_less: "a < 224 \<Longrightarrow> b < 192 \<Longrightarrow> dec2 a b < 0x800" 
  by (auto simp: dec2_def)

definition rune_ok :: "nat \<Rightarrow> bool" where
  "rune_ok v \<longleftrightarrow> v \<le> 0x10FFFF \<and> \<not> (0xD800 \<le> v \<and> v \<le> 0xDFFF)"

lemma tail4_canonical:
  assumes "utf8_tail4 s p (unat a) (unat b) (unat c) = Some (v, n)" "\<not> (v = 0xFFFD \<and> n = 1)"
    "rd s p = Some a" "rd s (p + 1) = Some b" "rd s (p + 2) = Some c" "cont b" "cont c" "240 \<le> unat a"
  shows "map unat (take n (drop p s)) = rune_enc v \<and> rune_ok v"
proof -
  obtain d where d: "rd s (p + 3) = Some d" using assms(1) by (auto simp: utf8_tail4_def bind_eq_Some_conv)
  then have "cont d" "v = dec4 (unat a) (unat b) (unat c) (unat d)" "n = 4" "unat a < 248" "0x10000 \<le> v" "v \<le> 0x10FFFF"
    using assms(1,2) by (auto simp: utf8_tail4_def Let_def split: if_splits)
  then show ?thesis
    using enc_dec4[of "unat a" "unat b" "unat c" "unat d"] assms(6-8) take_drop_bytes(3)[OF assms(3-5) d]
    by (simp add: rune_ok_def)
qed

lemma tail3_canonical:
  assumes "utf8_tail3 s p (unat a) (unat b) = Some (v, n)" "\<not> (v = 0xFFFD \<and> n = 1)"
    "rd s p = Some a" "rd s (p + 1) = Some b" "cont b" "224 \<le> unat a"
  shows "map unat (take n (drop p s)) = rune_enc v \<and> rune_ok v"
proof -
  obtain c where c: "rd s (p + 2) = Some c" using assms(1) by (auto simp: utf8_tail3_def bind_eq_Some_conv)
  then have cc: "cont c" using assms(1,2) by (auto simp: utf8_tail3_def split: if_splits)
  show ?thesis
  proof (cases "unat a < 240")
    case True
    then have "v = dec3 (unat a) (unat b) (unat c)" "n = 3" "0x800 \<le> v" "\<not> (0xD800 \<le> v \<and> v \<le> 0xDFFF)"
      using assms(1,2) c cc by (auto simp: utf8_tail3_def Let_def split: if_splits)
    moreover have "dec3 (unat a) (unat b) (unat c) \<le> 0x10FFFF"
      using True assms(5) cc unfolding dec3_def by linarith
    ultimately show ?thesis
      using enc_dec3[of "unat a" "unat b" "unat c"] True cc assms(5,6) take_drop_bytes(2)[OF assms(3,4) c]
      by (simp add: rune_ok_def)
  next
    case False
    then have "utf8_tail4 s p (unat a) (unat b) (unat c) = Some (v, n)"
      using assms(1) c cc by (auto simp: utf8_tail3_def)
    then show ?thesis
      by (rule tail4_canonical[OF _ assms(2-4) c assms(5) cc]) (use False in simp)
  qed
qed

lemma decode_canonical:
  assumes "utf8_decode s p = Some (v, n)" "\<not> (v = 0xFFFD \<and> n = 1)"
  shows "map unat (take n (drop p s)) = rune_enc v \<and> rune_ok v"
proof -
  obtain a where a: "rd s p = Some a" using assms(1) by (auto simp: utf8_decode_def bind_eq_Some_conv)
  show ?thesis
  proof (cases "unat a < 128")
    case True
    then have "v = unat a" "n = 1" using assms(1) a by (auto simp: utf8_decode_def)
    with True a show ?thesis
      by (auto simp: rune_enc_def rune_ok_def rd_Some_iff take_Suc_conv_app_nth hd_drop_conv_nth)
  next
    case False
    then obtain b where b: "rd s (p + 1) = Some b" "cont b"
      using assms a by (auto simp: utf8_decode_def bind_eq_Some_conv split: if_splits)
    show ?thesis
    proof (cases "unat a < 224")
      case True
      then have "v = dec2 (unat a) (unat b)" "n = 2" "128 \<le> v" "192 \<le> unat a"
        using assms a b False by (auto simp: utf8_decode_def Let_def split: if_splits)
      then show ?thesis
        using enc_dec2[of "unat a" "unat b"] True b(2) take_drop_bytes(1)[OF a b(1)]
          dec_less[OF True, of "unat b"] by (simp add: rune_ok_def)
    next
      case ge: False
      then have "utf8_tail3 s p (unat a) (unat b) = Some (v, n)"
        using assms(1) a b False by (auto simp: utf8_decode_def)
      then show ?thesis
        by (rule tail3_canonical[OF _ assms(2) a b]) (use ge in simp)
    qed
  qed
qed


lemma tail4_width:
  "utf8_tail4 s p a b c = Some (v, n) \<Longrightarrow> n = 1 \<or> n = 4 \<and> p + 3 < length s \<and> cont (s ! (p + 3))"
  by (auto simp: utf8_tail4_def bind_eq_Some_conv rd_Some_iff Let_def split: if_splits)

lemma tail3_width:
  "utf8_tail3 s p a b = Some (v, n) \<Longrightarrow> n = 1 \<or> cont (s ! (p + 2)) \<and>
    (n = 3 \<and> p + 2 < length s \<or> n = 4 \<and> p + 3 < length s \<and> cont (s ! (p + 3)))"
  using tail4_width[of s p a b _ v n]
  by (auto simp: utf8_tail3_def bind_eq_Some_conv rd_Some_iff Let_def split: if_splits)

lemma decode_width:
  "utf8_decode s p = Some (v, n) \<Longrightarrow> p < length s \<and> (n = 1 \<or> cont (s ! (p + 1)) \<and>
    (n = 2 \<and> p + 1 < length s \<or> cont (s ! (p + 2)) \<and>
    (n = 3 \<and> p + 2 < length s \<or> n = 4 \<and> p + 3 < length s \<and> cont (s ! (p + 3)))))"
  using tail3_width[of s p _ _ v n]
  by (fastforce simp: utf8_decode_def bind_eq_Some_conv rd_Some_iff Let_def split: if_splits)

lemma chartorune_decode_Some: "chartorune s p = Some (r, n) \<Longrightarrow> utf8_decode s p = Some (unat r, n)"
  using chartorune_decode[of s p] by simp

lemma chartorune_width:
  assumes "chartorune s p = Some (r, n)"
  shows "1 \<le> n" "n \<le> 4" "p + n \<le> length s"
  using decode_width[OF chartorune_decode_Some[OF assms]] by auto

lemma chartorune_inner:
  assumes "chartorune s p = Some (r, n)" "0 < i" "i < n"
  shows "cont (s ! (p + i))"
proof -
  note w = decode_width[OF chartorune_decode_Some[OF assms(1)]]
  have "i = 1 \<or> i = 2 \<or> i = 3" using assms(2,3) chartorune_width(2)[OF assms(1)] by linarith
  then show ?thesis using w assms(3) by (elim disjE) auto
qed

lemma chartorune_Some_iff: "(\<exists>r n. chartorune s p = Some (r, n)) \<longleftrightarrow> utf8_decode s p \<noteq> None"
  using chartorune_decode[of s p] by (cases "chartorune s p") (auto dest: sym)

definition norm_rune :: "u32 \<Rightarrow> u32" where
  "norm_rune c = (if valid_rune c then c else Runeerror)"

definition utf_enc :: "u32 list \<Rightarrow> buf" where
  "utf_enc rs = concat (map runetochar rs)"

lemma utf_enc_simps [simp]: "utf_enc [] = []" "utf_enc (r # rs) = runetochar r @ utf_enc rs"
  by (simp_all add: utf_enc_def)

lemma valid_rune_ok: "valid_rune c \<longleftrightarrow> rune_ok (unat c)"
  by (auto simp: valid_rune_def rune_ok_def utf_consts unat_cmp32)

lemma norm_rune_ok: "rune_ok (unat (norm_rune c))"
  by (simp add: norm_rune_def valid_rune_ok) (simp add: rune_ok_def Runeerror_def)

lemma norm_rune_eq_0 [simp]: "norm_rune c = 0 \<longleftrightarrow> c = 0"
  by (auto simp: norm_rune_def utf_consts valid_rune_def)

lemma runetochar_norm: "map unat (runetochar c) = rune_enc (unat (norm_rune c))"
  by (simp add: runetochar_enc norm_rune_def unat_Runeerror)

lemma chartorune_runetochar:
  "chartorune (pre @ runetochar c @ post) (length pre) = Some (norm_rune c, length (runetochar c))"
proof -
  have "utf8_decode (pre @ runetochar c @ post) (length pre) = Some (unat (norm_rune c), length (runetochar c))"
    by (rule rune_enc_decode[OF runetochar_norm]) (use norm_rune_ok[of c] in \<open>simp_all add: rune_ok_def\<close>)
  then show ?thesis
    using chartorune_decode[of "pre @ runetochar c @ post" "length pre"]
    by (cases "chartorune (pre @ runetochar c @ post) (length pre)") (auto simp: word_unat_eq_iff)
qed

lemma rune_enc_ascii: "b \<in> set (rune_enc c) \<Longrightarrow> b < 128 \<Longrightarrow> rune_enc c = [c]"
  by (auto simp: rune_enc_def split: if_splits)

lemma runetochar_ascii_byte:
  assumes "b \<in> set (runetochar c)" "unat b < 128"
  shows "runetochar c = [b] \<and> unat c = unat b"
proof -
  have "unat b \<in> set (rune_enc (unat (norm_rune c)))"
    using assms(1) runetochar_norm[of c] by (metis image_eqI list.set_map)
  then have e: "map unat (runetochar c) = [unat (norm_rune c)]"
    using rune_enc_ascii assms(2) runetochar_norm[of c] by metis
  then have "runetochar c = [b]" using assms(1) by (cases "runetochar c") auto
  moreover from this e assms(2) have "unat (norm_rune c) = unat b" "unat b < 128" by auto
  ultimately show ?thesis by (auto simp: norm_rune_def Runeerror_def split: if_splits)
qed

lemma runetochar_head:
  "\<exists>b bs. runetochar c = b # bs \<and> (unat b < 128 \<longrightarrow> bs = [] \<and> unat c = unat b)"
proof -
  obtain b bs where b: "runetochar c = b # bs"
    using runetochar_norm[of c] by (cases "runetochar c") (auto simp: rune_enc_def split: if_splits)
  then show ?thesis using runetochar_ascii_byte[of b c] by auto
qed

lemma rd_take: "i < n \<Longrightarrow> rd (take n s) i = rd s i"
  by (auto simp: rd_def)

lemma fullrune_take:
  assumes "fullrune s n = Some True" "nat n \<le> length s"
  shows "utf8_decode (take (nat n) s) 0 = utf8_decode s 0" "utf8_decode s 0 \<noteq> None"
proof -
  have n: "0 < n" using assms(1) by (simp add: fullrune_def split: if_splits)
  obtain b where b: "rd s 0 = Some b" "unat b < 128 \<or> unat b < 224 \<and> 2 \<le> n \<or> unat b < 240 \<and> 3 \<le> n \<or> 4 \<le> n"
    using assms(1) by (auto simp: fullrune_def bind_eq_Some_conv Let_def Tmask_vals unat_cmp32 unat_ucast8 split: if_splits)
  have r: "int i < n \<Longrightarrow> \<exists>b. rd s i = Some b \<and> rd (take (nat n) s) i = Some b" for i
    using assms(2) by (auto simp: rd_def)
  let ?ok = "utf8_decode (take (nat n) s) 0 = utf8_decode s 0 \<and> utf8_decode s 0 \<noteq> None"
  consider "unat b < 128" | "128 \<le> unat b" "unat b < 224" "2 \<le> n"
    | "224 \<le> unat b" "unat b < 240" "3 \<le> n" | "240 \<le> unat b" "4 \<le> n" using b(2) by linarith
  then have ?ok
  proof cases
    case 1
    then show ?thesis using r[of 0] n b(1) by (auto simp: utf8_decode_def)
  next
    case 2
    then show ?thesis using r[of 0] r[of 1] b(1) by (auto simp: utf8_decode_def Let_def)
  next
    case 3
    then show ?thesis using r[of 0] r[of 1] r[of 2] b(1)
      by (auto simp: utf8_decode_def utf8_tail3_def Let_def numeral_2_eq_2)
  next
    case 4
    then show ?thesis using r[of 0] r[of 1] r[of 2] r[of 3] b(1)
      by (auto simp: utf8_decode_def utf8_tail3_def utf8_tail4_def Let_def numeral_2_eq_2)
  qed
  then show "utf8_decode (take (nat n) s) 0 = utf8_decode s 0" "utf8_decode s 0 \<noteq> None" by auto
qed
section \<open>Properties\<close>

text \<open>
  C16. Decoding inverts encoding: for every rune \<open>c\<close>, \<open>chartorune\<close> at the bytes \<open>runetochar\<close> wrote, wherever
  they stand in a buffer, yields \<open>c\<close> and the number of bytes written; a value that is no code point
  (above \<open>Runemax\<close> or a surrogate) is written as, and read back as, \<open>Runeerror\<close>.
\<close>

theorem rune_round_trip:
  "chartorune (pre @ runetochar c @ post) (length pre) =
     Some (if c \<le> Runemax \<and> \<not> surrogate c then c else Runeerror, length (runetochar c))
   \<and> length (runetochar c) = runelen c"
  using chartorune_runetochar[of pre c post] by (simp add: norm_rune_def valid_rune_def runelen_def)

lemma chartorune_canonical_facts:
  assumes "chartorune s p = Some (r, n)" "\<not> (r = Runeerror \<and> n = 1)"
  shows "take n (drop p s) = runetochar r" "r \<le> Runemax" "\<not> surrogate r"
proof -
  have u: "unat r = 0xFFFD \<longleftrightarrow> r = Runeerror" by (simp add: word_unat_eq_iff Runeerror_def)
  have d: "map unat (take n (drop p s)) = rune_enc (unat r)" "rune_ok (unat r)"
    using decode_canonical[OF chartorune_decode_Some[OF assms(1)]] assms(2) u by auto
  then have v: "valid_rune r" by (simp add: valid_rune_ok)
  then show "r \<le> Runemax" "\<not> surrogate r" by (simp_all add: valid_rune_def)
  have "map unat (take n (drop p s)) = map unat (runetochar r)" using d v by (simp add: runetochar_enc)
  then show "take n (drop p s) = runetochar r" by (rule map_inj_on) (simp add: inj_on_def word_unat_eq_iff)
qed

text \<open>
  C17. The decoder accepts canonical encodings only: unless it reports \<open>Runeerror\<close> of width 1, the rune is a
  code point, not a surrogate, and the bytes consumed are exactly the ones \<open>runetochar\<close> writes for it (so
  overlong forms are rejected).
\<close>

theorem chartorune_canonical:
  assumes "chartorune s p = Some (r, n)" "\<not> (r = Runeerror \<and> n = 1)"
  shows "take n (drop p s) = runetochar r \<and> r \<le> Runemax \<and> \<not> surrogate r"
  using chartorune_canonical_facts[OF assms] by blast

theorem chartorune_canonical_witness:
  "take 2 (drop 1 [0x41, 0xC3, 0xA9, 0]) = runetochar 0xE9 \<and> 0xE9 \<le> Runemax \<and> \<not> surrogate 0xE9"
proof -
  have c: "chartorune [0x41, 0xC3, 0xA9, 0] 1 = Some (0xE9, 2)" by code_simp
  have "\<not> ((0xE9 :: u32) = Runeerror \<and> (2::nat) = 1)" by simp
  from chartorune_canonical[OF c this] show ?thesis by blast
qed

lemma fullrune_sufficient_facts:
  assumes "fullrune s n = Some True" "nat n \<le> length s"
  shows "chartorune (take (nat n) s) 0 = chartorune s 0" "\<exists>r k. chartorune s 0 = Some (r, k)"
proof -
  note f = fullrune_take[OF assms]
  show "\<exists>r k. chartorune s 0 = Some (r, k)" using f(2) chartorune_Some_iff by blast
  have inj: "rmap x = rmap y \<Longrightarrow> x = y" for x y
    by (cases x; cases y) (auto simp: word_unat_eq_iff)
  show "chartorune (take (nat n) s) 0 = chartorune s 0"
    by (rule inj) (simp add: chartorune_decode f(1))
qed

text \<open>
  C18. When \<open>fullrune(s, n)\<close> answers yes, decoding at \<open>s\<close> reads the first \<open>n\<close> bytes only: it returns, and with the
  same rune and width as on the buffer cut after \<open>n\<close> bytes.
\<close>

theorem fullrune_sufficient:
  assumes "fullrune s n = Some True" "nat n \<le> length s"
  shows "chartorune (take (nat n) s) 0 = chartorune s 0 \<and> (\<exists>r k. chartorune s 0 = Some (r, k))"
  using fullrune_sufficient_facts[OF assms] by blast

theorem fullrune_sufficient_witness:
  "chartorune [0xE2, 0x82, 0xAC] 0 = chartorune [0xE2, 0x82, 0xAC, 0x41] 0 \<and>
   (\<exists>r k. chartorune [0xE2, 0x82, 0xAC, 0x41] 0 = Some (r, k))"
proof -
  have f: "fullrune [0xE2, 0x82, 0xAC, 0x41] 3 = Some True" by code_simp
  have "nat 3 \<le> length [0xE2, 0x82, 0xAC, 0x41 :: u8]" by simp
  from fullrune_sufficient[OF f this] show ?thesis by (simp add: numeral_3_eq_3)
qed

text \<open>
  \<open>runenlen\<close> bounds the space \<open>runetochar\<close> needs for a rune array, and is exact once values that are no
  code point are replaced by \<open>Runeerror\<close>.
\<close>

theorem runenlen_bounds:
  "length (concat (map runetochar rs)) = runenlen (map norm_rune rs) \<and>
   length (concat (map runetochar rs)) \<le> runenlen rs"
proof (induction rs)
  case (Cons r rs)
  have "length (runetochar r) = length (map unat (runetochar r))" by simp
  also have "\<dots> = runenlen_one (norm_rune r)"
    unfolding runetochar_norm by (auto simp: rune_enc_def utf_consts unat_cmp32)
  finally have "length (runetochar r) = runenlen_one (norm_rune r)" .
  moreover have "runenlen_one (norm_rune r) \<le> runenlen_one r"
    by (auto simp: norm_rune_def utf_consts unat_cmp32 valid_rune_def)
  ultimately show ?case using Cons by simp
qed simp

end
