(* ===== verification/Utfstring.thy ===== *)
theory Utfstring
  imports Utf
begin

text \<open>
  Strings of runes: \<open>utflen.c\<close>, \<open>utfrune.c\<close>, \<open>utfecpy.c\<close> and \<open>getfields.c\<close> of \<open>src/kernel/Libc/port\<close>. Each scan
  decodes with \<open>chartorune\<close>; a terminated string makes it return. The theorems relate the scans to the
  list of runes a string encodes, and show that the copying and splitting routines stay in bounds.
\<close>

section \<open>Scanning strings of runes\<close>

function utflen_loop :: "buf \<Rightarrow> nat \<Rightarrow> nat \<Rightarrow> nat option" where
  "utflen_loop s p n =
    (case rd s p of None \<Rightarrow> None
     | Some c \<Rightarrow>
        if c < 0x80 then (if c = 0 then Some n else utflen_loop s (p + 1) (n + 1))
        else (case chartorune s p of None \<Rightarrow> None
              | Some (r, k) \<Rightarrow> utflen_loop s (p + k) (n + 1)))"
  by pat_completeness auto
termination
  by (relation "measure (\<lambda>(s, p, n). length s - p)") (auto simp: rd_Some_iff dest: chartorune_width(1))

definition utflen :: "buf \<Rightarrow> nat \<Rightarrow> nat option" where
  "utflen s p = utflen_loop s p 0"

function utfrune_loop :: "buf \<Rightarrow> nat \<Rightarrow> u32 \<Rightarrow> nat option option" where
  "utfrune_loop s p c =
    (case rd s p of None \<Rightarrow> None
     | Some c1 \<Rightarrow>
        if c1 < 0x80 then
          (if c1 = 0 then Some None
           else if ucast c1 = c then Some (Some p)
           else utfrune_loop s (p + 1) c)
        else (case chartorune s p of None \<Rightarrow> None
              | Some (r, n) \<Rightarrow> if r = c then Some (Some p) else utfrune_loop s (p + n) c))"
  by pat_completeness auto
termination
  by (relation "measure (\<lambda>(s, p, c). length s - p)") (auto simp: rd_Some_iff dest: chartorune_width(1))

definition utfrune :: "buf \<Rightarrow> nat \<Rightarrow> u32 \<Rightarrow> nat option option" where
  "utfrune s p c = (if sint c < 0x80 then strchr s p c else utfrune_loop s p c)"

declare utflen_loop.simps [simp del] utfrune_loop.simps [simp del]

function utfecpy_back :: "buf \<Rightarrow> nat \<Rightarrow> nat \<Rightarrow> nat option" where
  "utfecpy_back d to e =
    (if e > to then
       (case rd d (e - 1) of None \<Rightarrow> None
        | Some b \<Rightarrow> if b AND 0xC0 = 0x80 then utfecpy_back d to (e - 1) else Some (e - 1))
     else Some e)"
  by pat_completeness auto
termination
  by (relation "measure (\<lambda>(d, to, e). e)") auto

declare utfecpy_back.simps [simp del]

definition utfecpy :: "buf \<Rightarrow> nat \<Rightarrow> nat \<Rightarrow> buf \<Rightarrow> nat \<Rightarrow> (buf \<times> nat) option" where
  "utfecpy d to e from j =
    (if to \<ge> e then Some (d, to)
     else do {
       (d, r) \<leftarrow> memccpy d to from j 0 (e - to);
       case r of
         None \<Rightarrow> do { en \<leftarrow> utfecpy_back d to e; d \<leftarrow> wr d en 0; Some (d, en) }
       | Some en \<Rightarrow> Some (d, en - 1)
     })"

lemma chartorune_progress: "chartorune s p = Some (r, n) \<Longrightarrow> length s - (p + n) < length s - p"
  using chartorune_width[of s p r n] by linarith

function getfields_loop ::
  "buf \<Rightarrow> nat \<Rightarrow> buf \<Rightarrow> nat \<Rightarrow> nat list \<Rightarrow> nat \<Rightarrow> bool \<Rightarrow> nat \<Rightarrow> bool \<Rightarrow> (buf \<times> nat list \<times> nat) option"
where
  "getfields_loop str p delim sp args maxa mflag narg intok =
    (case chartorune str p of None \<Rightarrow> None
     | Some (r, nr) \<Rightarrow>
        if r = 0 then Some (str, args, narg)
        else (case utfrune delim sp r of None \<Rightarrow> None
          | Some (Some _) \<Rightarrow>
              if narg \<ge> maxa then Some (str, args, narg)
              else (case wr args narg (p + nr) of None \<Rightarrow> None
                | Some args \<Rightarrow>
                    getfields_loop (str[p := 0]) (p + nr) delim sp args maxa mflag
                      (if mflag then narg else narg + 1) False)
          | Some None \<Rightarrow>
              getfields_loop str (p + nr) delim sp args maxa mflag
                (if \<not> intok \<and> mflag then narg + 1 else narg) True))"
  by pat_completeness auto
termination
  by (relation "measure (\<lambda>(str, p, delim, sp, args, maxa, mflag, narg, intok). length str - p)")
    (auto dest: chartorune_progress)

declare getfields_loop.simps [simp del]

definition getfields ::
  "buf \<Rightarrow> nat \<Rightarrow> nat list \<Rightarrow> int \<Rightarrow> bool \<Rightarrow> buf \<Rightarrow> nat \<Rightarrow> (buf \<times> nat list \<times> nat) option" where
  "getfields str p args maxa mflag delim sp =
    (if maxa \<le> 0 then Some (str, args, 0)
     else do {
       args \<leftarrow> wr args 0 p;
       getfields_loop str p delim sp args (nat maxa) mflag (if mflag then 0 else 1) False
     })"

section \<open>Scans of a terminated string return\<close>

lemma decode_returns:
  assumes "p \<le> q" "q < length s" "s ! q = 0"
  shows "utf8_decode s p \<noteq> None"
proof -
  have c: "cont (s ! (p + i)) \<Longrightarrow> p + i \<noteq> q" for i using assms(3) by auto
  have p: "unat (s ! p) \<ge> 128 \<Longrightarrow> p + 1 < length s" using assms by (cases "p = q") auto
  have p1: "unat (s ! p) \<ge> 128 \<Longrightarrow> cont (s ! (p + 1)) \<Longrightarrow> p + 2 < length s"
    using assms c[of 1] by (cases "p = q") auto
  have p2: "unat (s ! p) \<ge> 128 \<Longrightarrow> cont (s ! (p + 1)) \<Longrightarrow> cont (s ! (p + 2)) \<Longrightarrow> p + 3 < length s"
    using assms c[of 1] c[of 2] by (cases "p = q") auto
  show ?thesis using assms(1,2) p p1 p2
    by (auto simp: utf8_decode_def utf8_tail3_def utf8_tail4_def rd_def Let_def not_less)
qed

lemma chartorune_in_string:
  assumes "p < q" "q < length s" "s ! q = 0"
  obtains r n where "chartorune s p = Some (r, n)" "p + n \<le> q"
proof -
  obtain r n where rn: "chartorune s p = Some (r, n)"
    using decode_returns[of p q s] assms chartorune_Some_iff[of s p] by auto
  have "p + n \<le> q"
  proof (rule ccontr)
    assume "\<not> p + n \<le> q"
    then have "cont (s ! (p + (q - p)))" using chartorune_inner[OF rn, of "q - p"] assms(1) by auto
    then show False using assms by simp
  qed
  then show thesis using that rn by blast
qed

lemma utflen_returns: "p \<le> q \<Longrightarrow> q < length s \<Longrightarrow> s ! q = 0 \<Longrightarrow> \<exists>n. utflen_loop s p k = Some n"
proof (induction s p k rule: utflen_loop.induct)
  case (1 s p n)
  show ?case
  proof (cases "p = q")
    case True
    then show ?thesis using 1 by (simp add: utflen_loop.simps rd_def)
  next
    case False
    then have "p < q" using 1 by simp
    then obtain r m where rm: "chartorune s p = Some (r, m)" "p + m \<le> q"
      by (rule chartorune_in_string) (use 1 in auto)
    have rd: "rd s p = Some (s ! p)" using \<open>p < q\<close> 1 by (simp add: rd_def)
    show ?thesis using 1 rm rd \<open>p < q\<close> by (subst utflen_loop.simps) auto
  qed
qed

section \<open>Scans of an encoded string\<close>

lemma utflen_step:
  assumes "c \<noteq> 0"
  shows "utflen_loop (pre @ runetochar c @ post) (length pre) k =
    utflen_loop (pre @ runetochar c @ post) (length pre + length (runetochar c)) (k + 1)"
proof -
  obtain b bs where b: "runetochar c = b # bs" "unat b < 128 \<longrightarrow> bs = [] \<and> unat c = unat b"
    using runetochar_head by blast
  then have r: "rd (pre @ runetochar c @ post) (length pre) = Some b" by (simp add: rd_def)
  have "b < 0x80 \<longleftrightarrow> unat b < 128" by (simp add: word_less_nat_alt)
  moreover have "unat c \<noteq> 0" using assms by (simp add: unat_eq_0)
  ultimately show ?thesis
    using r b chartorune_runetochar[of pre c post]
    by (subst utflen_loop.simps) auto
qed

lemma utflen_enc:
  "0 \<notin> set rs \<Longrightarrow> utflen_loop (pre @ utf_enc rs @ 0 # post) (length pre) k = Some (k + length rs)"
proof (induction rs arbitrary: pre k)
  case Nil
  then show ?case by (simp add: utflen_loop.simps rd_def)
next
  case (Cons r rs)
  then show ?case
    using utflen_step[of r pre "utf_enc rs @ 0 # post" k] Cons.IH[of "pre @ runetochar r" "k + 1"] by simp
qed

lemma strchr_loop_skip:
  "\<forall>b\<in>set bs. b \<noteq> 0 \<and> b \<noteq> c \<Longrightarrow>
   strchr_loop (pre @ bs @ post) (length pre) c = strchr_loop (pre @ bs @ post) (length pre + length bs) c"
proof (induction bs arbitrary: pre)
  case (Cons b bs)
  have "strchr_loop (pre @ (b # bs) @ post) (length pre) c = strchr_loop ((pre @ [b]) @ bs @ post) (length (pre @ [b])) c"
    using Cons.prems by (subst strchr_loop.simps) (simp add: rd_def)
  also have "\<dots> = strchr_loop ((pre @ [b]) @ bs @ post) (length (pre @ [b]) + length bs) c"
    by (rule Cons.IH) (use Cons.prems in auto)
  finally show ?case by simp
qed simp

definition find_rune :: "nat \<Rightarrow> u32 \<Rightarrow> u32 list \<Rightarrow> nat option" where
  "find_rune p c rs =
    (if c \<in> set rs then Some (p + length (utf_enc (takeWhile (\<lambda>r. r \<noteq> c) rs))) else None)"

lemma find_rune_simps [simp]:
  "find_rune p c [] = None"
  "find_rune p c (r # rs) = (if r = c then Some p else find_rune (p + length (runetochar r)) c rs)"
  by (auto simp: find_rune_def)

lemma strchr_rune_step:
  assumes "valid_rune r" "r \<noteq> 0" "unat c < 128" "c \<noteq> 0"
  shows "strchr_loop (pre @ runetochar r @ post) (length pre) (ucast c) =
    (if r = c then Some (Some (length pre))
     else strchr_loop (pre @ runetochar r @ post) (length pre + length (runetochar r)) (ucast c))"
proof (cases "r = c")
  case True
  then have "runetochar r = [ucast c]" using assms by (simp add: runetochar_def utf_consts unat_cmp32)
  moreover have "ucast c \<noteq> (0 :: u8)"
    using assms unat_ucast_byte[of c] by (auto simp: word_unat_eq_iff)
  ultimately show ?thesis using True by (simp add: strchr_loop.simps rd_def)
next
  case False
  have "b \<noteq> 0 \<and> b \<noteq> ucast c" if "b \<in> set (runetochar r)" for b
  proof -
    have "unat b \<noteq> 0 \<and> unat b \<noteq> unat c"
      using runetochar_ascii_byte[OF that] False assms
      by (cases "unat b < 128") (auto simp: word_unat_eq_iff)
    then show ?thesis using unat_ucast_byte[of c] assms(3) by auto
  qed
  then show ?thesis using False strchr_loop_skip[of "runetochar r"] by simp
qed

lemma utfrune_step:
  assumes "valid_rune r" "r \<noteq> 0"
  shows "utfrune_loop (pre @ runetochar r @ post) (length pre) c =
    (if r = c then Some (Some (length pre))
     else utfrune_loop (pre @ runetochar r @ post) (length pre + length (runetochar r)) c)"
proof -
  obtain b bs where b: "runetochar r = b # bs" "unat b < 128 \<longrightarrow> bs = [] \<and> unat r = unat b"
    using runetochar_head by blast
  then have rd: "rd (pre @ runetochar r @ post) (length pre) = Some b" by (simp add: rd_def)
  have lt: "b < 0x80 \<longleftrightarrow> unat b < 128" by (simp add: word_less_nat_alt)
  have "unat b < 128 \<Longrightarrow> ucast b = r" using b(2) by (simp add: word_unat_eq_iff unat_ucast8)
  then show ?thesis
    using rd b assms lt chartorune_runetochar[of pre r post]
    by (subst utfrune_loop.simps) (auto simp: norm_rune_def)
qed

lemma utfrune_enc:
  assumes "\<forall>r\<in>set rs. valid_rune r \<and> r \<noteq> 0" "valid_rune c" "c \<noteq> 0"
  shows "utfrune (pre @ utf_enc rs @ 0 # post) (length pre) c = Some (find_rune (length pre) c rs)"
proof -
  have s: "sint c < 0x80 \<longleftrightarrow> unat c < 128"
  proof -
    have "unat c \<le> 0x10FFFF" using assms(2) by (simp add: valid_rune_ok rune_ok_def)
    then show ?thesis using sint32_small[of c] by linarith
  qed
  have 1: "unat c < 128 \<Longrightarrow> \<forall>r\<in>set rs. valid_rune r \<and> r \<noteq> 0 \<Longrightarrow>
    strchr_loop (pre @ utf_enc rs @ 0 # post) (length pre) (ucast c) = Some (find_rune (length pre) c rs)" for rs
  proof (induction rs arbitrary: pre)
    case Nil
    then show ?case by (simp add: strchr_loop.simps rd_def)
  next
    case (Cons r rs)
    then show ?case
      using strchr_rune_step[of r c pre "utf_enc rs @ 0 # post"] Cons.IH[of "pre @ runetochar r"] assms(3) by simp
  qed
  have 2: "\<forall>r\<in>set rs. valid_rune r \<and> r \<noteq> 0 \<Longrightarrow>
    utfrune_loop (pre @ utf_enc rs @ 0 # post) (length pre) c = Some (find_rune (length pre) c rs)" for rs
  proof (induction rs arbitrary: pre)
    case Nil
    then show ?case by (simp add: utfrune_loop.simps rd_def)
  next
    case (Cons r rs)
    then show ?case
      using utfrune_step[of r pre "utf_enc rs @ 0 # post" c] Cons.IH[of "pre @ runetochar r"] by simp
  qed
  show ?thesis using 1 2 s assms by (simp add: utfrune_def strchr_def)
qed

section \<open>Copying and the decoding window\<close>

lemma memccpy_found:
  "c \<notin> set bs \<Longrightarrow> length bs < n \<Longrightarrow> i + length bs < length d \<Longrightarrow>
   memccpy_loop d i (pre @ bs @ c # post) (length pre) c n =
     Some (take i d @ bs @ c # drop (i + length bs + 1) d, Some (i + length bs + 1))"
proof (induction bs arbitrary: d i pre n)
  case Nil
  then show ?case by (cases n) (auto simp: rd_def wr_def upd_conv_take_nth_drop)
next
  case (Cons b bs)
  obtain n' where n: "n = Suc n'" using Cons.prems by (cases n) auto
  have "memccpy_loop (d[i := b]) (i + 1) ((pre @ [b]) @ bs @ c # post) (length (pre @ [b])) c n' =
     Some (take (i + 1) (d[i := b]) @ bs @ c # drop (i + 1 + length bs + 1) (d[i := b]), Some (i + 1 + length bs + 1))"
    by (rule Cons.IH) (use Cons.prems n in auto)
  then show ?case using Cons.prems by (auto simp: n rd_def wr_def take_Suc_conv_app_nth)
qed

lemma memccpy_absent:
  "c \<notin> set bs \<Longrightarrow> i + length bs \<le> length d \<Longrightarrow>
   memccpy_loop d i (pre @ bs @ post) (length pre) c (length bs) = Some (take i d @ bs @ drop (i + length bs) d, None)"
proof (induction bs arbitrary: d i pre)
  case (Cons b bs)
  have "memccpy_loop (d[i := b]) (i + 1) ((pre @ [b]) @ bs @ post) (length (pre @ [b])) c (length bs) =
     Some (take (i + 1) (d[i := b]) @ bs @ drop (i + 1 + length bs) (d[i := b]), None)"
    by (rule Cons.IH) (use Cons.prems in auto)
  then show ?case using Cons.prems by (auto simp: rd_def wr_def take_Suc_conv_app_nth)
qed simp

lemma runetochar_shape:
  obtains x ys where "runetochar c = x # ys" "\<not> cont x" "\<forall>y\<in>set ys. cont y"
proof -
  obtain x ys where xy: "runetochar c = x # ys" using runetochar_head by blast
  have m: "unat x # map unat ys = rune_enc (unat (norm_rune c))" using runetochar_norm[of c] xy by simp
  have "\<not> (128 \<le> v \<and> v < 192) \<and> (\<forall>w\<in>set ws. 128 \<le> w \<and> w < 192)" if "v # ws = rune_enc k" for v ws k
    using that by (auto simp: rune_enc_def less_diff_conv2 intro: add_less_le_mono split: if_splits)
  from this[OF m] show thesis using that xy by auto
qed

lemma cont_mask: "(b AND 0xC0 = (0x80::u8)) = cont b"
proof (rule byte_all[where P="\<lambda>b. (b AND 0xC0 = (0x80::u8)) = cont b"])
  have "list_all (\<lambda>n. ((word_of_nat n :: u8) AND 0xC0 = 0x80) = (128 \<le> n \<and> n < 192)) [0..<256]"
    by code_simp
  then show "list_all (\<lambda>n. ((word_of_nat n :: u8) AND 0xC0 = 0x80) = cont (word_of_nat n)) [0..<256]"
    by (simp only: list_all_iff) (auto simp: unat_word8)
qed

lemma utfecpy_back_stop:
  "\<not> cont x \<Longrightarrow> \<forall>y\<in>set ys. cont y \<Longrightarrow> to \<le> length A \<Longrightarrow>
   utfecpy_back (A @ x # ys @ C) to (length A + 1 + length ys) = Some (length A)"
proof (induction ys arbitrary: C rule: rev_induct)
  case Nil
  then show ?case by (subst utfecpy_back.simps) (auto simp: rd_def cont_mask)
next
  case (snoc y ys)
  then have "utfecpy_back (A @ x # ys @ y # C) to (length A + 1 + length ys) = Some (length A)" by simp
  then show ?case using snoc.prems
    by (subst utfecpy_back.simps) (simp add: rd_def cont_mask nth_append)
qed

lemma take_utf_enc:
  "n < length (utf_enc rs) \<Longrightarrow> \<exists>k x ys. k < length rs \<and> take (Suc n) (utf_enc rs) = utf_enc (take k rs) @ x # ys \<and>
     \<not> cont x \<and> (\<forall>y\<in>set ys. cont y) \<and> Suc n \<le> length (utf_enc (take (Suc k) rs))"
proof (induction rs arbitrary: n)
  case (Cons r rs)
  obtain x ys where r: "runetochar r = x # ys" "\<not> cont x" "\<forall>y\<in>set ys. cont y" by (rule runetochar_shape)
  show ?case
  proof (cases "n < length (runetochar r)")
    case True
    then have "take (Suc n) (utf_enc (r # rs)) = utf_enc (take 0 (r # rs)) @ x # take n ys" by (simp add: r)
    moreover have "\<forall>y\<in>set (take n ys). cont y" using r(3) by (meson in_set_takeD)
    ultimately show ?thesis using True r(2) by (intro exI[of _ 0] exI[of _ x] exI[of _ "take n ys"]) simp
  next
    case False
    then have "n - length (runetochar r) < length (utf_enc rs)" using Cons.prems by simp
    from Cons.IH[OF this] obtain k x ys where
      k: "k < length rs" "take (Suc (n - length (runetochar r))) (utf_enc rs) = utf_enc (take k rs) @ x # ys"
        "\<not> cont x" "\<forall>y\<in>set ys. cont y" "Suc (n - length (runetochar r)) \<le> length (utf_enc (take (Suc k) rs))"
      by blast
    then show ?thesis using False
      by (intro exI[of _ "Suc k"] exI[of _ x] exI[of _ ys]) (simp add: Suc_diff_le not_less)
  qed
qed simp

lemma utf_enc_nonzero: "0 \<notin> set rs \<Longrightarrow> 0 \<notin> set (utf_enc rs)"
proof (induction rs)
  case (Cons r rs)
  then show ?case using runetochar_ascii_byte[of 0 r] by (auto simp: unat_eq_0)
qed simp

lemma utfecpy_fits:
  assumes "0 \<notin> set rs" "to + length (utf_enc rs) < e" "e \<le> length d"
  shows "utfecpy d to e (pre @ utf_enc rs @ 0 # post) (length pre) =
    Some (take to d @ utf_enc rs @ 0 # drop (to + length (utf_enc rs) + 1) d, to + length (utf_enc rs))"
  using assms memccpy_found[OF utf_enc_nonzero[OF assms(1)], of "e - to" to d pre post]
  by (simp add: utfecpy_def memccpy_def)

lemma utfecpy_cut:
  assumes "0 \<notin> set rs" "to < e" "e \<le> to + length (utf_enc rs)" "e \<le> length d"
  obtains k D where "k < length rs" "to + length (utf_enc (take k rs)) < e"
    "e \<le> to + length (utf_enc (take (Suc k) rs))"
    "utfecpy d to e (pre @ utf_enc rs @ 0 # post) (length pre) =
      Some (take to d @ utf_enc (take k rs) @ 0 # D @ drop e d, to + length (utf_enc (take k rs)))"
    "to + length (utf_enc (take k rs)) + 1 + length D = e"
proof -
  define n where "n = e - to - 1"
  define bs where "bs = take (Suc n) (utf_enc rs)"
  have n: "n < length (utf_enc rs)" "e = to + Suc n" using assms by (auto simp: n_def)
  then obtain k x ys where k: "k < length rs" "bs = utf_enc (take k rs) @ x # ys" "\<not> cont x" "\<forall>y\<in>set ys. cont y"
    "Suc n \<le> length (utf_enc (take (Suc k) rs))" unfolding bs_def using take_utf_enc by blast
  have len: "length bs = Suc n" using n by (simp add: bs_def)
  have nz: "0 \<notin> set bs" unfolding bs_def using utf_enc_nonzero[OF assms(1)] by (meson in_set_takeD)
  define A where "A = take to d @ utf_enc (take k rs)"
  have A: "length A = to + length (utf_enc (take k rs))" using assms by (simp add: A_def)
  have eA: "e = length A + 1 + length ys" using len k(2) n(2) A by simp
  have src: "pre @ utf_enc rs @ 0 # post = pre @ bs @ (drop (Suc n) (utf_enc rs) @ 0 # post)"
    unfolding bs_def by (metis append.assoc append_take_drop_id)
  have m: "memccpy d to (pre @ utf_enc rs @ 0 # post) (length pre) 0 (Suc n) = Some (A @ x # ys @ drop e d, None)"
  proof -
    have "to + length bs \<le> length d" using len n assms by simp
    from memccpy_absent[OF nz this, of pre "drop (Suc n) (utf_enc rs) @ 0 # post"] show ?thesis
      unfolding src memccpy_def len by (simp add: A_def k(2) n del: memccpy_loop.simps)
  qed
  have b: "utfecpy_back (A @ x # ys @ drop e d) to e = Some (length A)"
    unfolding eA by (rule utfecpy_back_stop[OF k(3,4)]) (simp add: A)
  have "utfecpy d to e (pre @ utf_enc rs @ 0 # post) (length pre) = Some (A @ 0 # ys @ drop e d, length A)"
    using m b n by (simp add: utfecpy_def wr_def)
  then show thesis
    by (intro that[of k ys]) (use k A eA n in \<open>simp_all add: A_def add.assoc\<close>)
qed


section \<open>Splitting into fields\<close>

lemma strchr_returns: "p \<le> q \<Longrightarrow> q < length s \<Longrightarrow> s ! q = 0 \<Longrightarrow> \<exists>r. strchr_loop s p c = Some r"
proof (induction s p c rule: strchr_loop.induct)
  case (1 s p c)
  then show ?case by (cases "p = q") (auto simp: strchr_loop.simps[of s p] strchr_loop.simps[of s q] rd_def)
qed

lemma strend_returns: "p \<le> q \<Longrightarrow> q < length s \<Longrightarrow> s ! q = 0 \<Longrightarrow> \<exists>r. strend s p = Some r"
proof (induction s p rule: strend.induct)
  case (1 s p)
  then show ?case by (cases "p = q") (auto simp: strend.simps[of s p] strend.simps[of s q] rd_def)
qed

lemma utfrune_loop_returns: "p \<le> q \<Longrightarrow> q < length s \<Longrightarrow> s ! q = 0 \<Longrightarrow> \<exists>r. utfrune_loop s p c = Some r"
proof (induction s p c rule: utfrune_loop.induct)
  case (1 s p c)
  show ?case
  proof (cases "p = q")
    case True
    then show ?thesis using 1 by (simp add: utfrune_loop.simps rd_def)
  next
    case False
    then have "p < q" using 1 by simp
    then obtain r m where rm: "chartorune s p = Some (r, m)" "p + m \<le> q"
      by (rule chartorune_in_string) (use 1 in auto)
    have rd: "rd s p = Some (s ! p)" using \<open>p < q\<close> 1 by (simp add: rd_def)
    show ?thesis using 1 rm rd \<open>p < q\<close> by (subst utfrune_loop.simps) auto
  qed
qed

lemma utfrune_returns: "p \<le> q \<Longrightarrow> q < length s \<Longrightarrow> s ! q = 0 \<Longrightarrow> \<exists>r. utfrune s p c = Some r"
  using strchr_returns[of p q s "ucast c"] strend_returns[of p q s] utfrune_loop_returns[of p q s c]
  by (auto simp: utfrune_def strchr_def)

text \<open>What \<open>getfields\<close> keeps: the terminator, the bytes it does not overwrite, the field pointers in range.\<close>

definition fields_ok :: "buf \<Rightarrow> nat \<Rightarrow> nat \<Rightarrow> nat \<Rightarrow> buf \<times> nat list \<times> nat \<Rightarrow> bool" where
  "fields_ok str lo q maxa = (\<lambda>(str', args', narg).
     length str' = length str \<and> str' ! q = 0 \<and> narg \<le> maxa \<and>
     (\<forall>i < length str. str' ! i = str ! i \<or> str' ! i = 0) \<and>
     (\<forall>i < narg. lo \<le> args' ! i \<and> args' ! i \<le> q))"

lemma fields_ok_trans:
  "fields_ok (str[p := 0]) lo q maxa r \<Longrightarrow> fields_ok str lo q maxa r"
proof -
  have "\<forall>i < length str. str[p := 0] ! i = str ! i \<or> str[p := 0] ! i = 0"
    by (cases "p < length str") (simp_all add: nth_list_update)
  then show "fields_ok (str[p := 0]) lo q maxa r \<Longrightarrow> fields_ok str lo q maxa r"
    unfolding fields_ok_def by (cases r) (simp, metis)
qed

lemma getfields_loop_ok:
  assumes "lo \<le> p" "p \<le> q" "q < length str" "str ! q = 0" "sp \<le> sq" "sq < length delim" "delim ! sq = 0"
    "maxa \<le> length args" "narg \<le> maxa" "mflag \<and> \<not> intok \<longrightarrow> narg < maxa"
    "\<forall>i. i < narg \<or> i = narg \<and> mflag \<and> \<not> intok \<longrightarrow> lo \<le> args ! i \<and> args ! i \<le> q"
  shows "\<exists>r. getfields_loop str p delim sp args maxa mflag narg intok = Some r \<and> fields_ok str lo q maxa r"
  using assms
proof (induction str p delim sp args maxa mflag narg intok rule: getfields_loop.induct)
  case (1 str p delim sp args maxa mflag narg intok)
  note pre = 1(3-)
  show ?case
  proof (cases "p = q")
    case True
    then have "chartorune str p = Some (0, 1)" using pre by (simp add: chartorune_def rd_def Tmask_vals)
    then show ?thesis using pre by (subst getfields_loop.simps) (auto simp: fields_ok_def)
  next
    case False
    then have "p < q" using pre by simp
    then obtain r m where rm: "chartorune str p = Some (r, m)" "p + m \<le> q"
      by (rule chartorune_in_string) (use pre in auto)
    obtain u where u: "utfrune delim sp r = Some u" using utfrune_returns pre by blast
    have m: "1 \<le> m" using chartorune_width(1)[OF rm(1)] .
    consider "r = 0 \<or> u \<noteq> None \<and> maxa \<le> narg" | "r \<noteq> 0" "u = None" | x where "r \<noteq> 0" "u = Some x" "narg < maxa"
      using not_le by (cases u) auto
    then show ?thesis
    proof cases
      case 1
      then show ?thesis using rm u pre by (subst getfields_loop.simps) (auto simp: fields_ok_def)
    next
      case 2
      have "\<exists>res. getfields_loop str (p + m) delim sp args maxa mflag
           (if \<not> intok \<and> mflag then narg + 1 else narg) True = Some res \<and> fields_ok str lo q maxa res"
        by (rule 1(1)[OF rm(1) refl 2(1) u[unfolded 2(2)]]) (use pre rm in \<open>auto simp: less_Suc_eq\<close>)
      then show ?thesis using rm u 2 by (subst getfields_loop.simps) simp
    next
      case 3
      then have w: "wr args narg (p + m) = Some (args[narg := p + m])" using pre by (simp add: wr_def)
      have "\<exists>res. getfields_loop (str[p := 0]) (p + m) delim sp (args[narg := p + m]) maxa mflag
           (if mflag then narg else narg + 1) False = Some res \<and> fields_ok (str[p := 0]) lo q maxa res"
        by (rule 1(2)[OF rm(1) refl 3(1) u[unfolded 3(2)] refl _ w])
          (use pre rm 3 \<open>p < q\<close> in \<open>auto simp: nth_list_update less_Suc_eq\<close>)
      then show ?thesis using rm u 3 w fields_ok_trans by (subst getfields_loop.simps) auto
    qed
  qed
qed


section \<open>Properties\<close>

lemma rune_scans_facts:
  assumes "\<forall>r\<in>set rs. valid_rune r \<and> r \<noteq> 0" "valid_rune c" "c \<noteq> 0"
  shows "utflen (pre @ utf_enc rs @ 0 # post) (length pre) = Some (length rs)"
    "utfrune (pre @ utf_enc rs @ 0 # post) (length pre) c = Some (find_rune (length pre) c rs)"
  using utflen_enc[of rs pre post 0] utfrune_enc[OF assms] assms(1) by (auto simp: utflen_def)

text \<open>
  C19. \<open>utflen\<close> counts the runes of an encoded string, and \<open>utfrune\<close> finds the first occurrence of a rune in it
  (\<open>find_rune\<close>: the offset of the bytes before it, or none), whether it scans bytes (\<open>strchr\<close>, for ASCII)
  or decodes runes.
\<close>

theorem rune_scans:
  assumes "\<forall>r\<in>set rs. valid_rune r \<and> r \<noteq> 0" "valid_rune c" "c \<noteq> 0"
  shows "utflen (pre @ utf_enc rs @ 0 # post) (length pre) = Some (length rs) \<and>
    utfrune (pre @ utf_enc rs @ 0 # post) (length pre) c = Some (find_rune (length pre) c rs)"
  using rune_scans_facts[OF assms] by blast

theorem rune_scans_witness:
  "utflen (utf_enc [0x61, 0x20AC, 0x62] @ [0]) 0 = Some 3 \<and>
   utfrune (utf_enc [0x61, 0x20AC, 0x62] @ [0]) 0 0x62 = Some (find_rune 0 0x62 [0x61, 0x20AC, 0x62]) \<and>
   find_rune 0 0x62 [0x61, 0x20AC, 0x62] = Some 4"
proof -
  have v: "\<forall>r\<in>set [0x61, 0x20AC, 0x62 :: u32]. valid_rune r \<and> r \<noteq> 0" "valid_rune 0x62" "(0x62 :: u32) \<noteq> 0"
    by code_simp+
  have "find_rune 0 0x62 [0x61, 0x20AC, 0x62] = Some 4" by code_simp
  then show ?thesis using rune_scans[OF v, of "[]" "[]"] by simp
qed

text \<open>
  \<open>utfecpy\<close> copies as many whole runes as fit: for an encoded source, the destination holds, from \<open>to\<close>, the
  encoding of the first \<open>k\<close> runes and a terminating NUL, before \<open>e\<close>, the returned pointer is the one of the NUL,
  and \<open>k\<close> is the whole string or the next rune would not fit; nothing outside \<open>to..e\<close> is written.
\<close>

theorem utfecpy_whole_runes:
  assumes "0 \<notin> set rs" "to < e" "e \<le> length d"
  shows "\<exists>k D. k \<le> length rs \<and>
    utfecpy d to e (pre @ utf_enc rs @ 0 # post) (length pre) =
      Some (take to d @ utf_enc (take k rs) @ 0 # D @ drop e d, to + length (utf_enc (take k rs))) \<and>
    to + length (utf_enc (take k rs)) + 1 + length D = e \<and>
    (k < length rs \<longrightarrow> e \<le> to + length (utf_enc (take (Suc k) rs)))"
proof (cases "to + length (utf_enc rs) < e")
  case True
  define n where "n = to + length (utf_enc rs) + 1"
  have "drop n d = take (e - n) (drop n d) @ drop (e - n) (drop n d)" by (rule append_take_drop_id[symmetric])
  also have "drop (e - n) (drop n d) = drop e d" using True by (simp add: n_def)
  finally have d: "drop n d = take (e - n) (drop n d) @ drop e d" .
  have "utfecpy d to e (pre @ utf_enc rs @ 0 # post) (length pre) =
    Some (take to d @ utf_enc rs @ 0 # take (e - n) (drop n d) @ drop e d, to + length (utf_enc rs))"
    using utfecpy_fits[OF assms(1) True assms(3), of pre post] d unfolding n_def by metis
  then show ?thesis using True assms(3)
    by (intro exI[of _ "length rs"] exI[of _ "take (e - n) (drop n d)"]) (simp add: n_def)
next
  case False
  then have e: "e \<le> to + length (utf_enc rs)" by simp
  from utfecpy_cut[OF assms(1,2) e assms(3), of pre post] show ?thesis by (metis less_or_eq_imp_le)
qed

theorem utfecpy_whole_runes_witness:
  "\<exists>k D. k \<le> 2 \<and>
    utfecpy (replicate 5 1) 0 4 (utf_enc [0x61, 0x20AC] @ [0]) 0 =
      Some (utf_enc (take k [0x61, 0x20AC]) @ 0 # D @ [1], length (utf_enc (take k [0x61, 0x20AC]))) \<and>
    length (utf_enc (take k [0x61, 0x20AC])) + 1 + length D = 4 \<and>
    (k < 2 \<longrightarrow> 4 \<le> length (utf_enc (take (Suc k) [0x61, 0x20AC])))"
proof -
  have "0 \<notin> set [0x61, 0x20AC :: u32]" "0 < (4::nat)" "4 \<le> length (replicate 5 (1::u8))" by simp_all
  from utfecpy_whole_runes[OF this, of "[]" "[]"] show ?thesis by (simp add: eval_nat_numeral)
qed

text \<open>
  C20. On a terminated string and a terminated delimiter set, with room for \<open>max\<close> pointers, \<open>getfields\<close> returns:
  at most \<open>max\<close> fields, each pointer between the start of the string and its terminator, the terminator
  kept, and every other byte unchanged or replaced by NUL.
\<close>

theorem getfields_safe:
  assumes "p \<le> q" "q < length str" "str ! q = 0" "sp \<le> sq" "sq < length delim" "delim ! sq = 0"
    "0 < maxa" "nat maxa \<le> length args"
  shows "\<exists>str' args' narg. getfields str p args maxa mflag delim sp = Some (str', args', narg) \<and>
    int narg \<le> maxa \<and> length str' = length str \<and> str' ! q = 0 \<and>
    (\<forall>i < length str. str' ! i = str ! i \<or> str' ! i = 0) \<and>
    (\<forall>i < narg. p \<le> args' ! i \<and> args' ! i \<le> q)"
proof -
  have w: "wr args 0 p = Some (args[0 := p])" "length args > 0" using assms by (auto simp: wr_def)
  have "\<exists>r. getfields_loop str p delim sp (args[0 := p]) (nat maxa) mflag (if mflag then 0 else 1) False = Some r \<and>
     fields_ok str p q (nat maxa) r"
    by (rule getfields_loop_ok[of p p q str sp sq delim]) (use assms w(2) in \<open>auto simp: nth_list_update\<close>)
  then obtain str' args' narg where
    r: "getfields_loop str p delim sp (args[0 := p]) (nat maxa) mflag (if mflag then 0 else 1) False = Some (str', args', narg)"
     "fields_ok str p q (nat maxa) (str', args', narg)" by (metis prod_cases3)
  have g: "getfields str p args maxa mflag delim sp = Some (str', args', narg)"
    using r(1) w(1) assms(7) by (simp add: getfields_def)
  have "int narg \<le> maxa" using r(2) assms(7) by (simp add: fields_ok_def le_nat_iff)
  then show ?thesis using g r(2) unfolding fields_ok_def prod.case by blast
qed


theorem getfields_safe_witness:
  "\<exists>str' args' narg. getfields [0x61, 0x20, 0x62, 0] 0 [0, 0] 2 True [0x20, 0] 0 = Some (str', args', narg) \<and>
    int narg \<le> 2 \<and> length str' = 4 \<and> str' ! 3 = 0 \<and>
    (\<forall>i < 4. str' ! i = [0x61, 0x20, 0x62, 0] ! i \<or> str' ! i = 0) \<and>
    (\<forall>i < narg. 0 \<le> args' ! i \<and> args' ! i \<le> 3)"
proof -
  have "0 \<le> (3::nat)" "3 < length [0x61, 0x20, 0x62, 0 :: u8]" "[0x61, 0x20, 0x62, 0 :: u8] ! 3 = 0"
    "0 \<le> (1::nat)" "1 < length [0x20, 0 :: u8]" "[0x20, 0 :: u8] ! 1 = 0" "0 < (2::int)"
    "nat 2 \<le> length [0, 0 :: nat]" by simp_all
  from getfields_safe[OF this, of True] show ?thesis by (simp add: eval_nat_numeral)
qed

end
