(* ===== verification/Qsort.thy ===== *)
theory Qsort
  imports Cstring
begin

text \<open>
  The C library's quicksort, \<open>src/kernel/Libc/port/qsort.c\<close>. The array is a list of elements and a
  pointer an element index; \<open>swapb\<close> and \<open>swapi\<close>, which exchange two elements byte by byte or word by
  word, are also given on the byte buffer. Reads and writes outside the array are errors (\<open>None\<close>).
  For every comparison function the sort returns a permutation of the range and touches nothing
  else; for a comparison that is a total preorder (locale \<open>comparator\<close>) the range is sorted.
\<close>

section \<open>Exchanging elements\<close>

fun swapb :: "'a list \<Rightarrow> nat \<Rightarrow> nat \<Rightarrow> nat \<Rightarrow> 'a list option" where
  "swapb b i j 0 = None"
| "swapb b i j (Suc es) =
    do {
      c \<leftarrow> rd b i;
      x \<leftarrow> rd b j;
      b \<leftarrow> wr b i x;
      b \<leftarrow> wr b j c;
      if es = 0 then Some b else swapb b (i + 1) (j + 1) es
    }"

text \<open>
  \<open>swapi\<close> runs the same loop over words. It is chosen when the address and the element size are
  multiples of the word size; on another size its counter would pass 0.
\<close>

definition swapi :: "u32 list \<Rightarrow> nat \<Rightarrow> nat \<Rightarrow> nat \<Rightarrow> u32 list option" where
  "swapi ws i j es = (if es mod 4 = 0 then swapb ws i j (es div 4) else None)"

definition swap_elem :: "'a list \<Rightarrow> nat \<Rightarrow> nat \<Rightarrow> 'a list option" where
  "swap_elem xs i j =
    do { x \<leftarrow> rd xs i; y \<leftarrow> rd xs j; xs \<leftarrow> wr xs i y; wr xs j x }"

section \<open>The sort\<close>

definition cmp_at :: "('a \<Rightarrow> 'a \<Rightarrow> int) \<Rightarrow> 'a list \<Rightarrow> nat \<Rightarrow> nat \<Rightarrow> int option" where
  "cmp_at cmp xs i j = do { x \<leftarrow> rd xs i; y \<leftarrow> rd xs j; Some (cmp x y) }"

definition pivot :: "('a \<Rightarrow> 'a \<Rightarrow> int) \<Rightarrow> 'a list \<Rightarrow> nat \<Rightarrow> nat \<Rightarrow> nat option" where
  "pivot cmp xs a n =
    (let j = n div 6; pi = a + j; j = j + j; pj = pi + j; pk = pj + j in
     do {
       c \<leftarrow> cmp_at cmp xs pi pj;
       if c < 0 then
         do {
           c \<leftarrow> cmp_at cmp xs pi pk;
           if c < 0 then do { c \<leftarrow> cmp_at cmp xs pj pk; Some (if c < 0 then pj else pk) }
           else Some pi
         }
       else
         do {
           c \<leftarrow> cmp_at cmp xs pj pk;
           if c < 0 then do { c \<leftarrow> cmp_at cmp xs pi pk; Some (if c < 0 then pi else pk) }
           else Some pj
         }
     })"

text \<open>The two scans of the partition: to the right over smaller, to the left over greater elements.\<close>

function scan_up :: "('a \<Rightarrow> 'a \<Rightarrow> int) \<Rightarrow> 'a list \<Rightarrow> nat \<Rightarrow> nat \<Rightarrow> nat \<Rightarrow> nat option" where
  "scan_up cmp xs a pn i =
    (if i + 1 < pn then
       case cmp_at cmp xs (i + 1) a of
         None \<Rightarrow> None
       | Some c \<Rightarrow> if c < 0 then scan_up cmp xs a pn (i + 1) else Some (i + 1)
     else Some (i + 1))"
  by pat_completeness auto
termination
  by (relation "measure (\<lambda>(cmp, xs, a, pn, i). pn - i)") auto

function scan_down :: "('a \<Rightarrow> 'a \<Rightarrow> int) \<Rightarrow> 'a list \<Rightarrow> nat \<Rightarrow> nat \<Rightarrow> nat option" where
  "scan_down cmp xs a j =
    (if j - 1 > a then
       case cmp_at cmp xs (j - 1) a of
         None \<Rightarrow> None
       | Some c \<Rightarrow> if c > 0 then scan_down cmp xs a (j - 1) else Some (j - 1)
     else Some (j - 1))"
  by pat_completeness auto
termination
  by (relation "measure (\<lambda>(cmp, xs, a, j). j)") auto

declare scan_up.simps [simp del] scan_down.simps [simp del]

lemma scan_up_less: "scan_up cmp xs a pn i = Some i' \<Longrightarrow> i < i'"
proof (induction cmp xs a pn i rule: scan_up.induct)
  case (1 cmp xs a pn i)
  then show ?case by (subst (asm) (2) scan_up.simps) (fastforce split: if_splits option.splits)
qed

lemma scan_down_less: "scan_down cmp xs a j = Some j' \<Longrightarrow> 0 < j \<Longrightarrow> j' < j"
proof (induction cmp xs a j rule: scan_down.induct)
  case (1 cmp xs a j)
  then show ?case by (subst (asm) (2) scan_down.simps) (fastforce split: if_splits option.splits)
qed

function partition :: "('a \<Rightarrow> 'a \<Rightarrow> int) \<Rightarrow> 'a list \<Rightarrow> nat \<Rightarrow> nat \<Rightarrow> nat \<Rightarrow> nat \<Rightarrow> ('a list \<times> nat) option" where
  "partition cmp xs a pn i j =
    (case scan_up cmp xs a pn i of None \<Rightarrow> None
     | Some i' \<Rightarrow>
       (case scan_down cmp xs a j of None \<Rightarrow> None
        | Some j' \<Rightarrow>
            if j' < i' then Some (xs, j')
            else (case swap_elem xs i' j' of None \<Rightarrow> None
                  | Some xs' \<Rightarrow> partition cmp xs' a pn i' j')))"
  by pat_completeness auto
termination
proof (relation "measure (\<lambda>(cmp, xs, a, pn, i, j). j - i)", goal_cases)
  case (2 cmp xs a pn i j i' j' xs')
  then have "i < i'" using scan_up_less by blast
  moreover from this 2 have "0 < j" using scan_down.simps[of cmp xs a 0] by (cases j) auto
  ultimately show ?case using 2 scan_down_less[of cmp xs a j j'] by simp
qed simp

declare partition.simps [simp del]

lemma partition_less: "partition cmp xs a pn i j = Some (ys, j') \<Longrightarrow> 0 < j \<Longrightarrow> j' < j"
proof (induction cmp xs a pn i j rule: partition.induct)
  case (1 cmp xs a pn i j)
  obtain i1 j1 where s: "scan_up cmp xs a pn i = Some i1" "scan_down cmp xs a j = Some j1"
    using 1(2) by (subst (asm) partition.simps) (auto split: option.splits)
  have less: "j1 < j" "i < i1" using s scan_down_less 1(3) scan_up_less by blast+
  show ?case
  proof (cases "j1 < i1")
    case True
    then show ?thesis using 1(2) s less by (subst (asm) partition.simps) simp
  next
    case False
    then obtain xs' where "swap_elem xs i1 j1 = Some xs'" "partition cmp xs' a pn i1 j1 = Some (ys, j')"
      using 1(2) s by (subst (asm) partition.simps) (auto split: option.splits)
    then show ?thesis using 1(1)[OF s False] less False by simp
  qed
qed

text \<open>One turn of the outer loop: pivot to the front, partition, pivot to its place.\<close>

definition qpart :: "('a \<Rightarrow> 'a \<Rightarrow> int) \<Rightarrow> 'a list \<Rightarrow> nat \<Rightarrow> nat \<Rightarrow> ('a list \<times> nat) option" where
  "qpart cmp xs a n =
    do {
      pi \<leftarrow> (if n > 10 then pivot cmp xs a n else Some (a + n div 2));
      xs \<leftarrow> swap_elem xs a pi;
      (xs, pj) \<leftarrow> partition cmp xs a (a + n) a (a + n);
      xs \<leftarrow> swap_elem xs a pj;
      Some (xs, pj - a)
    }"

lemma qpart_less: "qpart cmp xs a n = Some (ys, j) \<Longrightarrow> 1 < n \<Longrightarrow> j < n"
  using partition_less by (fastforce simp: qpart_def bind_eq_Some_conv)

function qsorts :: "('a \<Rightarrow> 'a \<Rightarrow> int) \<Rightarrow> 'a list \<Rightarrow> nat \<Rightarrow> nat \<Rightarrow> 'a list option" where
  "qsorts cmp xs a n =
    (if n > 1 then
       case qpart cmp xs a n of None \<Rightarrow> None
       | Some (xs, j) \<Rightarrow>
          let n' = n - j - 1 in
          if j \<ge> n' then
            (case qsorts cmp xs a j of None \<Rightarrow> None
             | Some xs \<Rightarrow> qsorts cmp xs (a + j + 1) n')
          else
            (case qsorts cmp xs (a + j + 1) n' of None \<Rightarrow> None
             | Some xs \<Rightarrow> qsorts cmp xs a j)
     else Some xs)"
  by pat_completeness auto
termination
  by (relation "measure (\<lambda>(cmp, xs, a, n). n)") (auto dest: qpart_less)

declare qsorts.simps [simp del]

definition qsort :: "('a \<Rightarrow> 'a \<Rightarrow> int) \<Rightarrow> 'a list \<Rightarrow> int \<Rightarrow> 'a list option" where
  "qsort cmp xs n = qsorts cmp xs 0 (nat n)"

section \<open>The sort permutes its range\<close>

lemma swap_elem_eq:
  "i < length xs \<Longrightarrow> j < length xs \<Longrightarrow> swap_elem xs i j = Some (xs[i := xs ! j, j := xs ! i])"
  by (simp add: swap_elem_def rd_def wr_def)

lemma cmp_at_eq: "i < length xs \<Longrightarrow> j < length xs \<Longrightarrow> cmp_at cmp xs i j = Some (cmp (xs ! i) (xs ! j))"
  by (simp add: cmp_at_def rd_def)

lemma scan_up_spec:
  assumes "a < length xs" "pn \<le> length xs" "i < pn"
  obtains i' where "scan_up cmp xs a pn i = Some i'" "i < i'" "i' \<le> pn"
    "\<And>k. i < k \<Longrightarrow> k < i' \<Longrightarrow> cmp (xs ! k) (xs ! a) < 0" "i' < pn \<Longrightarrow> cmp (xs ! i') (xs ! a) \<ge> 0"
proof -
  have "\<exists>i'. scan_up cmp xs a pn i = Some i' \<and> i < i' \<and> i' \<le> pn \<and>
    (\<forall>k. i < k \<longrightarrow> k < i' \<longrightarrow> cmp (xs ! k) (xs ! a) < 0) \<and> (i' < pn \<longrightarrow> cmp (xs ! i') (xs ! a) \<ge> 0)"
    using assms
  proof (induction cmp xs a pn i rule: scan_up.induct)
    case (1 cmp xs a pn i)
    show ?case
    proof (cases "i + 1 < pn \<and> cmp (xs ! (i + 1)) (xs ! a) < 0")
      case True
      then have c: "cmp_at cmp xs (i + 1) a = Some (cmp (xs ! (i + 1)) (xs ! a))" using 1 by (simp add: cmp_at_eq)
      obtain i' where i': "scan_up cmp xs a pn (i + 1) = Some i'" "i + 1 < i'" "i' \<le> pn"
        "\<forall>k. i + 1 < k \<longrightarrow> k < i' \<longrightarrow> cmp (xs ! k) (xs ! a) < 0" "i' < pn \<longrightarrow> cmp (xs ! i') (xs ! a) \<ge> 0"
        using 1(1)[OF _ c] True 1(2-) by auto
      have "cmp (xs ! k) (xs ! a) < 0" if "i < k" "k < i'" for k
        using that i'(4) True by (cases "k = i + 1") auto
      then show ?thesis using i' True c by (subst scan_up.simps) (auto intro: exI[of _ i'])
    next
      case False
      then show ?thesis using 1(2-) by (subst scan_up.simps) (auto simp: cmp_at_eq)
    qed
  qed
  then show thesis using that by blast
qed

lemma scan_down_spec:
  assumes "a < j" "j \<le> length xs"
  obtains j' where "scan_down cmp xs a j = Some j'" "a \<le> j'" "j' < j"
    "\<And>k. j' < k \<Longrightarrow> k < j \<Longrightarrow> cmp (xs ! k) (xs ! a) > 0" "a < j' \<Longrightarrow> cmp (xs ! j') (xs ! a) \<le> 0"
proof -
  have "\<exists>j'. scan_down cmp xs a j = Some j' \<and> a \<le> j' \<and> j' < j \<and>
    (\<forall>k. j' < k \<longrightarrow> k < j \<longrightarrow> cmp (xs ! k) (xs ! a) > 0) \<and> (a < j' \<longrightarrow> cmp (xs ! j') (xs ! a) \<le> 0)"
    using assms
  proof (induction cmp xs a j rule: scan_down.induct)
    case (1 cmp xs a j)
    show ?case
    proof (cases "j - 1 > a \<and> cmp (xs ! (j - 1)) (xs ! a) > 0")
      case True
      then have c: "cmp_at cmp xs (j - 1) a = Some (cmp (xs ! (j - 1)) (xs ! a))" using 1 by (simp add: cmp_at_eq)
      have "j - 1 \<le> length xs" using 1(3) by simp
      then obtain j' where j': "scan_down cmp xs a (j - 1) = Some j'" "a \<le> j'" "j' < j - 1"
        "\<forall>k. j' < k \<longrightarrow> k < j - 1 \<longrightarrow> cmp (xs ! k) (xs ! a) > 0" "a < j' \<longrightarrow> cmp (xs ! j') (xs ! a) \<le> 0"
        using 1(1)[OF _ c] True 1(2-) by auto
      have "cmp (xs ! k) (xs ! a) > 0" if "j' < k" "k < j" for k
        using that j'(4) True by (cases "k = j - 1") auto
      then show ?thesis using j' True c by (subst scan_down.simps) (auto intro: exI[of _ j'])
    next
      case False
      then show ?thesis using 1(2-) by (subst scan_down.simps) (auto simp: cmp_at_eq)
    qed
  qed
  then show thesis using that by blast
qed

text \<open>What one partition keeps, and where it leaves the elements.\<close>

definition same_outside :: "nat \<Rightarrow> nat \<Rightarrow> 'a list \<Rightarrow> 'a list \<Rightarrow> bool" where
  "same_outside a pn xs ys \<longleftrightarrow> mset ys = mset xs \<and> length ys = length xs \<and>
     (\<forall>k < length xs. k < a \<or> pn \<le> k \<longrightarrow> ys ! k = xs ! k)"

lemma same_outside_trans: "same_outside a pn xs ys \<Longrightarrow> same_outside a pn ys zs \<Longrightarrow> same_outside a pn xs zs"
  by (auto simp: same_outside_def)

lemma same_outside_swap:
  "a \<le> i \<Longrightarrow> i < pn \<Longrightarrow> a \<le> j \<Longrightarrow> j < pn \<Longrightarrow> pn \<le> length xs \<Longrightarrow> same_outside a pn xs (xs[i := xs ! j, j := xs ! i])"
  by (auto simp: same_outside_def mset_swap nth_list_update)

lemma partition_spec:
  assumes "a \<le> i" "i \<le> j" "a < j" "i < pn" "j \<le> pn" "pn \<le> length xs"
    "\<And>k. a < k \<Longrightarrow> k \<le> i \<Longrightarrow> cmp (xs ! k) (xs ! a) \<le> 0" "\<And>k. j \<le> k \<Longrightarrow> k < pn \<Longrightarrow> cmp (xs ! k) (xs ! a) \<ge> 0"
  shows "\<exists>ys j'. partition cmp xs a pn i j = Some (ys, j') \<and> same_outside (a + 1) pn xs ys \<and> a \<le> j' \<and> j' < pn \<and>
    (\<forall>k. a < k \<longrightarrow> k \<le> j' \<longrightarrow> cmp (ys ! k) (xs ! a) \<le> 0) \<and> (\<forall>k. j' < k \<longrightarrow> k < pn \<longrightarrow> cmp (ys ! k) (xs ! a) \<ge> 0)"
  using assms
proof (induction cmp xs a pn i j rule: partition.induct)
  case (1 cmp xs a pn i j)
  note pre = 1(2-)
  obtain i' where i': "scan_up cmp xs a pn i = Some i'" "i < i'" "i' \<le> pn"
    "\<And>k. i < k \<Longrightarrow> k < i' \<Longrightarrow> cmp (xs ! k) (xs ! a) < 0" "i' < pn \<Longrightarrow> cmp (xs ! i') (xs ! a) \<ge> 0"
    by (rule scan_up_spec[of a xs pn i cmp]) (use pre in auto)
  obtain j' where j': "scan_down cmp xs a j = Some j'" "a \<le> j'" "j' < j"
    "\<And>k. j' < k \<Longrightarrow> k < j \<Longrightarrow> cmp (xs ! k) (xs ! a) > 0" "a < j' \<Longrightarrow> cmp (xs ! j') (xs ! a) \<le> 0"
    by (rule scan_down_spec[of a j xs cmp]) (use pre in auto)
  have left: "cmp (xs ! k) (xs ! a) \<le> 0" if "a < k" "k < i'" for k
    using that pre(7)[of k] i'(4)[of k] by (cases "k \<le> i") auto
  have right: "cmp (xs ! k) (xs ! a) \<ge> 0" if "j' < k" "k < pn" for k
    using that pre(8)[of k] j'(4)[of k] by (cases "j \<le> k") auto
  show ?case
  proof (cases "j' < i'")
    case True
    then show ?thesis using i' j' left right pre
      by (intro exI[of _ xs] exI[of _ j']) (subst partition.simps, auto simp: same_outside_def)
  next
    case False
    let ?xs = "xs[i' := xs ! j', j' := xs ! i']"
    have b: "i' < length xs" "j' < length xs" "a < i'" "a < j'" using False j' i' pre by auto
    have sw: "swap_elem xs i' j' = Some ?xs" using b by (simp add: swap_elem_eq)
    have at: "?xs ! k = (if k = j' then xs ! i' else if k = i' then xs ! j' else xs ! k)" if "k < length xs" for k
      using that b by (auto simp: nth_list_update)
    have a: "?xs ! a = xs ! a" using b by simp
    have "\<exists>ys m. partition cmp ?xs a pn i' j' = Some (ys, m) \<and> same_outside (a + 1) pn ?xs ys \<and> a \<le> m \<and> m < pn \<and>
      (\<forall>k. a < k \<longrightarrow> k \<le> m \<longrightarrow> cmp (ys ! k) (?xs ! a) \<le> 0) \<and> (\<forall>k. m < k \<longrightarrow> k < pn \<longrightarrow> cmp (ys ! k) (?xs ! a) \<ge> 0)"
    proof (rule 1(1)[OF i'(1) j'(1) False sw])
      show "cmp (?xs ! k) (?xs ! a) \<le> 0" if "a < k" "k \<le> i'" for k
        using that left[of k] j'(5) b False pre at[of k] unfolding a by (auto split: if_splits)
      show "cmp (?xs ! k) (?xs ! a) \<ge> 0" if "j' \<le> k" "k < pn" for k
        using that right[of k] i'(5) b False pre at[of k] j'(3) unfolding a by (auto split: if_splits)
    qed (use pre i' j' False b in auto)
    moreover have "same_outside (a + 1) pn xs ?xs"
      by (rule same_outside_swap) (use pre i' j' False b in auto)
    ultimately show ?thesis using i' j' False sw unfolding a
      by (subst partition.simps) (auto dest: same_outside_trans)
  qed
qed

lemma pivot_range:
  assumes "0 < n" "a + n \<le> length xs"
  shows "\<exists>k. pivot cmp xs a n = Some k \<and> a \<le> k \<and> k < a + n"
proof -
  have "n div 6 + (n div 6 + n div 6) + (n div 6 + n div 6) < n" using assms(1) by linarith
  then show ?thesis using assms by (auto simp: pivot_def Let_def cmp_at_eq)
qed

lemma qpart_spec:
  assumes "1 < n" "a + n \<le> length xs"
  shows "\<exists>ys j. qpart cmp xs a n = Some (ys, j) \<and> j < n \<and> same_outside a (a + n) xs ys \<and>
    (\<forall>k. a \<le> k \<longrightarrow> k < a + j \<longrightarrow> cmp (ys ! k) (ys ! (a + j)) \<le> 0) \<and>
    (\<forall>k. a + j < k \<longrightarrow> k < a + n \<longrightarrow> cmp (ys ! k) (ys ! (a + j)) \<ge> 0)"
proof -
  obtain p where p: "(if n > 10 then pivot cmp xs a n else Some (a + n div 2)) = Some p" "a \<le> p" "p < a + n"
    using pivot_range[of n a xs cmp] assms by (cases "n > 10") auto
  define xs1 where "xs1 = xs[a := xs ! p, p := xs ! a]"
  have 1: "swap_elem xs a p = Some xs1" "same_outside a (a + n) xs xs1"
    using p assms unfolding xs1_def by (auto simp: swap_elem_eq intro!: same_outside_swap)
  have l: "length xs1 = length xs" by (simp add: xs1_def)
  obtain ys j where 2: "partition cmp xs1 a (a + n) a (a + n) = Some (ys, j)" "same_outside (a + 1) (a + n) xs1 ys"
    "a \<le> j" "j < a + n" "\<And>k. a < k \<Longrightarrow> k \<le> j \<Longrightarrow> cmp (ys ! k) (xs1 ! a) \<le> 0"
    "\<And>k. j < k \<Longrightarrow> k < a + n \<Longrightarrow> cmp (ys ! k) (xs1 ! a) \<ge> 0"
    using partition_spec[of a a "a + n" "a + n" xs1 cmp] assms l by fastforce
  have ly: "length ys = length xs" "ys ! a = xs1 ! a" using 2(2) l assms by (auto simp: same_outside_def)
  define zs where "zs = ys[a := ys ! j, j := ys ! a]"
  have 3: "swap_elem ys a j = Some zs" "same_outside a (a + n) ys zs"
    using 2(3,4) ly(1) assms unfolding zs_def by (auto simp: swap_elem_eq intro!: same_outside_swap)
  have z: "zs ! k = (if k = j then ys ! a else if k = a then ys ! j else ys ! k)" if "k < length xs" for k
    using that ly 2(3,4) assms unfolding zs_def by (auto simp: nth_list_update)
  have "same_outside a (a + n) xs zs"
    using 1(2) 2(2) 3(2) by (auto simp: same_outside_def)
  moreover have "cmp (zs ! k) (zs ! j) \<le> 0" if "a \<le> k" "k < j" for k
    using that z[of k] z[of j] 2(4) 2(5)[of k] 2(5)[of j] ly assms by auto
  moreover have "cmp (zs ! k) (zs ! j) \<ge> 0" if "j < k" "k < a + n" for k
    using that z[of k] z[of j] 2(3,4) 2(6)[of k] ly assms by auto
  moreover have "qpart cmp xs a n = Some (zs, j - a)"
    using p 1 2 3 by (simp add: qpart_def)
  ultimately show ?thesis using 2(3,4) by (intro exI[of _ zs] exI[of _ "j - a"]) auto
qed


lemma same_outside_slice:
  assumes "same_outside a (a + n) xs ys" "a + n \<le> length xs"
  shows "take a ys = take a xs" "drop (a + n) ys = drop (a + n) xs"
    "mset (take n (drop a ys)) = mset (take n (drop a xs))"
proof -
  have l: "length ys = length xs" "mset ys = mset xs" using assms by (auto simp: same_outside_def)
  show t: "take a ys = take a xs" using assms by (auto simp: same_outside_def list_eq_iff_nth_eq)
  show d: "drop (a + n) ys = drop (a + n) xs" using assms by (auto simp: same_outside_def list_eq_iff_nth_eq)
  have split: "zs = take a zs @ take n (drop a zs) @ drop (a + n) zs" for zs :: "'a list"
    by (metis add.commute append_take_drop_id drop_drop)
  have "mset (take a xs) + (mset (take n (drop a xs)) + mset (drop (a + n) xs)) =
    mset (take a ys) + (mset (take n (drop a ys)) + mset (drop (a + n) ys))"
    using split[of xs] split[of ys] l(2) by (metis mset_append)
  then show "mset (take n (drop a ys)) = mset (take n (drop a xs))" unfolding t d by simp
qed

lemma qpart_segments:
  assumes "1 < length S"
  obtains L v R where "qpart cmp (P @ S @ T) (length P) (length S) = Some (P @ L @ v # R @ T, length L)"
    "mset (L @ v # R) = mset S" "\<forall>x\<in>set L. cmp x v \<le> 0" "\<forall>x\<in>set R. cmp x v \<ge> 0"
proof -
  let ?a = "length P" and ?n = "length S" and ?xs = "P @ S @ T"
  obtain ys j where q: "qpart cmp ?xs ?a ?n = Some (ys, j)" "j < ?n" "same_outside ?a (?a + ?n) ?xs ys"
    "\<And>k. ?a \<le> k \<Longrightarrow> k < ?a + j \<Longrightarrow> cmp (ys ! k) (ys ! (?a + j)) \<le> 0"
    "\<And>k. ?a + j < k \<Longrightarrow> k < ?a + ?n \<Longrightarrow> cmp (ys ! k) (ys ! (?a + j)) \<ge> 0"
    using qpart_spec[of ?n ?a ?xs cmp] assms by auto
  define S' where "S' = take ?n (drop ?a ys)"
  note sl = same_outside_slice[OF q(3)]
  have l: "length ys = length ?xs" using q(3) by (auto simp: same_outside_def)
  then have ls: "length S' = ?n" by (simp add: S'_def)
  have "ys = take ?a ys @ S' @ drop (?a + ?n) ys" unfolding S'_def
    by (metis add.commute append_take_drop_id drop_drop)
  then have ys: "ys = P @ S' @ T" using sl by simp
  have m: "mset S' = mset S" using sl(3) unfolding S'_def by simp
  have S': "S' = take j S' @ S' ! j # drop (Suc j) S'" using q(2) ls by (simp add: id_take_nth_drop)
  have 1: "cmp x (S' ! j) \<le> 0" if x: "x \<in> set (take j S')" for x
  proof -
    obtain k where "k < j" "x = S' ! k" using x q(2) ls by (auto simp: in_set_conv_nth)
    then show ?thesis using q(4)[of "?a + k"] q(2) ls by (simp add: ys nth_append)
  qed
  have 2: "cmp x (S' ! j) \<ge> 0" if x: "x \<in> set (drop (Suc j) S')" for x
  proof -
    obtain k where "k < length (drop (Suc j) S')" "x = drop (Suc j) S' ! k" using x by (auto simp: in_set_conv_nth)
    then have "Suc j + k < ?n" "x = S' ! (Suc j + k)" using q(2) ls by simp_all
    then show ?thesis using q(5)[of "?a + (Suc j + k)"] q(2) ls by (simp add: ys nth_append)
  qed
  show thesis
  proof (rule that)
    show "qpart cmp ?xs ?a ?n = Some (P @ take j S' @ S' ! j # drop (Suc j) S' @ T, length (take j S'))"
      using q(1,2) ls ys S' by (metis append.assoc append_Cons length_take min.absorb4)
    show "mset (take j S' @ S' ! j # drop (Suc j) S') = mset S" using m S' by simp
  qed (use 1 2 in blast)+
qed

lemma qsorts_step:
  assumes "1 < length S" "qpart cmp (P @ S @ T) (length P) (length S) = Some (P @ L @ v # R @ T, length L)"
    "length S = length L + 1 + length R"
    "\<And>P T. \<exists>L'. qsorts cmp (P @ L @ T) (length P) (length L) = Some (P @ L' @ T) \<and> A L'"
    "\<And>P T. \<exists>R'. qsorts cmp (P @ R @ T) (length P) (length R) = Some (P @ R' @ T) \<and> B R'"
    "\<And>L'. A L' \<Longrightarrow> length L' = length L"
  shows "\<exists>L' R'. qsorts cmp (P @ S @ T) (length P) (length S) = Some (P @ (L' @ v # R') @ T) \<and> A L' \<and> B R'"
proof (cases "length R \<le> length L")
  case True
  obtain L' where L: "qsorts cmp (P @ L @ v # R @ T) (length P) (length L) = Some (P @ L' @ v # R @ T)" "A L'"
    using assms(4)[of P "v # R @ T"] by auto
  obtain R' where R: "qsorts cmp ((P @ L' @ [v]) @ R @ T) (length (P @ L' @ [v])) (length R) = Some ((P @ L' @ [v]) @ R' @ T)" "B R'"
    using assms(5)[of "P @ L' @ [v]" T] by auto
  have "qsorts cmp (P @ S @ T) (length P) (length S) = Some (P @ (L' @ v # R') @ T)"
    using assms(1-3) True L R assms(6)[OF L(2)] by (subst qsorts.simps) (simp add: Let_def)
  then show ?thesis using L R by blast
next
  case False
  obtain R' where R: "qsorts cmp ((P @ L @ [v]) @ R @ T) (length (P @ L @ [v])) (length R) = Some ((P @ L @ [v]) @ R' @ T)" "B R'"
    using assms(5)[of "P @ L @ [v]" T] by auto
  obtain L' where L: "qsorts cmp (P @ L @ v # R' @ T) (length P) (length L) = Some (P @ L' @ v # R' @ T)" "A L'"
    using assms(4)[of P "v # R' @ T"] by auto
  have "qsorts cmp (P @ S @ T) (length P) (length S) = Some (P @ (L' @ v # R') @ T)"
    using assms(1-3) False L R by (subst qsorts.simps) (simp add: Let_def)
  then show ?thesis using L R by blast
qed

lemma qsorts_short: "\<not> 1 < length S \<Longrightarrow> qsorts cmp (P @ S @ T) (length P) (length S) = Some (P @ S @ T)"
  by (subst qsorts.simps) simp

lemma qsorts_permutes:
  "\<exists>S'. qsorts cmp (P @ S @ T) (length P) (length S) = Some (P @ S' @ T) \<and> mset S' = mset S"
proof (induction "length S" arbitrary: P S T rule: less_induct)
  case less
  show ?case
  proof (cases "1 < length S")
    case True
    obtain L v R where q: "qpart cmp (P @ S @ T) (length P) (length S) = Some (P @ L @ v # R @ T, length L)"
      "mset (L @ v # R) = mset S" by (rule qpart_segments[OF True, of cmp P T])
    have "length (L @ v # R) = length S" using q(2) by (rule mset_eq_length)
    then have l: "length S = length L + 1 + length R" by simp
    have "\<exists>L' R'. qsorts cmp (P @ S @ T) (length P) (length S) = Some (P @ (L' @ v # R') @ T) \<and>
       mset L' = mset L \<and> mset R' = mset R"
      by (rule qsorts_step[OF True q(1) l less less]) (use l in \<open>auto dest: mset_eq_length\<close>)
    then obtain L' R' where "qsorts cmp (P @ S @ T) (length P) (length S) = Some (P @ (L' @ v # R') @ T)"
       "mset L' = mset L" "mset R' = mset R" by blast
    then show ?thesis using q(2) by (intro exI[of _ "L' @ v # R'"]) simp
  next
    case False
    then show ?thesis using qsorts_short by blast
  qed
qed

section \<open>Sorting by a total preorder\<close>

locale comparator =
  fixes cmp :: "'a \<Rightarrow> 'a \<Rightarrow> int"
  assumes opposite: "cmp y x \<ge> 0 \<longleftrightarrow> cmp x y \<le> 0"
    and trans: "cmp x y \<le> 0 \<Longrightarrow> cmp y z \<le> 0 \<Longrightarrow> cmp x z \<le> 0"
begin

lemma sorted_around:
  "sorted_wrt (\<lambda>x y. cmp x y \<le> 0) L \<Longrightarrow> sorted_wrt (\<lambda>x y. cmp x y \<le> 0) R \<Longrightarrow>
   \<forall>x\<in>set L. cmp x v \<le> 0 \<Longrightarrow> \<forall>x\<in>set R. cmp x v \<ge> 0 \<Longrightarrow> sorted_wrt (\<lambda>x y. cmp x y \<le> 0) (L @ v # R)"
  by (auto simp: sorted_wrt_append opposite intro: trans)

lemma qsorts_sorts:
  "\<exists>S'. qsorts cmp (P @ S @ T) (length P) (length S) = Some (P @ S' @ T) \<and> mset S' = mset S \<and>
     sorted_wrt (\<lambda>x y. cmp x y \<le> 0) S'"
proof (induction "length S" arbitrary: P S T rule: less_induct)
  case less
  show ?case
  proof (cases "1 < length S")
    case True
    obtain L v R where q: "qpart cmp (P @ S @ T) (length P) (length S) = Some (P @ L @ v # R @ T, length L)"
      "mset (L @ v # R) = mset S" "\<forall>x\<in>set L. cmp x v \<le> 0" "\<forall>x\<in>set R. cmp x v \<ge> 0"
      by (rule qpart_segments[OF True, of cmp P T])
    have "length (L @ v # R) = length S" using q(2) by (rule mset_eq_length)
    then have l: "length S = length L + 1 + length R" by simp
    have "\<exists>L' R'. qsorts cmp (P @ S @ T) (length P) (length S) = Some (P @ (L' @ v # R') @ T) \<and>
       (mset L' = mset L \<and> sorted_wrt (\<lambda>x y. cmp x y \<le> 0) L') \<and> (mset R' = mset R \<and> sorted_wrt (\<lambda>x y. cmp x y \<le> 0) R')"
      by (rule qsorts_step[OF True q(1) l less less]) (use l in \<open>auto dest: mset_eq_length\<close>)
    then obtain L' R' where r: "qsorts cmp (P @ S @ T) (length P) (length S) = Some (P @ (L' @ v # R') @ T)"
       "mset L' = mset L" "mset R' = mset R" "sorted_wrt (\<lambda>x y. cmp x y \<le> 0) L'" "sorted_wrt (\<lambda>x y. cmp x y \<le> 0) R'" by blast
    then have "sorted_wrt (\<lambda>x y. cmp x y \<le> 0) (L' @ v # R')"
      using q(3,4) mset_eq_setD[OF r(2)] mset_eq_setD[OF r(3)] by (intro sorted_around) auto
    then show ?thesis using q(2) r by (intro exI[of _ "L' @ v # R'"]) simp
  next
    case False
    then have "sorted_wrt (\<lambda>x y. cmp x y \<le> 0) S" by (cases S) auto
    then show ?thesis using qsorts_short[OF False] by blast
  qed
qed

end

lemma lexcmp_opposite: "lexcmp ys xs \<ge> 0 \<longleftrightarrow> lexcmp xs ys \<le> 0"
  by (induction xs ys rule: lexcmp.induct) auto

lemma lexcmp_trans: "lexcmp xs ys \<le> 0 \<Longrightarrow> lexcmp ys zs \<le> 0 \<Longrightarrow> lexcmp xs zs \<le> 0"
proof (induction xs ys arbitrary: zs rule: lexcmp.induct)
  case (4 x xs y ys)
  then show ?case by (cases zs) (auto split: if_splits)
next
  case (1)
  then show ?case by simp
next
  case (2 y ys)
  then show ?case by (cases zs) auto
next
  case (3 x xs)
  then show ?case by simp
qed

text \<open>The order \<open>memcmp\<close> and \<open>strncmp\<close> compute is a comparator.\<close>

interpretation byte_order: comparator lexcmp
  by unfold_locales (fact lexcmp_opposite lexcmp_trans)+


section \<open>Exchanging elements held as byte ranges\<close>

lemma swapb_nth:
  assumes "0 < es" "i + es \<le> length b" "j + es \<le> length b" "i + es \<le> j \<or> j + es \<le> i \<or> i = j"
  shows "\<exists>b'. swapb b i j es = Some b' \<and> length b' = length b \<and> (\<forall>k < length b. b' ! k =
    (if i \<le> k \<and> k < i + es then b ! (j + (k - i)) else if j \<le> k \<and> k < j + es then b ! (i + (k - j)) else b ! k))"
  using assms
proof (induction b i j es rule: swapb.induct)
  case (2 b i j es)
  define b1 where "b1 = b[i := b ! j, j := b ! i]"
  have l: "length b1 = length b" by (simp add: b1_def)
  have b1: "b1 ! k = (if k = i then b ! j else if k = j then b ! i else b ! k)" if "k < length b" for k
    using that 2(3,4) by (auto simp: b1_def nth_list_update)
  have s: "swapb b i j (Suc es) = (if es = 0 then Some b1 else swapb b1 (i + 1) (j + 1) es)"
    using 2(3,4) by (simp add: rd_def wr_def b1_def)
  show ?case
  proof (cases "es = 0")
    case True
    then show ?thesis using s l b1 by auto
  next
    case False
    have "\<exists>b'. swapb b1 (i + 1) (j + 1) es = Some b' \<and> length b' = length b1 \<and> (\<forall>k < length b1. b' ! k =
      (if i + 1 \<le> k \<and> k < i + 1 + es then b1 ! (j + 1 + (k - (i + 1)))
       else if j + 1 \<le> k \<and> k < j + 1 + es then b1 ! (i + 1 + (k - (j + 1))) else b1 ! k))"
      by (rule 2(1)[of "b ! i" "b ! j" "b[i := b ! j]" b1])
        (use 2(3-5) False in \<open>auto simp: rd_def wr_def b1_def\<close>)
    then obtain b' where b': "swapb b1 (i + 1) (j + 1) es = Some b'" "length b' = length b"
      "\<And>k. k < length b \<Longrightarrow> b' ! k =
      (if i + 1 \<le> k \<and> k < i + 1 + es then b1 ! (j + 1 + (k - (i + 1)))
       else if j + 1 \<le> k \<and> k < j + 1 + es then b1 ! (i + 1 + (k - (j + 1))) else b1 ! k)"
      using l by auto
    have "b' ! k = (if i \<le> k \<and> k < i + Suc es then b ! (j + (k - i)) else if j \<le> k \<and> k < j + Suc es then b ! (i + (k - j)) else b ! k)"
      if "k < length b" for k
      using b'(3)[OF that] that 2(3-5) b1[of k] b1[of "j + 1 + (k - (i + 1))"] b1[of "i + 1 + (k - (j + 1))"]
      by (cases "k = i") (auto simp: Suc_diff_Suc)
    then show ?thesis using s False b' by auto
  qed
qed simp

definition elem_of :: "nat \<Rightarrow> 'a list \<Rightarrow> nat \<Rightarrow> 'a list" where
  "elem_of es b k = take es (drop (k * es) b)"

section \<open>Properties\<close>

text \<open>
  \<open>swapb\<close> exchanges elements \<open>i\<close> and \<open>j\<close> of an array of \<open>es\<close>-byte elements and leaves every other element as it
  is; so it implements, on bytes, the exchange the sort is stated with.
\<close>

theorem swapb_exchanges:
  assumes "0 < es" "length b = n * es" "i < n" "j < n"
  shows "\<exists>b'. swapb b (i * es) (j * es) es = Some b' \<and> length b' = length b \<and>
    Some (map (elem_of es b') [0..<n]) = swap_elem (map (elem_of es b) [0..<n]) i j"
proof -
  have le: "k * es + es \<le> n * es" if "k < n" for k
    using that mult_le_mono1[of "k + 1" n es] by simp
  have "i * es + es \<le> j * es \<or> j * es + es \<le> i * es \<or> i * es = j * es"
    using mult_le_mono1[of "i + 1" j es] mult_le_mono1[of "j + 1" i es] by (cases i j rule: linorder_cases) auto
  from swapb_nth[OF assms(1) _ _ this, of b] le[OF assms(3)] le[OF assms(4)] obtain b' where
    b': "swapb b (i * es) (j * es) es = Some b'" "length b' = length b"
      "\<And>k. k < length b \<Longrightarrow> b' ! k = (if i * es \<le> k \<and> k < i * es + es then b ! (j * es + (k - i * es))
        else if j * es \<le> k \<and> k < j * es + es then b ! (i * es + (k - j * es)) else b ! k)"
    unfolding assms(2) by auto
  have out: "\<not> (k * es \<le> m * es + r \<and> m * es + r < k * es + es)" if "r < es" "k \<noteq> m" for k m r
    using that mult_le_mono1[of "k + 1" m es] mult_le_mono1[of "m + 1" k es]
    by (cases k m rule: linorder_cases) auto
  have e: "elem_of es b' m = (if m = i then elem_of es b j else if m = j then elem_of es b i else elem_of es b m)"
    if "m < n" for m
  proof (rule nth_equalityI)
    have l: "length (elem_of es c k) = es" if "length c = length b" "k < n" for c :: "'a list" and k
      using that le[of k] assms(2) by (simp add: elem_of_def)
    show "length (elem_of es b' m) = length (if m = i then elem_of es b j else if m = j then elem_of es b i else elem_of es b m)"
      using l assms(3,4) that b'(2) by simp
    fix r assume "r < length (elem_of es b' m)"
    then have r: "r < es" using l that b'(2) by simp
    have nth: "elem_of es c k ! r = c ! (k * es + r)" if "k < n" "length c = length b" for k and c :: "'a list"
    proof -
      have "k * es \<le> length c" using le[OF that(1)] that(2) assms(2) by linarith
      then show ?thesis using r by (simp add: elem_of_def)
    qed
    have "m * es + r < length b" using le[OF that] r assms(2) by simp
    then have "b' ! (m * es + r) = (if m = i then b ! (j * es + r) else if m = j then b ! (i * es + r) else b ! (m * es + r))"
      using b'(3)[of "m * es + r"] out[OF r, of i m] out[OF r, of j m] r by auto
    then show "elem_of es b' m ! r = (if m = i then elem_of es b j else if m = j then elem_of es b i else elem_of es b m) ! r"
      using nth that assms(3,4) b'(2) by simp
  qed
  have "swap_elem (map (elem_of es b) [0..<n]) i j = Some (map (elem_of es b') [0..<n])"
    using assms(3,4) e by (auto simp: swap_elem_eq list_eq_iff_nth_eq nth_list_update)
  then show ?thesis using b' by auto
qed

theorem swapb_exchanges_witness:
  "\<exists>b'. swapb [1, 2, 3, 4, 5, 6 :: u8] 0 4 2 = Some b' \<and> length b' = length [1, 2, 3, 4, 5, 6 :: u8] \<and>
    Some (map (elem_of 2 b') [0..<3]) = swap_elem (map (elem_of 2 [1, 2, 3, 4, 5, 6 :: u8]) [0..<3]) 0 2"
  using swapb_exchanges[of 2 "[1, 2, 3, 4, 5, 6 :: u8]" 3 0 2] by simp

text \<open>
  C34. For every comparison function, consistent or not, \<open>qsort\<close> terminates, never reads or writes outside the
  first \<open>n\<close> elements, and leaves a permutation of them.
\<close>

theorem qsort_permutes:
  assumes "nat n \<le> length xs"
  shows "\<exists>S. qsort cmp xs n = Some (S @ drop (nat n) xs) \<and> mset S = mset (take (nat n) xs)"
  using qsorts_permutes[of cmp "[]" "take (nat n) xs" "drop (nat n) xs"] assms by (simp add: qsort_def)

theorem qsort_permutes_witness:
  "\<exists>S. qsort (\<lambda>x y. 1) [3, 1, 2 :: int] 2 = Some (S @ [2]) \<and> mset S = {#3, 1#}"
  using qsort_permutes[of 2 "[3, 1, 2 :: int]" "\<lambda>x y. 1"] by simp

text \<open>
  C33. When the comparison function is a total preorder (\<open>cmp(y, x) >= 0\<close> exactly when \<open>cmp(x, y) <= 0\<close>, and \<open><=\<close>
  is transitive), \<open>qsort\<close> leaves the first \<open>n\<close> elements sorted, as a permutation of what they were.
\<close>

theorem qsort_sorts:
  assumes "comparator cmp" "nat n \<le> length xs"
  shows "\<exists>S. qsort cmp xs n = Some (S @ drop (nat n) xs) \<and> mset S = mset (take (nat n) xs) \<and>
    sorted_wrt (\<lambda>x y. cmp x y \<le> 0) S"
  using comparator.qsorts_sorts[OF assms(1), of "[]" "take (nat n) xs" "drop (nat n) xs"] assms(2)
  by (simp add: qsort_def)

theorem qsort_sorts_witness:
  "\<exists>S. qsort lexcmp [[0x62], [0x61, 0x63], [0x61]] 3 = Some S \<and> mset S = {#[0x62], [0x61, 0x63], [0x61]#} \<and>
    sorted_wrt (\<lambda>x y. lexcmp x y \<le> 0) S"
  using qsort_sorts[OF byte_order.comparator_axioms, of 3 "[[0x62], [0x61, 0x63], [0x61]]"] by simp

end
