(* ===== verification/Geometry.thy ===== *)
theory Geometry
  imports Prelude
begin

text \<open>
  Points and rectangles of the graphics library: \<open>src/kernel/Libgeometry/arith.c\<close>,
  \<open>replclipr_geom.c\<close> and \<open>resolution.c\<close>. Coordinates are signed 32-bit integers, kept as integers with
  the wrap-around \<open>i32\<close> of each operation. A rectangle contains the points from its minimum
  (included) to its maximum (excluded). The theorems read the operations as operations on point sets.
\<close>

record Point =
  px :: int
  py :: int

record Rectangle =
  rmin :: Point
  rmax :: Point

section \<open>Arithmetic\<close>

definition Pt :: "int \<Rightarrow> int \<Rightarrow> Point" where
  "Pt x y = \<lparr>px = x, py = y\<rparr>"

definition Rect :: "int \<Rightarrow> int \<Rightarrow> int \<Rightarrow> int \<Rightarrow> Rectangle" where
  "Rect ax ay bx by' = \<lparr>rmin = Pt ax ay, rmax = Pt bx by'\<rparr>"

definition Rpt :: "Point \<Rightarrow> Point \<Rightarrow> Rectangle" where
  "Rpt mn mx = \<lparr>rmin = mn, rmax = mx\<rparr>"

definition addpt :: "Point \<Rightarrow> Point \<Rightarrow> Point" where
  "addpt a b = Pt (i32 (px a + px b)) (i32 (py a + py b))"

definition subpt :: "Point \<Rightarrow> Point \<Rightarrow> Point" where
  "subpt a b = Pt (i32 (px a - px b)) (i32 (py a - py b))"

definition insetrect :: "Rectangle \<Rightarrow> int \<Rightarrow> Rectangle" where
  "insetrect r n = Rpt (Pt (i32 (px (rmin r) + n)) (i32 (py (rmin r) + n)))
     (Pt (i32 (px (rmax r) - n)) (i32 (py (rmax r) - n)))"

definition divpt :: "Point \<Rightarrow> int \<Rightarrow> Point option" where
  "divpt a b = (if b = 0 then None else Some (Pt (i32 (px a sdiv b)) (i32 (py a sdiv b))))"

definition mulpt :: "Point \<Rightarrow> int \<Rightarrow> Point" where
  "mulpt a b = Pt (i32 (px a * b)) (i32 (py a * b))"

definition rectsubpt :: "Rectangle \<Rightarrow> Point \<Rightarrow> Rectangle" where
  "rectsubpt r p = Rpt (subpt (rmin r) p) (subpt (rmax r) p)"

definition rectaddpt :: "Rectangle \<Rightarrow> Point \<Rightarrow> Rectangle" where
  "rectaddpt r p = Rpt (addpt (rmin r) p) (addpt (rmax r) p)"

definition eqpt :: "Point \<Rightarrow> Point \<Rightarrow> bool" where
  "eqpt p q \<longleftrightarrow> px p = px q \<and> py p = py q"

definition eqrect :: "Rectangle \<Rightarrow> Rectangle \<Rightarrow> bool" where
  "eqrect r s \<longleftrightarrow> px (rmin r) = px (rmin s) \<and> px (rmax r) = px (rmax s) \<and>
     py (rmin r) = py (rmin s) \<and> py (rmax r) = py (rmax s)"

definition rectXrect :: "Rectangle \<Rightarrow> Rectangle \<Rightarrow> bool" where
  "rectXrect r s \<longleftrightarrow> px (rmin r) < px (rmax s) \<and> px (rmin s) < px (rmax r) \<and>
     py (rmin r) < py (rmax s) \<and> py (rmin s) < py (rmax r)"

definition rectinrect :: "Rectangle \<Rightarrow> Rectangle \<Rightarrow> bool" where
  "rectinrect r s \<longleftrightarrow> px (rmin s) \<le> px (rmin r) \<and> px (rmax r) \<le> px (rmax s) \<and>
     py (rmin s) \<le> py (rmin r) \<and> py (rmax r) \<le> py (rmax s)"

definition ptinrect :: "Point \<Rightarrow> Rectangle \<Rightarrow> bool" where
  "ptinrect p r \<longleftrightarrow> px p \<ge> px (rmin r) \<and> px p < px (rmax r) \<and> py p \<ge> py (rmin r) \<and> py p < py (rmax r)"

definition canonrect :: "Rectangle \<Rightarrow> Rectangle" where
  "canonrect r =
    (let r = (if px (rmax r) < px (rmin r)
              then r\<lparr>rmin := (rmin r)\<lparr>px := px (rmax r)\<rparr>, rmax := (rmax r)\<lparr>px := px (rmin r)\<rparr>\<rparr> else r)
     in if py (rmax r) < py (rmin r)
        then r\<lparr>rmin := (rmin r)\<lparr>py := py (rmax r)\<rparr>, rmax := (rmax r)\<lparr>py := py (rmin r)\<rparr>\<rparr> else r)"

definition combinerect :: "Rectangle \<Rightarrow> Rectangle \<Rightarrow> Rectangle" where
  "combinerect r1 r2 =
    (let r1 = (if px (rmin r1) > px (rmin r2) then r1\<lparr>rmin := (rmin r1)\<lparr>px := px (rmin r2)\<rparr>\<rparr> else r1);
         r1 = (if py (rmin r1) > py (rmin r2) then r1\<lparr>rmin := (rmin r1)\<lparr>py := py (rmin r2)\<rparr>\<rparr> else r1);
         r1 = (if px (rmax r1) < px (rmax r2) then r1\<lparr>rmax := (rmax r1)\<lparr>px := px (rmax r2)\<rparr>\<rparr> else r1)
     in (if py (rmax r1) < py (rmax r2) then r1\<lparr>rmax := (rmax r1)\<lparr>py := py (rmax r2)\<rparr>\<rparr> else r1))"

section \<open>Clipping and replication\<close>

text \<open>\<open>rectclip\<close> yields its result and the rectangle it leaves in its first argument.\<close>

definition rectclip :: "Rectangle \<Rightarrow> Rectangle \<Rightarrow> bool \<times> Rectangle" where
  "rectclip r b =
    (if \<not> (px (rmin r) < px (rmax b) \<and> px (rmin b) < px (rmax r) \<and>
           py (rmin r) < py (rmax b) \<and> py (rmin b) < py (rmax r))
     then (False, r)
     else
       let r = (if px (rmin r) < px (rmin b) then r\<lparr>rmin := (rmin r)\<lparr>px := px (rmin b)\<rparr>\<rparr> else r);
           r = (if py (rmin r) < py (rmin b) then r\<lparr>rmin := (rmin r)\<lparr>py := py (rmin b)\<rparr>\<rparr> else r);
           r = (if px (rmax r) > px (rmax b) then r\<lparr>rmax := (rmax r)\<lparr>px := px (rmax b)\<rparr>\<rparr> else r);
           r = (if py (rmax r) > py (rmax b) then r\<lparr>rmax := (rmax r)\<lparr>py := py (rmax b)\<rparr>\<rparr> else r)
       in (True, r))"

definition drawreplxy :: "int \<Rightarrow> int \<Rightarrow> int \<Rightarrow> int option" where
  "drawreplxy mn mx x =
    (if i32 (mx - mn) = 0 then None
     else
       let sx = i32 (x - mn) smod i32 (mx - mn);
           sx = (if sx < 0 then i32 (sx + i32 (mx - mn)) else sx)
       in Some (i32 (sx + mn)))"

definition drawrepl :: "Rectangle \<Rightarrow> Point \<Rightarrow> Point option" where
  "drawrepl r p =
    do {
      x \<leftarrow> drawreplxy (px (rmin r)) (px (rmax r)) (px p);
      y \<leftarrow> drawreplxy (py (rmin r)) (py (rmax r)) (py p);
      Some (Pt x y)
    }"

section \<open>Scan line sizes\<close>

text \<open>\<open>None\<close> is the \<open>abort\<close> on a wrong depth; \<open>u\<close> is the number of bits per unit, 8 or 32.\<close>

definition unitsperline :: "Rectangle \<Rightarrow> int \<Rightarrow> int \<Rightarrow> int option" where
  "unitsperline r d u =
    (if d \<le> 0 \<or> d > 32 then None
     else if px (rmin r) \<ge> 0 then
       let l = i32 (i32 (px (rmax r) * d) + u - 1) sdiv u;
           l = l - i32 (px (rmin r) * d) sdiv u
       in Some (i32 l)
     else
       let t = i32 (i32 (i32 (- px (rmin r)) * d) + u - 1) sdiv u;
           l = t + i32 (i32 (px (rmax r) * d) + u - 1) sdiv u
       in Some (i32 l))"

definition wordsperline :: "Rectangle \<Rightarrow> int \<Rightarrow> int option" where
  "wordsperline r d = unitsperline r d (8 * 4)"

definition bytesperline :: "Rectangle \<Rightarrow> int \<Rightarrow> int option" where
  "bytesperline r d = unitsperline r d 8"

section \<open>Rectangles as point sets\<close>

text \<open>
  C6. \<open>rectclip\<close> computes the intersection: when it answers yes the rectangle contains exactly the points of
  both; when it answers no the rectangle is unchanged and no point is in both.
\<close>

theorem rectclip_intersection:
  "case rectclip r b of (ok, r') \<Rightarrow>
     (if ok then (\<forall>p. ptinrect p r' \<longleftrightarrow> ptinrect p r \<and> ptinrect p b) \<and> rectinrect r' r \<and> rectinrect r' b
      else r' = r \<and> (\<nexists>p. ptinrect p r \<and> ptinrect p b)) \<and> (ok \<longleftrightarrow> rectXrect r b)"
  by (auto simp: rectclip_def Let_def ptinrect_def rectXrect_def rectinrect_def)

text \<open>
  C7. Bounding boxes. \<open>combinerect\<close> is the least rectangle around both arguments; \<open>rectinrect\<close> decides
  inclusion of point sets when the first rectangle has a point; and \<open>canonrect\<close> orders each coordinate
  on its own: the corners of the result are the least and the greatest of the two values of \<open>x\<close> and of
  \<open>y\<close>, whichever of the two pairs were swapped.
\<close>

theorem rectangle_order:
  "(rectinrect (combinerect r s) t \<longleftrightarrow> rectinrect r t \<and> rectinrect s t)
   \<and> (ptinrect p r \<longrightarrow> (rectinrect r s \<longleftrightarrow> (\<forall>q. ptinrect q r \<longrightarrow> ptinrect q s)))
   \<and> canonrect r = Rect (min (px (rmin r)) (px (rmax r))) (min (py (rmin r)) (py (rmax r)))
                       (max (px (rmin r)) (px (rmax r))) (max (py (rmin r)) (py (rmax r)))"
proof (intro conjI impI)
  show "rectinrect (combinerect r s) t \<longleftrightarrow> rectinrect r t \<and> rectinrect s t"
    by (auto simp: combinerect_def rectinrect_def Let_def)
  show "canonrect r = Rect (min (px (rmin r)) (px (rmax r))) (min (py (rmin r)) (py (rmax r)))
                       (max (px (rmin r)) (px (rmax r))) (max (py (rmin r)) (py (rmax r)))"
    by (simp add: canonrect_def Let_def Rect_def Pt_def)
  assume "ptinrect p r"
  then have ne: "px (rmin r) < px (rmax r)" "py (rmin r) < py (rmax r)" by (auto simp: ptinrect_def)
  show "rectinrect r s \<longleftrightarrow> (\<forall>q. ptinrect q r \<longrightarrow> ptinrect q s)"
  proof
    assume all: "\<forall>q. ptinrect q r \<longrightarrow> ptinrect q s"
    have "ptinrect (rmin r) r" "ptinrect (Pt (px (rmax r) - 1) (py (rmax r) - 1)) r"
      using ne by (auto simp: ptinrect_def Pt_def)
    then have "ptinrect (rmin r) s" "ptinrect (Pt (px (rmax r) - 1) (py (rmax r) - 1)) s"
      using all by blast+
    then show "rectinrect r s" by (auto simp: ptinrect_def rectinrect_def Pt_def)
  qed (auto simp: ptinrect_def rectinrect_def)
qed

theorem rectangle_order_witness:
  "rectinrect (combinerect (Rect 0 0 4 4) (Rect 2 2 9 3)) (Rect 0 0 9 4)
   \<and> \<not> (\<forall>q. ptinrect q (Rect 0 0 4 4) \<longrightarrow> ptinrect q (Rect 2 2 9 3))
   \<and> canonrect (Rect 5 1 2 8) = Rect 2 1 5 8"
proof -
  have "ptinrect (Pt 1 1) (Rect 0 0 4 4)" by (simp add: ptinrect_def Pt_def Rect_def)
  then have "\<not> (\<forall>q. ptinrect q (Rect 0 0 4 4) \<longrightarrow> ptinrect q (Rect 2 2 9 3))"
    using rectangle_order[of "Rect 0 0 4 4" "Rect 2 2 9 3" "Rect 0 0 9 4" "Pt 1 1"]
    by (simp add: rectinrect_def Rect_def Pt_def)
  moreover have "rectinrect (combinerect (Rect 0 0 4 4) (Rect 2 2 9 3)) (Rect 0 0 9 4)"
    using rectangle_order[of "Rect 0 0 4 4" "Rect 2 2 9 3" "Rect 0 0 9 4" "Pt 1 1"]
    by (simp add: rectinrect_def Rect_def Pt_def)
  moreover have "canonrect (Rect 5 1 2 8) = Rect 2 1 5 8"
    using rectangle_order[of "Rect 5 1 2 8"] by (simp add: Rect_def Pt_def)
  ultimately show ?thesis by blast
qed

section \<open>Replication and scan lines\<close>

lemma smod_fix:
  fixes a w :: int
  assumes "0 < w"
  shows "(if a smod w < 0 then a smod w + w else a smod w) = a mod w"
proof (cases "0 \<le> a")
  case True
  then have "a smod w = a mod w"
    using assms by (simp add: signed_modulo_int_def signed_divide_int_def sgn_if minus_div_mult_eq_mod)
  then show ?thesis using pos_mod_sign[OF assms, of a] by simp
next
  case False
  have "a smod w = - (- a mod w)"
    using False assms by (simp add: signed_modulo_int_def signed_divide_int_def sgn_if minus_div_mult_eq_mod algebra_simps)
  moreover have "- a mod w = (if a mod w = 0 then 0 else w - a mod w)" by (simp add: zmod_zminus1_eq_if)
  ultimately show ?thesis using pos_mod_bound[OF assms, of a] pos_mod_sign[OF assms, of a] by auto
qed


lemma drawreplxy_mod:
  assumes "mn < mx" "- 2147483648 \<le> x - mn" "x - mn < 2147483648" "mx - mn < 2147483648"
    "- 2147483648 \<le> mn" "mx \<le> 2147483647"
  shows "drawreplxy mn mx x = Some ((x - mn) mod (mx - mn) + mn)"
proof -
  let ?w = "mx - mn"
  have w: "0 < ?w" "i32 ?w = ?w" "i32 (x - mn) = x - mn" using assms by (simp_all add: i32_id)
  note sm = smod_fix[OF w(1), of "x - mn"]
  have b: "0 \<le> (x - mn) mod ?w" "(x - mn) mod ?w < ?w" using w(1) by simp_all
  have neg: "i32 ((x - mn) smod ?w + ?w) = (x - mn) mod ?w" if "(x - mn) smod ?w < 0"
  proof -
    have "(x - mn) smod ?w + ?w = (x - mn) mod ?w" using that sm by simp
    moreover have "i32 ((x - mn) mod ?w) = (x - mn) mod ?w" by (rule i32_id) (use b assms(4) in linarith)+
    ultimately show ?thesis by simp
  qed
  have "i32 ((x - mn) mod ?w + mn) = (x - mn) mod ?w + mn"
    by (rule i32_id) (use b assms in linarith)+
  then show ?thesis using w sm neg by (auto simp: drawreplxy_def Let_def split: if_splits)
qed

lemma sdiv_pos: "0 < u \<Longrightarrow> 0 \<le> a \<Longrightarrow> a sdiv u = a div (u::int)"
  by (auto simp: signed_divide_int_def sgn_if)

text \<open>
  \<open>drawreplxy\<close> maps a coordinate into the replicated interval: the result is in \<open>[min, max)\<close> and differs from
  the coordinate by a multiple of the width, as long as the interval is not empty and the differences do
  not overflow.
\<close>

theorem drawreplxy_replicates:
  assumes "mn < mx" "- 2147483648 \<le> x - mn" "x - mn < 2147483648" "mx - mn < 2147483648"
    "- 2147483648 \<le> mn" "mx \<le> 2147483647"
  shows "\<exists>y. drawreplxy mn mx x = Some y \<and> mn \<le> y \<and> y < mx \<and> (mx - mn) dvd (x - y)"
proof -
  let ?w = "mx - mn"
  have "(x - mn) mod ?w < ?w" "0 \<le> (x - mn) mod ?w" using assms(1) by simp_all
  moreover have "?w dvd (x - mn) - (x - mn) mod ?w" by (simp add: minus_mod_eq_mult_div)
  then have "?w dvd x - ((x - mn) mod ?w + mn)" by (simp add: algebra_simps)
  ultimately show ?thesis using drawreplxy_mod[OF assms] by auto
qed

theorem drawreplxy_replicates_witness:
  "\<exists>y. drawreplxy 10 14 (- 3) = Some y \<and> 10 \<le> y \<and> y < 14 \<and> (14 - 10) dvd (- 3 - y)"
  by (rule drawreplxy_replicates) simp_all

text \<open>
  A scan line is long enough: for a rectangle with \<open>min.x <= max.x\<close>, \<open>max.x >= 0\<close> and coordinates small enough
  not to overflow, the number of \<open>u\<close>-bit units is the number of units from the one holding the first bit
  of the line to the one holding its last bit.
\<close>

theorem unitsperline_covers:
  assumes "0 < d" "d \<le> 32" "u = 8 \<or> u = 32" "px (rmin r) \<le> px (rmax r)" "0 \<le> px (rmax r)"
    "- 33554432 \<le> px (rmin r)" "px (rmax r) < 33554432"
  shows "unitsperline r d u = Some ((px (rmax r) * d + u - 1) div u - px (rmin r) * d div u)"
proof -
  let ?a = "px (rmin r)" and ?b = "px (rmax r)"
  have u: "0 < u" "u \<le> 32" using assms by auto
  define A B where "A = ?a * d" and "B = ?b * d"
  have B: "0 \<le> B" "B \<le> 1073741824" using assms mult_mono[of ?b 33554432 d 32] by (auto simp: B_def)
  have iB: "i32 (i32 B + u - 1) sdiv u = (B + u - 1) div u" using B u by (simp add: i32_id sdiv_pos)
  have div_le: "0 \<le> x \<Longrightarrow> x div u \<le> x" "0 \<le> x \<Longrightarrow> 0 \<le> x div u" for x
    using assms(3) by (elim disjE; simp)+
  have qB: "0 \<le> (B + u - 1) div u" "(B + u - 1) div u \<le> 1073741855"
    using div_le[of "B + u - 1"] B u by linarith+
  show ?thesis
  proof (cases "?a \<ge> 0")
    case True
    have A: "0 \<le> A" "A \<le> 1073741824" using True assms mult_mono[of ?a 33554432 d 32] by (auto simp: A_def)
    have "i32 A sdiv u = A div u" using A u by (simp add: i32_id sdiv_pos)
    moreover have "i32 ((B + u - 1) div u - A div u) = (B + u - 1) div u - A div u"
      by (rule i32_id) (use qB div_le[of A] A in linarith)+
    ultimately show ?thesis
      using True assms iB unfolding A_def B_def by (simp add: unitsperline_def Let_def)
  next
    case False
    have A: "0 \<le> - A" "- A \<le> 1073741824"
      using False assms mult_mono[of "- ?a" 33554432 d 32] by (auto simp: A_def mult_le_0_iff)
    have m: "i32 (- ?a) * d = - A" using False assms by (simp add: i32_id A_def)
    have "i32 (i32 (- A) + u - 1) sdiv u = (- A + u - 1) div u" using A u by (simp add: i32_id sdiv_pos)
    also have "\<dots> = - (A div u)" using assms(3) by (elim disjE; simp; presburger)
    finally have t: "i32 (i32 (i32 (- ?a) * d) + u - 1) sdiv u = - (A div u)" unfolding m .
    have qA: "0 \<le> - (A div u)" "- (A div u) \<le> 200000000"
      using assms(3) A by (elim disjE; simp; presburger)+
    have "i32 (- (A div u) + (B + u - 1) div u) = - (A div u) + (B + u - 1) div u"
      by (rule i32_id) (use qA qB in linarith)+
    then show ?thesis
      using False assms(1,2) iB t unfolding A_def B_def by (simp add: unitsperline_def Let_def)
  qed
qed

theorem unitsperline_covers_witness:
  "unitsperline (Rect (- 3) 0 10 1) 4 8 = Some ((10 * 4 + 8 - 1) div 8 - (- 3) * 4 div 8)"
  using unitsperline_covers[of 4 8 "Rect (- 3) 0 10 1"] by (simp add: Rect_def Pt_def)

end
