(* ===== verification/Chan.thy ===== *)
theory Chan
  imports Cstring
begin

text \<open>
  Image channel descriptors, \<open>src/kernel/Libgeometry/chan.c\<close>: a 32-bit word of up to four bytes, the
  channel type in the high nibble of each and the number of bits in the low one. \<open>chantodepth\<close> sums
  the bits, \<open>chantostr\<close> prints a descriptor (such as \<open>r5g6b5\<close>) and \<open>strtochan\<close> parses one.
\<close>

definition NBITS :: "u32 \<Rightarrow> u32" where "NBITS c = c AND 15"
definition TYPE_of :: "u32 \<Rightarrow> u32" where "TYPE_of c = drop_bit 4 c AND 15"
definition NChan :: u32 where "NChan = 7"
definition DC :: "u32 \<Rightarrow> u32 \<Rightarrow> u32" where "DC t n = push_bit 4 (t AND 15) OR (n AND 15)"

definition channames :: buf where "channames = [0x72, 0x67, 0x62, 0x6B, 0x61, 0x6D, 0x78, 0]"

lemma shift8_less: "c \<noteq> 0 \<Longrightarrow> unat (drop_bit 8 (c::u32)) < unat c"
  by (simp add: unat_drop_bit32 unat_gt_0)

function chantodepth_loop :: "u32 \<Rightarrow> nat \<Rightarrow> nat option" where
  "chantodepth_loop c n =
    (if c = 0 then Some n
     else if TYPE_of c \<ge> NChan \<or> NBITS c > 8 \<or> NBITS c \<le> 0 then None
     else chantodepth_loop (drop_bit 8 c) (n + unat (NBITS c)))"
  by pat_completeness auto
termination
  by (relation "measure (\<lambda>(c, n). unat c)") (auto simp: shift8_less)

definition bad_depth :: "nat \<Rightarrow> bool" where
  "bad_depth n \<longleftrightarrow> n = 0 \<or> (n > 8 \<and> n mod 8 \<noteq> 0) \<or> (n < 8 \<and> 8 mod n \<noteq> 0)"

definition chantodepth :: "u32 \<Rightarrow> nat" where
  "chantodepth c =
    (case chantodepth_loop c 0 of None \<Rightarrow> 0 | Some n \<Rightarrow> if bad_depth n then 0 else n)"

function chan_reverse :: "u32 \<Rightarrow> u32 \<Rightarrow> u32" where
  "chan_reverse c rc =
    (if c = 0 then rc else chan_reverse (drop_bit 8 c) (push_bit 8 rc OR (c AND 0xFF)))"
  by pat_completeness auto
termination
  by (relation "measure (\<lambda>(c, rc). unat c)") (auto simp: shift8_less)

text \<open>The bytes \<open>chantostr\<close> stores; an index past \<open>channames\<close> reads outside it.\<close>

function chan_print :: "u32 \<Rightarrow> buf option" where
  "chan_print c =
    (if c = 0 then Some [0]
     else (case rd channames (unat (TYPE_of c)) of None \<Rightarrow> None
           | Some t \<Rightarrow> map_option (\<lambda>r. t # (0x30 + ucast (NBITS c)) # r) (chan_print (drop_bit 8 c))))"
  by pat_completeness auto
termination
  by (relation "measure unat") (auto simp: shift8_less)

declare chantodepth_loop.simps [simp del] chan_reverse.simps [simp del] chan_print.simps [simp del]

text \<open>The inner \<open>None\<close> is the null result.\<close>

definition chantostr :: "u32 \<Rightarrow> buf option option" where
  "chantostr cc =
    (if chantodepth cc = 0 then Some None
     else map_option Some (chan_print (chan_reverse cc 0)))"

definition isspace :: "u8 \<Rightarrow> bool" where
  "isspace c \<longleftrightarrow> c = 0x20 \<or> c = 0x09 \<or> c = 0x0D \<or> c = 0x0A"

function strtochan_loop :: "buf \<Rightarrow> nat \<Rightarrow> nat \<Rightarrow> u32 \<Rightarrow> (nat \<times> u32) option option" where
  "strtochan_loop s p depth chan =
    (case rd s p of None \<Rightarrow> None
     | Some c \<Rightarrow>
        if c \<noteq> 0 \<and> \<not> isspace c then
          (case strchr channames 0 (scast c) of
             None \<Rightarrow> None
           | Some None \<Rightarrow> Some None
           | Some (Some t) \<Rightarrow>
              (case rd s (p + 1) of None \<Rightarrow> None
               | Some d \<Rightarrow>
                  if d < 0x30 \<or> d > 0x39 then Some None
                  else strtochan_loop s (p + 2) (depth + (unat d - 48))
                         (push_bit 8 chan OR DC (word_of_nat t) (word_of_nat (unat d - 48)))))
        else Some (Some (depth, chan)))"
  by pat_completeness auto
termination
  by (relation "measure (\<lambda>(s, p, depth, chan). length s - p)") (auto simp: rd_Some_iff)

declare strtochan_loop.simps [simp del]

definition strtochan :: "buf \<Rightarrow> nat \<Rightarrow> u32 option" where
  "strtochan s p =
    do {
      p \<leftarrow> skip_while (\<lambda>c. c \<noteq> 0 \<and> isspace c) s p;
      r \<leftarrow> strtochan_loop s p 0 0;
      Some (case r of None \<Rightarrow> 0 | Some (depth, chan) \<Rightarrow> if bad_depth depth then 0 else chan)
    }"

section \<open>Descriptors as lists of bytes\<close>

text \<open>The bytes of a descriptor, the most significant (first) channel first.\<close>

definition chan_ok :: "u8 \<Rightarrow> bool" where
  "chan_ok b \<longleftrightarrow> unat b div 16 < 7 \<and> 1 \<le> unat b mod 16 \<and> unat b mod 16 \<le> 8"

definition chan_cat :: "u32 \<Rightarrow> u8 list \<Rightarrow> u32" where
  "chan_cat c bs = foldl (\<lambda>c b. push_bit 8 c OR ucast b) c bs"

lemma chan_cat_simps [simp]:
  "chan_cat c [] = c" "chan_cat c (b # bs) = chan_cat (push_bit 8 c OR ucast b) bs"
  "chan_cat c (bs @ bs') = chan_cat (chan_cat c bs) bs'"
  by (simp_all add: chan_cat_def)

lemma unat_cat:
  fixes c :: u32
  assumes "unat c < 16777216"
  shows "unat (push_bit 8 c OR ucast (b::u8)) = unat c * 256 + unat b"
proof -
  have b: "unat (ucast b :: u32) = unat b" "unat b < 256" using unat_ucast8[of b] unat8_less[of b] by simp_all
  have "unat (push_bit 8 c OR ucast b) = unat c * 2 ^ 8 + unat (ucast b :: u32)"
    by (rule unat_shift_or) (use assms b in auto)
  then show ?thesis using b by simp
qed

lemma nibble_high: "b < 256 \<Longrightarrow> (c * 256 + b) div 16 mod 16 = (b::nat) div 16"
proof -
  assume b: "b < 256"
  have "c * 256 + b = b + c * 16 * 16" by simp
  then have "(c * 256 + b) div 16 = c * 16 + b div 16" by simp
  then show ?thesis using b by simp
qed

lemma cat_parts:
  fixes c :: u32
  assumes "unat c < 16777216"
  shows "drop_bit 8 (push_bit 8 c OR ucast (b::u8)) = c"
    "(push_bit 8 c OR ucast b) AND 0xFF = ucast b"
    "NBITS (push_bit 8 c OR ucast b) = word_of_nat (unat b mod 16)"
    "TYPE_of (push_bit 8 c OR ucast b) = word_of_nat (unat b div 16)"
proof -
  have b: "unat b < 256" using unat8_less[of b] by simp
  note u = unat_cat[OF assms, of b]
  show "drop_bit 8 (push_bit 8 c OR ucast b) = c"
    unfolding word_unat_eq_iff unat_drop_bit32 u using b by simp
  have "w AND 0xFF = take_bit 8 w" for w :: u32 by (simp add: take_bit_eq_mask mask_eq_decr_exp)
  then have "(push_bit 8 c OR ucast b) AND 0xFF = take_bit 8 (push_bit 8 c OR ucast b)" .
  then show "(push_bit 8 c OR ucast b) AND 0xFF = ucast b"
    unfolding word_unat_eq_iff unat_take_bit32 u unat_ucast8 using b by simp
  have m: "w AND 15 = take_bit 4 w" for w :: u32 by (simp add: take_bit_eq_mask mask_eq_decr_exp)
  have "(unat c * 256 + unat b) mod 16 = unat b mod 16" by (simp add: mod_add_eq[symmetric])
  then show "NBITS (push_bit 8 c OR ucast b) = word_of_nat (unat b mod 16)"
    unfolding NBITS_def m word_unat_eq_iff unat_take_bit32 u by (simp add: unat_of_nat)
  have "(unat c * 256 + unat b) div 16 mod 16 = unat b div 16"
    using b by (rule nibble_high)
  then show "TYPE_of (push_bit 8 c OR ucast b) = word_of_nat (unat b div 16)"
    unfolding TYPE_of_def m word_unat_eq_iff unat_take_bit32 unat_drop_bit32 u using b by (simp add: unat_of_nat)
qed

lemma chan_cat_bound: "length bs \<le> 4 \<Longrightarrow> unat (chan_cat 0 bs) < 256 ^ length bs"
proof (induction bs rule: rev_induct)
  case (snoc b bs)
  then have "(256::nat) ^ length bs \<le> 256 ^ 3" by (intro power_increasing) auto
  then have "unat (chan_cat 0 bs) < 16777216" using snoc by simp
  then show ?case using snoc unat_cat[of "chan_cat 0 bs" b] unat8_less[of b] by simp
qed simp

lemma chan_cat_small: "length bs \<le> 3 \<Longrightarrow> unat (chan_cat 0 bs) < 16777216"
  using chan_cat_bound[of bs] power_increasing[of "length bs" 3 "256::nat"] by simp

lemma chan_cat_snoc:
  assumes "length (bs @ [b]) \<le> 4" "chan_ok b"
  shows "chan_cat 0 (bs @ [b]) \<noteq> 0" "drop_bit 8 (chan_cat 0 (bs @ [b])) = chan_cat 0 bs"
    "chan_cat 0 (bs @ [b]) AND 0xFF = ucast b"
    "unat (NBITS (chan_cat 0 (bs @ [b]))) = unat b mod 16" "unat (TYPE_of (chan_cat 0 (bs @ [b]))) = unat b div 16"
proof -
  have s: "unat (chan_cat 0 bs) < 16777216" by (rule chan_cat_small) (use assms in simp)
  note p = cat_parts[OF s, of b]
  have "unat b \<noteq> 0" using assms(2) by (auto simp: chan_ok_def)
  then show "chan_cat 0 (bs @ [b]) \<noteq> 0" using unat_cat[OF s, of b] by (auto simp: word_unat_eq_iff)
  show "drop_bit 8 (chan_cat 0 (bs @ [b])) = chan_cat 0 bs" "chan_cat 0 (bs @ [b]) AND 0xFF = ucast b"
    using p by (simp_all del: drop_bit_or)
  have "unat b mod 16 < 2 ^ 32" "unat b div 16 < 2 ^ 32" using unat8_less[of b] by (simp_all add: less_le_trans[of _ 16] div_less_dividend)
  then show "unat (NBITS (chan_cat 0 (bs @ [b]))) = unat b mod 16" "unat (TYPE_of (chan_cat 0 (bs @ [b]))) = unat b div 16"
    using p(3,4) by (simp_all add: unat_of_nat)
qed

lemma unat_le_NBITS: "w \<le> 8 \<longleftrightarrow> unat (w::u32) \<le> 8" "w \<le> 0 \<longleftrightarrow> unat w = 0" "7 \<le> w \<longleftrightarrow> 7 \<le> unat w"
  "8 < w \<longleftrightarrow> 8 < unat w"
  by (simp_all add: word_le_nat_alt word_less_nat_alt unat_eq_0)

lemma depth_loop_cat:
  "length bs \<le> 4 \<Longrightarrow> \<forall>b\<in>set bs. chan_ok b \<Longrightarrow>
   chantodepth_loop (chan_cat 0 bs) n = Some (n + (\<Sum>b\<leftarrow>bs. unat b mod 16))"
proof (induction bs arbitrary: n rule: rev_induct)
  case Nil
  then show ?case by (simp add: chantodepth_loop.simps)
next
  case (snoc b bs)
  have ok: "chan_ok b" "length (bs @ [b]) \<le> 4" using snoc.prems by auto
  note p = chan_cat_snoc[OF ok(2,1)]
  have "\<not> (TYPE_of (chan_cat 0 (bs @ [b])) \<ge> NChan \<or> NBITS (chan_cat 0 (bs @ [b])) > 8 \<or> NBITS (chan_cat 0 (bs @ [b])) \<le> 0)"
    using p(4,5) ok(1) by (auto simp: unat_le_NBITS NChan_def chan_ok_def not_le word_gt_0 word_unat_eq_iff simp del: chan_cat_simps)
  then have "chantodepth_loop (chan_cat 0 (bs @ [b])) n = chantodepth_loop (chan_cat 0 bs) (n + unat b mod 16)"
    using p(1,2,4) by (subst chantodepth_loop.simps) (simp del: chan_cat_simps)
  then show ?case using snoc by (simp del: chan_cat_simps add: add.assoc)
qed

lemma depth_loop_bytes:
  "chantodepth_loop c n \<noteq> None \<Longrightarrow> unat c < 256 ^ k \<Longrightarrow> k \<le> 4 \<Longrightarrow>
   \<exists>bs. length bs \<le> k \<and> (\<forall>b\<in>set bs. chan_ok b) \<and> c = chan_cat 0 bs"
proof (induction k arbitrary: c n)
  case 0
  then show ?case by (intro exI[of _ "[]"]) (simp add: word_unat_eq_iff)
next
  case (Suc k)
  show ?case
  proof (cases "c = 0")
    case False
    have st: "\<not> (TYPE_of c \<ge> NChan \<or> NBITS c > 8 \<or> NBITS c \<le> 0)"
      "chantodepth_loop (drop_bit 8 c) (n + unat (NBITS c)) \<noteq> None"
      using Suc.prems(1) False by (subst (asm) chantodepth_loop.simps, simp split: if_splits)+
    have lt: "unat (drop_bit 8 c) < 256 ^ k" using Suc.prems(2) by (simp add: unat_drop_bit32 less_mult_imp_div_less mult.commute)
    from Suc.IH[OF st(2) lt] Suc.prems(3) obtain bs where
      bs: "length bs \<le> k" "\<forall>b\<in>set bs. chan_ok b" "drop_bit 8 c = chan_cat 0 bs" by auto
    have sm: "unat (drop_bit 8 c) < 16777216" using unat32_less[of c] by (simp add: unat_drop_bit32 less_mult_imp_div_less)
    define b :: u8 where "b = ucast c"
    have b: "unat b = unat c mod 256" by (simp add: b_def unsigned_ucast_eq take_bit_eq_mod)
    have "unat c = unat (push_bit 8 (drop_bit 8 c) OR ucast b)"
      unfolding unat_cat[OF sm] b unat_drop_bit32 by simp
    then have c: "c = push_bit 8 (drop_bit 8 c) OR ucast b" by (simp only: word_unat_eq_iff)
    then have c': "c = chan_cat 0 (bs @ [b])" unfolding bs(3)[symmetric] by (simp add: bs(3))
    have "NBITS c = word_of_nat (unat b mod 16)" "TYPE_of c = word_of_nat (unat b div 16)"
      using cat_parts(3,4)[OF sm, of b] c by metis+
    then have "unat (NBITS c) = unat b mod 16" "unat (TYPE_of c) = unat b div 16"
      using unat8_less[of b] by (simp_all add: unat_of_nat)
    then have "chan_ok b" using st(1) by (simp add: chan_ok_def NChan_def word_le_nat_alt not_le word_less_nat_alt Suc_le_eq)
    then show ?thesis using bs c' by (intro exI[of _ "bs @ [b]"]) (simp del: chan_cat_simps)
  qed (auto intro: exI[of _ "[]"])
qed

lemma chan_reverse_cat:
  "length bs \<le> 4 \<Longrightarrow> \<forall>b\<in>set bs. chan_ok b \<Longrightarrow> chan_reverse (chan_cat 0 bs) rc = chan_cat rc (rev bs)"
proof (induction bs arbitrary: rc rule: rev_induct)
  case Nil
  then show ?case by (simp add: chan_reverse.simps)
next
  case (snoc b bs)
  have ok: "chan_ok b" "length (bs @ [b]) \<le> 4" using snoc.prems by auto
  have "chan_reverse (chan_cat 0 (bs @ [b])) rc = chan_reverse (chan_cat 0 bs) (push_bit 8 rc OR ucast b)"
    using chan_cat_snoc[OF ok(2,1)] by (subst chan_reverse.simps) (simp del: chan_cat_simps)
  then show ?case using snoc by simp
qed

definition chan_enc :: "u8 \<Rightarrow> u8 list" where
  "chan_enc b = [channames ! (unat b div 16), 0x30 + word_of_nat (unat b mod 16)]"

lemma chan_print_cat:
  "length bs \<le> 4 \<Longrightarrow> \<forall>b\<in>set bs. chan_ok b \<Longrightarrow> chan_print (chan_cat 0 bs) = Some (concat (map chan_enc (rev bs)) @ [0])"
proof (induction bs rule: rev_induct)
  case Nil
  then show ?case by (simp add: chan_print.simps)
next
  case (snoc b bs)
  have ok: "chan_ok b" "length (bs @ [b]) \<le> 4" using snoc.prems by auto
  note p = chan_cat_snoc[OF ok(2,1)]
  have "rd channames (unat b div 16) = Some (channames ! (unat b div 16))"
    using ok(1) by (simp add: rd_def channames_def chan_ok_def)
  moreover have "(ucast (NBITS (chan_cat 0 (bs @ [b]))) :: u8) = word_of_nat (unat b mod 16)"
    unfolding p(4)[symmetric] by simp
  ultimately show ?case
    using p snoc by (subst chan_print.simps) (simp add: chan_enc_def[of b] del: chan_cat_simps)
qed


lemma channame_parse:
  "t < 7 \<Longrightarrow> channames ! t \<noteq> 0 \<and> \<not> isspace (channames ! t) \<and> strchr channames 0 (scast (channames ! t)) = Some (Some t)"
proof -
  have "list_all (\<lambda>t. channames ! t \<noteq> 0 \<and> \<not> isspace (channames ! t) \<and>
    strchr channames 0 (scast (channames ! t)) = Some (Some t)) [0..<7]" by code_simp
  then show "t < 7 \<Longrightarrow> ?thesis" unfolding list_all_iff by auto
qed

lemma chandigit_parse:
  "n < 9 \<Longrightarrow> \<not> (0x30 + word_of_nat n < (0x30::u8) \<or> 0x30 + word_of_nat n > (0x39::u8)) \<and> unat (0x30 + word_of_nat n :: u8) - 48 = n"
proof -
  have "list_all (\<lambda>n. \<not> (0x30 + word_of_nat n < (0x30::u8) \<or> 0x30 + word_of_nat n > (0x39::u8)) \<and>
    unat (0x30 + word_of_nat n :: u8) - 48 = n) [0..<9]" by code_simp
  then show "n < 9 \<Longrightarrow> ?thesis" unfolding list_all_iff by auto
qed

lemma DC_nibbles: "t < 7 \<Longrightarrow> n < 9 \<Longrightarrow> DC (word_of_nat t) (word_of_nat n) = word_of_nat (16 * t + n)"
proof -
  have "list_all (\<lambda>t. list_all (\<lambda>n. DC (word_of_nat t) (word_of_nat n) = word_of_nat (16 * t + n)) [0..<9]) [0..<7]"
    by code_simp
  then show "t < 7 \<Longrightarrow> n < 9 \<Longrightarrow> ?thesis" unfolding list_all_iff by auto
qed

lemma chan_enc_parse:
  assumes "chan_ok b" "chan_enc b = [t, d]"
  shows "t \<noteq> 0 \<and> \<not> isspace t" "strchr channames 0 (scast t) = Some (Some (unat b div 16))"
     "\<not> (d < 0x30 \<or> d > 0x39)" "unat d - 48 = unat b mod 16"
     "DC (word_of_nat (unat b div 16)) (word_of_nat (unat b mod 16)) = ucast b"
proof -
  have b: "unat b div 16 < 7" "unat b mod 16 < 9" using assms(1) by (auto simp: chan_ok_def)
  have t: "t = channames ! (unat b div 16)" "d = 0x30 + word_of_nat (unat b mod 16)"
    using assms(2) by (simp_all add: chan_enc_def)
  show "t \<noteq> 0 \<and> \<not> isspace t" "strchr channames 0 (scast t) = Some (Some (unat b div 16))"
    using channame_parse[OF b(1)] t(1) by auto
  show "\<not> (d < 0x30 \<or> d > 0x39)" "unat d - 48 = unat b mod 16" using chandigit_parse[OF b(2)] t(2) by auto
  have "16 * (unat b div 16) + unat b mod 16 = unat b" by simp
  then show "DC (word_of_nat (unat b div 16)) (word_of_nat (unat b mod 16)) = ucast b"
    using DC_nibbles[OF b] by simp
qed

lemma strtochan_loop_enc:
  "\<forall>b\<in>set bs. chan_ok b \<Longrightarrow>
   strtochan_loop (pre @ concat (map chan_enc bs) @ [0]) (length pre) d c =
     Some (Some (d + (\<Sum>b\<leftarrow>bs. unat b mod 16), chan_cat c bs))"
proof (induction bs arbitrary: pre d c)
  case Nil
  then show ?case by (subst strtochan_loop.simps) simp
next
  case (Cons b bs)
  obtain t e where te: "chan_enc b = [t, e]" by (auto simp: chan_enc_def)
  have ok: "t \<noteq> 0" "\<not> isspace t" "strchr channames 0 (scast t) = Some (Some (unat b div 16))"
     "\<not> (e < 0x30 \<or> e > 0x39)" "unat e - 48 = unat b mod 16"
     "DC (word_of_nat (unat b div 16)) (word_of_nat (unat b mod 16)) = ucast b"
    using chan_enc_parse[OF _ te] Cons.prems by auto
  have rd1: "rd (pre @ t # e # rest) (length pre + 1) = Some e" for rest
    using rd_mid[of "pre @ [t]" e rest] by simp
  have "strtochan_loop ((pre @ [t, e]) @ concat (map chan_enc bs) @ [0]) (length (pre @ [t, e]))
      (d + unat b mod 16) (push_bit 8 c OR ucast b) =
     Some (Some (d + unat b mod 16 + (\<Sum>b\<leftarrow>bs. unat b mod 16), chan_cat (push_bit 8 c OR ucast b) bs))"
    by (rule Cons.IH) (use Cons.prems in simp)
  then show ?case using te ok rd1 by (subst strtochan_loop.simps) (simp add: add.assoc)
qed

text \<open>
  C8. Printing and parsing channel descriptors: for every descriptor \<open>chantodepth\<close> accepts, \<open>chantostr\<close> yields a
  terminated string of at most eight characters (the caller's buffer holds nine bytes), and \<open>strtochan\<close>
  reads the same descriptor back from it.
\<close>

theorem chan_round_trip:
  assumes "chantodepth c \<noteq> 0"
  shows "\<exists>s. chantostr c = Some (Some s) \<and> length s \<le> 9 \<and> last s = 0 \<and> strtochan s 0 = Some c"
proof -
  have "chantodepth_loop c 0 \<noteq> None" using assms by (auto simp: chantodepth_def split: option.splits)
  moreover have "unat c < 256 ^ 4" using unat32_less[of c] by simp
  ultimately obtain bs where bs: "length bs \<le> 4" "\<forall>b\<in>set bs. chan_ok b" "c = chan_cat 0 bs"
    using depth_loop_bytes[of c 0 4] by auto
  let ?d = "\<Sum>b\<leftarrow>bs. unat b mod 16"
  have d: "\<not> bad_depth ?d" "bs \<noteq> []" using assms depth_loop_cat[OF bs(1,2), of 0]
    by (auto simp: chantodepth_def bs(3) bad_depth_def split: if_splits)
  define s where "s = concat (map chan_enc bs) @ [0]"
  have p: "chantostr c = Some (Some s)"
    using assms chan_reverse_cat[OF bs(1,2), of 0] chan_print_cat[of "rev bs"] bs
    by (simp add: chantostr_def s_def)
  have len: "length s = 2 * length bs + 1" by (simp add: s_def length_concat chan_enc_def comp_def sum_list_triv)
  have "skip_while (\<lambda>c. c \<noteq> 0 \<and> isspace c) s 0 = Some 0"
  proof -
    obtain b bs' where b: "bs = b # bs'" using d(2) by (cases bs) auto
    obtain t e where te: "chan_enc b = [t, e]" by (auto simp: chan_enc_def)
    then have "\<not> isspace t" using chan_enc_parse(1)[OF _ te] b bs(2) by auto
    then show ?thesis using b te by (subst skip_while.simps) (simp add: s_def rd_def)
  qed
  moreover have "strtochan_loop s 0 0 0 = Some (Some (?d, c))"
    using strtochan_loop_enc[OF bs(2), of "[]" 0 0] by (simp add: s_def bs(3))
  ultimately have "strtochan s 0 = Some c" using d(1) by (simp add: strtochan_def)
  then show ?thesis using p len bs(1) by (intro exI[of _ s]) (simp add: s_def)
qed

theorem chan_round_trip_witness:
  "\<exists>s. chantostr 0x051625 = Some (Some s) \<and> length s \<le> 9 \<and> last s = 0 \<and> strtochan s 0 = Some 0x051625"
proof -
  have "chantodepth 0x051625 \<noteq> 0" by code_simp
  from chan_round_trip[OF this] show ?thesis .
qed

lemma strtochan_accepts_rejected:
  "strtochan [0x72, 0x39, 0x67, 0x37, 0] 0 = Some 0x0917 \<and> chantodepth 0x0917 = 0"
  by code_simp

end
