(* ===== verification/Xalloc_Refine.thy ===== *)
theory Xalloc_Refine
  imports Xalloc
begin

text \<open>
  The pointer program of \<open>Xalloc\<close> implements the operations on interval lists: \<open>xrep st H k\<close> relates a state to
  its holes \<open>H\<close> and the number \<open>k\<close> of unused entries. On top of it, the locale \<open>block_allocator\<close> is the contract a
  client of \<open>xalloc\<close> relies on, interpreted on the model, and the properties of the allocator.
\<close>

section \<open>Giving memory back\<close>

text \<open>What the word comparisons of the scan say about the intervals.\<close>

lemma scan_data:
  assumes "hole_wf h"
  shows "h_top h = addr \<longleftrightarrow> fst (hole_data h) + snd (hole_data h) = unat addr"
    "addr < h_addr h \<longleftrightarrow> unat addr < fst (hole_data h)" "h_addr h \<le> addr \<longleftrightarrow> fst (hole_data h) \<le> unat addr"
  using assms by (auto simp: hole_wf_def hole_data_def word_unat_eq_iff word_less_nat_alt word_le_nat_alt)

lemma xinv_update:
  assumes "xinv st ids fs" "i \<in> set ids" "h_next h = h_next (x_hole st ! i)" "hole_wf h"
  shows "xinv (st\<lparr>x_hole := (x_hole st)[i := h]\<rparr>) ids fs"
proof -
  let ?hs = "(x_hole st)[i := h]"
  have "h_next (?hs ! k) = h_next (x_hole st ! k)" for k
    using assms(3) by (cases "k = i"; cases "i < length (x_hole st)") (auto simp: list_update_beyond not_less)
  then have "path ?hs p is q \<longleftrightarrow> path (x_hole st) p is q" for p "is" q by (intro path_cong) auto
  moreover have "hole_wf (?hs ! k)" if "k \<in> set ids" for k
    using that assms xinv_less[OF assms(1)] by (cases "k = i") (auto simp: xinv_def)
  ultimately show ?thesis using assms(1) by (simp add: xinv_def)
qed

lemma holes_of_split:
  assumes "distinct (us @ v # vs)" "v < length hs"
  shows "holes_of (hs[v := h]) (us @ v # vs) = holes_of hs us @ hole_data h # holes_of hs vs"
  using assms by (simp add: holes_of_upd)

text \<open>The growing case: the region is appended to hole \<open>v\<close>, which may then touch its successor.\<close>

lemma xhole_grow_merge:
  assumes inv: "xinv st (us @ v # j # vs) fs"
    and h: "h = (x_hole st ! v)\<lparr>h_size := s', h_top := t'\<rparr>" and j: "t' = h_addr (x_hole st ! j)"
    and wf: "unat t' = unat (h_addr (x_hole st ! v)) + unat s'"
  shows "xinv (st\<lparr>x_hole := (x_hole st)[v := h\<lparr>h_top := h_top h + h_size (x_hole st ! j), h_size := h_size h + h_size (x_hole st ! j),
      h_next := h_next (x_hole st ! j)\<rparr>, j := (x_hole st ! j)\<lparr>h_next := x_unused st\<rparr>], x_unused := Some j\<rparr>) (us @ v # vs) (j # fs)"
    (is "xinv (st\<lparr>x_hole := ?hs, x_unused := Some j\<rparr>) _ _")
proof -
  have b: "v < length (x_hole st)" "j < length (x_hole st)" using xinv_less[OF inv] by auto
  have d: "distinct (us @ v # j # vs @ fs)" using inv by (simp add: xinv_def)
  have nv: "?hs ! v = h\<lparr>h_top := h_top h + h_size (x_hole st ! j), h_size := h_size h + h_size (x_hole st ! j),
      h_next := h_next (x_hole st ! j)\<rparr>" "?hs ! j = (x_hole st ! j)\<lparr>h_next := x_unused st\<rparr>"
    using b d by (simp_all add: nth_list_update)
  have other: "?hs ! k = x_hole st ! k" if "k \<noteq> v" "k \<noteq> j" for k using that by simp
  have pc: "path ?hs p is q \<longleftrightarrow> path (x_hole st) p is q" if "v \<notin> set is" "j \<notin> set is" for p "is" q
  proof (rule path_cong)
    show "\<forall>i\<in>set is. h_next (?hs ! i) = h_next (x_hole st ! i)" using that other by metis
  qed simp
  have p: "path (x_hole st) (x_sorted st) us (Some v)" "h_next (x_hole st ! v) = Some j"
    "path (x_hole st) (h_next (x_hole st ! j)) vs None" "path (x_hole st) (x_unused st) fs None"
    using inv by (auto simp: xinv_def path_append)
  have "path ?hs (x_sorted st) (us @ v # vs) None"
    using p d b pc[of us] pc[of vs] nv by (auto simp: path_append h)
  moreover have "path ?hs (Some j) (j # fs) None" using p(4) pc[of fs] d b nv by auto
  moreover have "hole_wf (?hs ! v)"
  proof -
    have wj: "unat (h_top (x_hole st ! j)) = unat t' + unat (h_size (x_hole st ! j))"
      using inv j by (auto simp: xinv_def hole_wf_def)
    then have lt: "unat t' + unat (h_size (x_hole st ! j)) < 4294967296" using unat32_less[of "h_top (x_hole st ! j)"] by simp
    then show ?thesis using wf unfolding nv(1) unfolding hole_wf_def h by (simp add: unat_add32)
  qed
  moreover have "hole_wf (?hs ! k)" if "k \<in> set us \<or> k \<in> set vs" for k
  proof -
    have "k \<noteq> v" "k \<noteq> j" using that d by auto
    then show ?thesis using other[of k] that inv by (auto simp: xinv_def)
  qed
  ultimately show ?thesis using inv d by (auto simp: xinv_def)
qed

lemma holes_of_merge:
  assumes "distinct (us @ v # j # vs)" "v < length hs" "j < length hs"
  shows "holes_of (hs[v := h, j := h']) (us @ v # vs) = holes_of hs us @ hole_data h # holes_of hs vs"
proof -
  have "holes_of (hs[v := h, j := h']) (us @ v # vs) = holes_of (hs[v := h]) (us @ v # vs)"
    using assms by (intro holes_of_upd) auto
  then show ?thesis using assms holes_of_split[of us v vs hs h] by simp
qed

lemma xhole_grow_refines:
  assumes inv: "xinv st (us @ v # vs) fs" and top: "h_top (x_hole st ! v) = addr"
    and s: "unat addr + unat sz < 4294967296"
  shows "\<exists>st' ids' fs'. xhole_grow st v sz = Some st' \<and> xinv st' ids' fs' \<and> x_mem st' = x_mem st \<and>
    holes_of (x_hole st') ids' = holes_of (x_hole st) us @
      merge_hole (fst (hole_data (x_hole st ! v))) (snd (hole_data (x_hole st ! v)) + unat sz) (holes_of (x_hole st) vs) \<and>
    length ids' + length fs' = length (us @ v # vs) + length fs"
proof -
  define h where "h = x_hole st ! v"
  define h' where "h' = h\<lparr>h_size := h_size h + sz, h_top := h_addr h + (h_size h + sz)\<rparr>"
  have b: "v < length (x_hole st)" using xinv_less[OF inv] by auto
  have wf: "unat (h_top h) = unat (h_addr h) + unat (h_size h)" using inv by (auto simp: xinv_def hole_wf_def h_def)
  have us: "unat (h_size h + sz) = unat (h_size h) + unat sz" using wf s top by (simp add: unat_add32 h_def)
  have ut: "unat (h_addr h + (h_size h + sz)) = unat (h_addr h) + unat (h_size h + sz)"
    using wf s top us by (subst unat_add32) (simp_all add: h_def)
  have wf': "hole_wf h'" using ut by (simp add: hole_wf_def h'_def)
  have hd': "hole_data h' = (fst (hole_data h), snd (hole_data h) + unat sz)" using us by (simp add: hole_data_def h'_def)
  have g: "xhole_grow st v sz = (case h_next h of None \<Rightarrow> Some (st\<lparr>x_hole := (x_hole st)[v := h']\<rparr>)
      | Some j \<Rightarrow> do { c \<leftarrow> rd ((x_hole st)[v := h']) j;
            if h_top h' = h_addr c then
              Some (st\<lparr>x_hole := (x_hole st)[v := h'\<lparr>h_top := h_top h' + h_size c, h_size := h_size h' + h_size c, h_next := h_next c\<rparr>, j := c\<lparr>h_next := x_unused st\<rparr>], x_unused := Some j\<rparr>)
            else Some (st\<lparr>x_hole := (x_hole st)[v := h']\<rparr>) })"
    using b by (auto simp: xhole_grow_def rd_def h_def h'_def Let_def split: option.splits)
  have keep: "xinv (st\<lparr>x_hole := (x_hole st)[v := h']\<rparr>) (us @ v # vs) fs"
    by (rule xinv_update[OF inv _ _ wf']) (auto simp: h'_def h_def)
  have d: "distinct (us @ v # vs)" using inv by (auto simp: xinv_def)
  note sp = holes_of_split[OF d b, of h']
  have nx: "h_next h = first_entry vs" using inv by (cases vs) (auto simp: xinv_def path_append first_entry_def h_def)
  show ?thesis
  proof (cases vs)
    case Nil
    then show ?thesis using g nx keep sp hd'
      by (intro exI[of _ "st\<lparr>x_hole := (x_hole st)[v := h']\<rparr>"] exI[of _ "us @ v # vs"] exI[of _ fs])
        (auto simp: first_entry_def h_def)
  next
    case (Cons j vs')
    define c where "c = x_hole st ! j"
    have j: "j < length (x_hole st)" "j \<noteq> v" using xinv_less[OF inv] Cons d by auto
    have wc: "hole_wf c" using inv Cons by (simp add: xinv_def c_def)
    have test: "h_top h' = h_addr c \<longleftrightarrow> fst (hole_data h) + (snd (hole_data h) + unat sz) = fst (hole_data c)"
      using ut us by (simp add: word_unat_eq_iff hole_data_def h'_def)
    have rc: "rd ((x_hole st)[v := h']) j = Some c" using j by (simp add: rd_def c_def)
    show ?thesis
    proof (cases "h_top h' = h_addr c")
      case False
      then show ?thesis using g nx keep sp hd' rc Cons test
        by (intro exI[of _ "st\<lparr>x_hole := (x_hole st)[v := h']\<rparr>"] exI[of _ "us @ v # vs"] exI[of _ fs])
          (auto simp: first_entry_def h_def c_def hole_data_def)
    next
      case True
      define h2 where "h2 = h'\<lparr>h_top := h_top h' + h_size c, h_size := h_size h' + h_size c, h_next := h_next c\<rparr>"
      have "xinv (st\<lparr>x_hole := (x_hole st)[v := h2, j := c\<lparr>h_next := x_unused st\<rparr>], x_unused := Some j\<rparr>) (us @ v # vs') (j # fs)"
        unfolding h2_def c_def
        by (rule xhole_grow_merge[where s'="h_size h + sz" and t'="h_addr h + (h_size h + sz)"])
          (use inv Cons True ut in \<open>simp_all add: h'_def h_def c_def\<close>)
      moreover have "hole_data h2 = (fst (hole_data h), snd (hole_data h) + unat sz + snd (hole_data c))"
      proof -
        have "unat (h_top c) = unat (h_addr c) + unat (h_size c)" using wc by (simp add: hole_wf_def)
        then have "unat (h_size h') + unat (h_size c) < 4294967296"
          using True ut unat32_less[of "h_top c"] us by (auto simp: h'_def)
        then have "unat (h_size h' + h_size c) = unat (h_size h') + unat (h_size c)" by (rule unat_add32)
        then show ?thesis using us by (simp add: hole_data_def h2_def h'_def)
      qed
      moreover have "holes_of ((x_hole st)[v := h2, j := c\<lparr>h_next := x_unused st\<rparr>]) (us @ v # vs') =
          holes_of (x_hole st) us @ hole_data h2 # holes_of (x_hole st) vs'"
        by (rule holes_of_merge) (use d Cons b j in auto)
      moreover have "xhole_grow st v sz = Some (st\<lparr>x_hole := (x_hole st)[v := h2, j := c\<lparr>h_next := x_unused st\<rparr>], x_unused := Some j\<rparr>)"
        using g nx rc Cons True by (simp add: first_entry_def h2_def)
      ultimately show ?thesis using test True Cons
        by (intro exI[of _ "st\<lparr>x_hole := (x_hole st)[v := h2, j := c\<lparr>h_next := x_unused st\<rparr>], x_unused := Some j\<rparr>"] exI[of _ "us @ v # vs'"] exI[of _ "j # fs"])
          (auto simp: h_def c_def hole_data_def)
    qed
  qed
qed

definition hole_core :: "Hole \<Rightarrow> u32 \<times> u32 \<times> u32" where
  "hole_core h = (h_addr h, h_top h, h_size h)"

lemma hole_core_eq:
  assumes "\<And>k. hole_core (hs' ! k) = hole_core (hs ! k)"
  shows "holes_of hs' is = holes_of hs is" "hole_wf (hs' ! k) = hole_wf (hs ! k)"
proof -
  have a: "h_addr (hs' ! k) = h_addr (hs ! k)" "h_top (hs' ! k) = h_top (hs ! k)" "h_size (hs' ! k) = h_size (hs ! k)" for k
    using assms[of k] by (auto simp: hole_core_def)
  show "holes_of hs' is = holes_of hs is" by (simp add: holes_of_def hole_data_def a)
  show "hole_wf (hs' ! k) = hole_wf (hs ! k)" by (simp add: hole_wf_def a)
qed

lemma set_link_path:
  assumes "path (x_hole st) (x_sorted st) us q" "distinct us"
  shows "\<exists>st'. set_link st (last_link None us) v = Some st' \<and> path (x_hole st') (x_sorted st') us v \<and>
    x_unused st' = x_unused st \<and> x_mem st' = x_mem st \<and> length (x_hole st') = length (x_hole st) \<and>
    (\<forall>k. k \<notin> set us \<longrightarrow> x_hole st' ! k = x_hole st ! k) \<and> (\<forall>k. hole_core (x_hole st' ! k) = hole_core (x_hole st ! k))"
proof (cases us rule: rev_cases)
  case Nil
  then show ?thesis by (simp add: set_link_def last_link_def)
next
  case (snoc us' z)
  let ?hs = "x_hole st" and ?h = "(x_hole st ! z)\<lparr>h_next := v\<rparr>"
  have z: "z < length ?hs" "z \<notin> set us'" using assms snoc by (auto simp: path_append)
  have sl: "set_link st (last_link None us) v = Some (st\<lparr>x_hole := ?hs[z := ?h]\<rparr>)"
    using z snoc by (simp add: set_link_def last_link_def rd_def)
  have "path (?hs[z := ?h]) (x_sorted st) us v" unfolding snoc
  proof (rule path_relink[OF assms(1)[unfolded snoc] z(2)])
    show "\<forall>i\<in>set us'. h_next (?hs[z := ?h] ! i) = h_next (?hs ! i)" using z(2) by (metis nth_list_update_neq)
  qed (use z in simp_all)
  moreover have "hole_core (?hs[z := ?h] ! k) = hole_core (?hs ! k)" for k
    using z(1) by (cases "k = z") (simp_all add: hole_core_def)
  ultimately show ?thesis using sl snoc by (intro exI[of _ "st\<lparr>x_hole := ?hs[z := ?h]\<rparr>"]) auto
qed

lemma xhole_insert_refines:
  assumes inv: "xinv st (us @ vs) fs" and s: "unat addr + unat sz < 4294967296"
  shows "\<exists>st' ids' fs'. xhole_insert st (last_link None us) addr sz = Some st' \<and> xinv st' ids' fs' \<and> x_mem st' = x_mem st \<and>
    holes_of (x_hole st') ids' = holes_of (x_hole st) us @
      (if fs = [] then [] else [(unat addr, unat sz)]) @ holes_of (x_hole st) vs \<and>
    length ids' + length fs' = length (us @ vs) + length fs"
proof (cases fs)
  case Nil
  then show ?thesis using inv
    by (intro exI[of _ st] exI[of _ "us @ vs"] exI[of _ fs]) (simp add: xhole_insert_def xinv_def)
next
  case (Cons k fs')
  define h where "h = \<lparr>h_addr = addr, h_top = addr + sz, h_size = sz, h_next = first_entry vs\<rparr>"
  have b: "k < length (x_hole st)" using xinv_less[OF inv] Cons by auto
  have d: "distinct (us @ vs @ k # fs')" using inv Cons by (simp add: xinv_def)
  have p: "path (x_hole st) (x_sorted st) us (first_entry vs)" "path (x_hole st) (first_entry vs) vs None"
      "x_unused st = Some k" "path (x_hole st) (h_next (x_hole st ! k)) fs' None"
    using inv Cons by (cases vs; auto simp: xinv_def path_append first_entry_def)+
  have wfh: "hole_wf h" "hole_data h = (unat addr, unat sz)" using s by (simp_all add: hole_wf_def hole_data_def h_def unat_add32)
  have gl: "get_link st (last_link None us) = Some (first_entry vs)"
  proof (cases us rule: rev_cases)
    case Nil
    then show ?thesis using p(1) by (simp add: get_link_def last_link_def)
  next
    case (snoc us' z)
    then have "z < length (x_hole st)" "h_next (x_hole st ! z) = first_entry vs" using p(1) by (auto simp: path_append)
    then show ?thesis using snoc by (simp add: get_link_def last_link_def rd_def)
  qed
  define st1 where "st1 = st\<lparr>x_unused := h_next (x_hole st ! k), x_hole := (x_hole st)[k := h]\<rparr>"
  have ins: "xhole_insert st (last_link None us) addr sz = set_link st1 (last_link None us) (Some k)"
    using b gl p(3) by (simp add: xhole_insert_def rd_def h_def st1_def)
  have at1: "x_hole st1 ! i = (if i = k then h else x_hole st ! i)" for i using b by (simp add: st1_def)
  have l1: "length (x_hole st1) = length (x_hole st)" "x_sorted st1 = x_sorted st" by (simp_all add: st1_def)
  have p1: "path (x_hole st1) q is r \<longleftrightarrow> path (x_hole st) q is r" if "k \<notin> set is" for q "is" r
    by (rule path_cong) (use that in \<open>auto simp: at1 l1\<close>)
  have "path (x_hole st1) (x_sorted st1) us (first_entry vs)" using p(1) p1[of us] d l1 by simp
  from set_link_path[OF this, of "Some k"] d obtain st' where
    st': "set_link st1 (last_link None us) (Some k) = Some st'" "path (x_hole st') (x_sorted st') us (Some k)"
      "x_unused st' = x_unused st1" "x_mem st' = x_mem st1" "length (x_hole st') = length (x_hole st1)"
      "\<And>i. i \<notin> set us \<Longrightarrow> x_hole st' ! i = x_hole st1 ! i" "\<And>i. hole_core (x_hole st' ! i) = hole_core (x_hole st1 ! i)"
    by auto
  note core = hole_core_eq[OF st'(7)]
  have p2: "path (x_hole st') q is r \<longleftrightarrow> path (x_hole st) q is r" if "k \<notin> set is" "set us \<inter> set is = {}" for q "is" r
  proof (rule path_cong)
    show "\<forall>i\<in>set is. h_next (x_hole st' ! i) = h_next (x_hole st ! i)"
    proof
      fix i assume "i \<in> set is"
      then have "i \<notin> set us" "i \<noteq> k" using that by auto
      then show "h_next (x_hole st' ! i) = h_next (x_hole st ! i)" using st'(6) at1 by simp
    qed
  qed (simp add: st'(5) l1)
  have k: "x_hole st' ! k = h" using st'(6)[of k] d at1 by auto
  have "path (x_hole st') (x_sorted st') (us @ k # vs) None"
    using st'(2) k p(2) p2[of vs] d b st'(5) l1 by (auto simp: path_append h_def)
  moreover have "path (x_hole st') (x_unused st') fs' None"
    using p(4) p2[of fs'] d st'(3) by (auto simp: st1_def)
  moreover have "hole_wf (x_hole st' ! i)" if "i \<in> set (us @ k # vs)" for i
    using that inv wfh(1) unfolding core(2) at1 by (auto simp: xinv_def)
  ultimately have "xinv st' (us @ k # vs) fs'" using inv d st'(5) l1 by (auto simp: xinv_def)
  moreover have "holes_of (x_hole st') (us @ k # vs) = holes_of (x_hole st) us @ [(unat addr, unat sz)] @ holes_of (x_hole st) vs"
  proof -
    have "holes_of (x_hole st1) us = holes_of (x_hole st) us" "holes_of (x_hole st1) vs = holes_of (x_hole st) vs"
      using d by (auto simp: st1_def intro!: holes_of_upd)
    then show ?thesis unfolding core(1) using wfh(2) at1[of k] by simp
  qed
  ultimately show ?thesis using Cons ins st'(1,4)
    by (intro exI[of _ st'] exI[of _ "us @ k # vs"] exI[of _ fs']) (auto simp: st1_def)
qed

text \<open>A state represents the intervals \<open>H\<close> with \<open>k\<close> unused entries.\<close>

definition xrep :: "Xalloc \<Rightarrow> holes \<Rightarrow> nat \<Rightarrow> bool" where
  "xrep st H k \<longleftrightarrow> (\<exists>ids fs. xinv st ids fs \<and> H = holes_of (x_hole st) ids \<and> k = length fs)"

lemma xrep_total: "xrep st H k \<Longrightarrow> length H + k \<le> Nhole"
  using xinv_length by (auto simp: xrep_def holes_of_def)

definition give_back :: "nat \<Rightarrow> nat \<Rightarrow> holes \<Rightarrow> nat \<Rightarrow> holes" where
  "give_back a s H k = (if k = 0 \<and> length H < length (add_hole a s H) then H else add_hole a s H)"

lemma length_merge_hole: "length (merge_hole b t H) \<le> Suc (length H)"
  by (cases "(b, t, H)" rule: merge_hole.cases) auto

lemma xhole_refines:
  assumes rep: "xrep st H k" and s: "unat addr + unat sz < 4294967296" "0 < unat sz"
  shows "\<exists>st' k'. xhole st addr sz = Some st' \<and> xrep st' (give_back (unat addr) (unat sz) H k) k' \<and>
     x_mem st' = x_mem st \<and> length (give_back (unat addr) (unat sz) H k) + k' = length H + k"
proof -
  obtain ids fs where inv: "xinv st ids fs" and H: "H = holes_of (x_hole st) ids" "k = length fs"
    using rep by (auto simp: xrep_def)
  have sz: "sz \<noteq> 0" using s(2) by auto
  have pl: "path (x_hole st) (x_sorted st) ids None" "length ids \<le> Nhole"
    using inv xinv_length[OF inv] by (auto simp: xinv_def)
  obtain us vs g where sc: "xhole_scan Nhole (x_hole st) None (x_sorted st) addr = Some (last_link None us, first_entry vs, g)"
    "ids = us @ vs" "\<forall>i\<in>set us. h_top (x_hole st ! i) \<noteq> addr \<and> h_addr (x_hole st ! i) \<le> addr"
    "vs = [] \<longrightarrow> \<not> g" "\<forall>v vs'. vs = v # vs' \<longrightarrow> (g \<longleftrightarrow> h_top (x_hole st ! v) = addr) \<and> (\<not> g \<longrightarrow> addr < h_addr (x_hole st ! v))"
    by (rule xhole_scan_spec[OF pl, of None addr])
  have wf: "hole_wf (x_hole st ! i)" if "i \<in> set ids" for i using inv that by (simp add: xinv_def)
  let ?U = "holes_of (x_hole st) us" and ?V = "holes_of (x_hole st) vs"
  have "case hole_data (x_hole st ! i) of (b, t) \<Rightarrow> b + t \<noteq> unat addr \<and> b \<le> unat addr" if i: "i \<in> set us" for i
  proof -
    have w: "hole_wf (x_hole st ! i)" using i sc(2) by (intro wf) simp
    have "h_top (x_hole st ! i) \<noteq> addr" "h_addr (x_hole st ! i) \<le> addr" using sc(3) i by blast+
    then show ?thesis unfolding scan_data(1)[OF w] scan_data(3)[OF w] by (simp add: case_prod_unfold)
  qed
  then have "\<forall>(b, t)\<in>set ?U. b + t \<noteq> unat addr \<and> b \<le> unat addr" by (simp add: holes_of_def)
  then have skip: "add_hole (unat addr) (unat sz) H = ?U @ add_hole (unat addr) (unat sz) ?V"
    unfolding H sc(2) holes_of_simps by (rule add_hole_skip)
  have rep': "xrep st' H' k'" if "xinv st' ids' fs'" "H' = holes_of (x_hole st') ids'" "k' = length fs'" for st' H' k' ids' fs'
    using that by (auto simp: xrep_def)
  have insert_case: ?thesis if ic: "add_hole (unat addr) (unat sz) ?V = (unat addr, unat sz) # ?V"
    "xhole st addr sz = xhole_insert st (last_link None us) addr sz"
  proof -
    obtain st' ids' fs' where r: "xhole_insert st (last_link None us) addr sz = Some st'" "xinv st' ids' fs'" "x_mem st' = x_mem st"
      "holes_of (x_hole st') ids' = ?U @ (if fs = [] then [] else [(unat addr, unat sz)]) @ ?V"
      "length ids' + length fs' = length (us @ vs) + length fs"
      using xhole_insert_refines[OF inv[unfolded sc(2)] s(1)] by blast
    have "holes_of (x_hole st') ids' = give_back (unat addr) (unat sz) H k"
      using r(4) skip ic(1) H sc(2) by (auto simp: give_back_def holes_of_def)
    moreover have "length ids' = length (holes_of (x_hole st') ids')" "length H = length ids" using H by (simp_all add: holes_of_def)
    ultimately show ?thesis using r ic(2) H sc(2) by (intro exI[of _ st'] exI[of _ "length fs'"]) (auto intro: rep')
  qed
  show ?thesis
  proof (cases vs)
    case Nil
    show ?thesis by (rule insert_case) (use Nil sc sz in \<open>simp_all add: xhole_def first_entry_def\<close>)
  next
    case (Cons v vs')
    have v: "v \<in> set ids" "v < length (x_hole st)" using sc(2) Cons xinv_less[OF inv] by auto
    obtain b t where bt: "hole_data (x_hole st ! v) = (b, t)" by fastforce
    note sd = scan_data[OF wf[OF v(1)]]
    show ?thesis
    proof (cases g)
      case True
      then have top: "h_top (x_hole st ! v) = addr" using sc(5) Cons by blast
      have "xhole st addr sz = xhole_grow st v sz" using sc(1) Cons True sz by (simp add: xhole_def first_entry_def)
      moreover obtain st' ids' fs' where r: "xhole_grow st v sz = Some st'" "xinv st' ids' fs'" "x_mem st' = x_mem st"
        "holes_of (x_hole st') ids' = ?U @ merge_hole b (t + unat sz) (holes_of (x_hole st) vs')"
        "length ids' + length fs' = length (us @ v # vs') + length fs"
        using xhole_grow_refines[of st us v vs' fs addr sz] inv top s(1) sc(2) Cons bt by auto
      moreover have add: "add_hole (unat addr) (unat sz) H = ?U @ merge_hole b (t + unat sz) (holes_of (x_hole st) vs')"
        unfolding skip using Cons sd(1)[of addr] top bt by simp
      moreover have "give_back (unat addr) (unat sz) H k = add_hole (unat addr) (unat sz) H"
        using length_merge_hole[of b "t + unat sz" "holes_of (x_hole st) vs'"] unfolding give_back_def add
        by (auto simp: H sc(2) Cons holes_of_def)
      moreover have "length ids' = length (holes_of (x_hole st') ids')" "length H = length ids" using H by (simp_all add: holes_of_def)
      ultimately show ?thesis using H sc(2) Cons by (intro exI[of _ st'] exI[of _ "length fs'"]) (auto intro: rep')
    next
      case False
      then have ne: "b + t \<noteq> unat addr" "unat addr < b" using sc(5)[rule_format, OF Cons] sd(1,2)[of addr] bt by auto
      have ba: "unat (h_addr (x_hole st ! v)) = b" using bt by (simp add: hole_data_def)
      have touch: "addr + sz = h_addr (x_hole st ! v) \<longleftrightarrow> unat addr + unat sz = b"
        using s(1) ba by (simp add: word_unat_eq_iff unat_add32)
      show ?thesis
      proof (cases "addr + sz = h_addr (x_hole st ! v)")
        case False
        show ?thesis
          by (rule insert_case) (use False ne touch bt Cons sc(1) \<open>\<not> g\<close> sz v in \<open>simp_all add: xhole_def first_entry_def rd_def\<close>)
      next
        case True
        define h where "h = (x_hole st ! v)\<lparr>h_addr := h_addr (x_hole st ! v) - sz, h_size := h_size (x_hole st ! v) + sz\<rparr>"
        have x: "xhole st addr sz = Some (st\<lparr>x_hole := (x_hole st)[v := h]\<rparr>)"
          using True sc(1) Cons \<open>\<not> g\<close> sz v by (simp add: xhole_def first_entry_def rd_def h_def)
        have w: "unat (h_top (x_hole st ! v)) = b + t" "unat (h_size (x_hole st ! v)) = t"
          using wf[OF v(1)] bt by (simp_all add: hole_wf_def hole_data_def)
        have da: "unat (h_addr (x_hole st ! v) - sz) = unat addr" using True touch ba by (simp add: unat_sub32)
        have ds: "unat (h_size (x_hole st ! v) + sz) = t + unat sz"
          using w unat32_less[of "h_top (x_hole st ! v)"] True touch by (subst unat_add32) auto
        have wfh: "hole_wf h" "hole_data h = (unat addr, unat sz + t)"
          using da ds w True touch by (simp_all add: hole_wf_def hole_data_def h_def)
        have "xinv (st\<lparr>x_hole := (x_hole st)[v := h]\<rparr>) ids fs"
          by (rule xinv_update[OF inv v(1) _ wfh(1)]) (simp add: h_def)
        moreover have "holes_of ((x_hole st)[v := h]) ids = ?U @ (unat addr, unat sz + t) # holes_of (x_hole st) vs'"
          using holes_of_split[of us v vs' "x_hole st" h] inv sc(2) Cons v(2) wfh(2) by (auto simp: xinv_def)
        moreover have add: "add_hole (unat addr) (unat sz) H = ?U @ (unat addr, unat sz + t) # holes_of (x_hole st) vs'"
          unfolding skip using Cons bt ne True touch by simp
        moreover have "give_back (unat addr) (unat sz) H k = add_hole (unat addr) (unat sz) H"
          unfolding give_back_def add by (simp add: H sc(2) Cons holes_of_def)
        ultimately show ?thesis using x H sc(2) Cons
          by (intro exI[of _ "st\<lparr>x_hole := (x_hole st)[v := h]\<rparr>"] exI[of _ k]) (auto intro!: rep' simp: holes_of_def)
      qed
    qed
  qed
qed

section \<open>Taking memory\<close>

lemma xalloc_scan_spec:
  assumes "path hs p ids None" "length ids \<le> fuel"
  shows "case xalloc_scan fuel hs l p sz of
      None \<Rightarrow> False
    | Some None \<Rightarrow> \<forall>i\<in>set ids. h_size (hs ! i) < sz
    | Some (Some (l', v)) \<Rightarrow> (\<exists>us vs. ids = us @ v # vs \<and> l' = last_link l us \<and> (\<forall>i\<in>set us. h_size (hs ! i) < sz) \<and> sz \<le> h_size (hs ! v))"
  using assms
proof (induction ids arbitrary: p l fuel)
  case (Cons i ids)
  obtain f where f: "fuel = Suc f" using Cons.prems by (cases fuel) auto
  have p: "p = Some i" "i < length hs" "path hs (h_next (hs ! i)) ids None" using Cons.prems by auto
  show ?case
  proof (cases "h_size (hs ! i) \<ge> sz")
    case True
    then show ?thesis using p f by (auto simp: rd_def last_link_def intro: exI[of _ "[]"])
  next
    case False
    then have e: "xalloc_scan fuel hs l p sz = xalloc_scan f hs (Some i) (h_next (hs ! i)) sz"
      using p f by (simp add: rd_def)
    have IH: "case xalloc_scan f hs (Some i) (h_next (hs ! i)) sz of
      None \<Rightarrow> False
    | Some None \<Rightarrow> \<forall>i\<in>set ids. h_size (hs ! i) < sz
    | Some (Some (l', v)) \<Rightarrow> (\<exists>us vs. ids = us @ v # vs \<and> l' = last_link (Some i) us \<and> (\<forall>i\<in>set us. h_size (hs ! i) < sz) \<and> sz \<le> h_size (hs ! v))"
      using Cons.IH[OF p(3), of f "Some i"] Cons.prems(2) f by simp
    show ?thesis
    proof (cases "xalloc_scan f hs (Some i) (h_next (hs ! i)) sz")
      case None
      then show ?thesis using IH by simp
    next
      case (Some r)
      show ?thesis
      proof (cases r)
        case None
        then show ?thesis using IH Some e False by auto
      next
        case (Some lv)
        obtain l' v where lv: "lv = (l', v)" by fastforce
        then obtain us vs where u: "ids = us @ v # vs" "l' = last_link (Some i) us" "\<forall>i\<in>set us. h_size (hs ! i) < sz" "sz \<le> h_size (hs ! v)"
          using IH Some \<open>xalloc_scan f hs (Some i) (h_next (hs ! i)) sz = Some r\<close> by auto
        then have "i # ids = (i # us) @ v # vs" "l' = last_link l (i # us)" "\<forall>j\<in>set (i # us). h_size (hs ! j) < sz"
          using False by (auto simp: last_link_def)
        then have "\<exists>us' vs'. i # ids = us' @ v # vs' \<and> l' = last_link l us' \<and> (\<forall>j\<in>set us'. h_size (hs ! j) < sz) \<and> sz \<le> h_size (hs ! v)"
          using u(4) by blast
        then show ?thesis unfolding e \<open>xalloc_scan f hs (Some i) (h_next (hs ! i)) sz = Some r\<close> Some lv by simp
      qed
    qed
  qed
qed simp

lemma take_hole_skip:
  "\<forall>(b, t)\<in>set X. t < n \<Longrightarrow> take_hole n (X @ Y) = map_option (map_prod id (append X)) (take_hole n Y)"
proof (induction X)
  case Nil
  then show ?case by (simp add: option.map_id prod.map_id0 map_prod.id id_def[symmetric])
next
  case (Cons x X)
  then show ?case by (cases x) (auto simp: option.map_comp prod.map_comp comp_def)
qed

lemma xalloc_take_refines:
  assumes inv: "xinv st (us @ v # vs) fs" and sz: "sz \<le> h_size (x_hole st ! v)"
    and bt: "hole_data (x_hole st ! v) = (b, t)"
  shows "\<exists>st' ids' fs'. xalloc_take st (last_link None us) v sz = Some (st', KADDR (word_of_nat b)) \<and> xinv st' ids' fs' \<and>
    x_mem st' = x_mem st \<and> length ids' + length fs' = length (us @ v # vs) + length fs \<and>
    holes_of (x_hole st') ids' = holes_of (x_hole st) us @
      (if t = unat sz then holes_of (x_hole st) vs else (b + unat sz, t - unat sz) # holes_of (x_hole st) vs)"
proof -
  define h where "h = x_hole st ! v"
  define h' where "h' = h\<lparr>h_addr := h_addr h + sz, h_size := h_size h - sz\<rparr>"
  define st1 where "st1 = st\<lparr>x_hole := (x_hole st)[v := h']\<rparr>"
  have v: "v < length (x_hole st)" using xinv_less[OF inv] by auto
  have w: "unat (h_addr h) = b" "unat (h_size h) = t" "unat (h_top h) = b + t" "unat sz \<le> t"
    using bt inv sz by (auto simp: hole_data_def xinv_def hole_wf_def h_def word_le_nat_alt)
  have ba: "word_of_nat b = h_addr h" unfolding w(1)[symmetric] by simp
  have lt: "b + t < 4294967296" using w(3) unat32_less[of "h_top h"] by simp
  have d': "unat (h_addr h + sz) = b + unat sz" "unat (h_size h - sz) = t - unat sz"
    using w lt by (simp_all add: unat_add32 unat_sub32)
  have wf': "hole_wf h'" "hole_data h' = (b + unat sz, t - unat sz)"
    using d' w by (simp_all add: hole_wf_def hole_data_def h'_def)
  have z: "h_size h' = 0 \<longleftrightarrow> t = unat sz" using d'(2) w(4) by (auto simp: h'_def word_unat_eq_iff)
  have inv1: "xinv st1 (us @ v # vs) fs" unfolding st1_def
    by (rule xinv_update[OF inv _ _ wf'(1)]) (simp_all add: h'_def h_def)
  have d: "distinct (us @ v # vs @ fs)" using inv by (simp add: xinv_def)
  have at1: "x_hole st1 ! i = (if i = v then h' else x_hole st ! i)" for i using v by (simp add: st1_def)
  have tk: "xalloc_take st (last_link None us) v sz =
    (if h_size h' = 0 then
        do { st \<leftarrow> set_link st1 (last_link None us) (h_next h');
          h \<leftarrow> rd (x_hole st) v;
          Some (st\<lparr>x_hole := (x_hole st)[v := h\<lparr>h_next := x_unused st\<rparr>], x_unused := Some v\<rparr>, KADDR (h_addr h_old)) }
      else Some (st1, KADDR (h_addr h_old)))" if "h_old = h" for h_old
    using v that by (simp add: xalloc_take_def rd_def h_def h'_def st1_def Let_def)
  show ?thesis
  proof (cases "t = unat sz")
    case False
    then have "xalloc_take st (last_link None us) v sz = Some (st1, KADDR (word_of_nat b))" using tk[OF refl] z ba by simp
    moreover have "holes_of (x_hole st1) (us @ v # vs) = holes_of (x_hole st) us @ hole_data h' # holes_of (x_hole st) vs"
    proof -
      have "distinct (us @ v # vs)" using d by auto
      from holes_of_split[OF this v, of h'] show ?thesis by (simp add: st1_def)
    qed
    ultimately show ?thesis using inv1 False wf'(2) by (intro exI[of _ st1] exI[of _ "us @ v # vs"] exI[of _ fs]) (auto simp: st1_def)
  next
    case True
    have p: "path (x_hole st1) (x_sorted st1) us (Some v)" "path (x_hole st1) (h_next h') vs None" "path (x_hole st1) (x_unused st1) fs None"
      using inv1 at1[of v] by (auto simp: xinv_def path_append)
    have "distinct us" using d by simp
    from set_link_path[OF p(1) this, of "h_next h'"] obtain st2 where
      st2: "set_link st1 (last_link None us) (h_next h') = Some st2" "path (x_hole st2) (x_sorted st2) us (h_next h')"
      "x_unused st2 = x_unused st1" "x_mem st2 = x_mem st1" "length (x_hole st2) = length (x_hole st1)"
      "\<And>i. i \<notin> set us \<Longrightarrow> x_hole st2 ! i = x_hole st1 ! i" "\<And>i. hole_core (x_hole st2 ! i) = hole_core (x_hole st1 ! i)" by auto
    have h2: "x_hole st2 ! v = h'" using st2(6)[of v] d at1 by auto
    have v2: "v < length (x_hole st2)" using v st2(5) by (simp add: st1_def)
    define st3 where "st3 = st2\<lparr>x_hole := (x_hole st2)[v := h'\<lparr>h_next := x_unused st2\<rparr>], x_unused := Some v\<rparr>"
    have t3: "xalloc_take st (last_link None us) v sz = Some (st3, KADDR (word_of_nat b))"
      using tk[OF refl] z True st2(1) h2 v2 ba by (simp add: rd_def st3_def)
    have at3: "x_hole st3 ! i = (if i = v then h'\<lparr>h_next := x_unused st2\<rparr> else x_hole st2 ! i)" for i using v2 by (simp add: st3_def)
    have l3: "length (x_hole st3) = length (x_hole st)" using st2(5) by (simp add: st3_def st1_def)
    have core: "hole_core (x_hole st3 ! i) = hole_core (x_hole st1 ! i)" for i
      using st2(7)[of i] at1 by (simp add: at3 hole_core_def)
    note ce = hole_core_eq[OF core]
    have p3: "path (x_hole st3) q is r \<longleftrightarrow> path (x_hole st1) q is r" if "v \<notin> set is" "set us \<inter> set is = {}" for q "is" r
    proof (rule path_cong)
      show "\<forall>i\<in>set is. h_next (x_hole st3 ! i) = h_next (x_hole st1 ! i)"
        using that st2(6) at3 by (metis disjoint_iff)
    qed (simp add: l3 st1_def)
    have "path (x_hole st3) (x_sorted st3) us (h_next h')"
    proof -
      have "path (x_hole st3) (x_sorted st2) us (h_next h') \<longleftrightarrow> path (x_hole st2) (x_sorted st2) us (h_next h')"
        by (rule path_cong) (use d at3 in \<open>auto simp: st3_def\<close>)
      then show ?thesis using st2(2) by (simp add: st3_def)
    qed
    then have "path (x_hole st3) (x_sorted st3) (us @ vs) None"
    proof -
      have "set us \<inter> set vs = {}" "v \<notin> set vs" using d by auto
      then have "path (x_hole st3) (h_next h') vs None" using p(2) p3[of vs] by blast
      then show ?thesis using \<open>path (x_hole st3) (x_sorted st3) us (h_next h')\<close> unfolding path_append by blast
    qed
    moreover have "path (x_hole st3) (x_unused st3) (v # fs) None"
      using p(3) p3[of fs] d st2(3) at3[of v] v l3 by (auto simp: st3_def)
    moreover have "hole_wf (x_hole st3 ! i)" if "i \<in> set (us @ vs)" for i
      using that inv1 unfolding ce(2) by (auto simp: xinv_def)
    ultimately have "xinv st3 (us @ vs) (v # fs)" using inv d l3 by (auto simp: xinv_def)
    moreover have "holes_of (x_hole st3) (us @ vs) = holes_of (x_hole st) us @ holes_of (x_hole st) vs"
      unfolding ce(1) st1_def using d by (simp add: holes_of_upd)
    ultimately show ?thesis using t3 True st2(4)
      by (intro exI[of _ st3] exI[of _ "us @ vs"] exI[of _ "v # fs"]) (auto simp: st3_def st1_def)
  qed
qed

section \<open>Addresses and sizes\<close>

lemma PADDR_mod: "unat (PADDR a) = unat a mod 1073741824"
proof -
  have "NOT (0xC0000000 :: u32) = mask 30" by code_simp
  then have "PADDR a = take_bit 30 a" by (simp only: PADDR_def take_bit_eq_mask)
  then show ?thesis by (simp add: unat_take_bit32)
qed

lemma KADDR_small: "unat a < 1073741824 \<Longrightarrow> unat (KADDR a) = 2147483648 + unat a"
proof -
  assume a: "unat a < 1073741824"
  then have "take_bit 30 a = a" by (simp add: word_unat_eq_iff unat_take_bit32)
  then have "a AND NOT 0xC0000000 = a" using PADDR_mod[of a] a by (simp add: word_unat_eq_iff PADDR_def)
  then have "KADDR a = push_bit 31 1 OR a" by (simp add: KADDR_def)
  moreover have "unat (push_bit 31 (1::u32) OR a) = unat (1::u32) * 2 ^ 31 + unat a"
    by (rule unat_shift_or) (use a in simp_all)
  ultimately show ?thesis by simp
qed

lemma PADDR_KADDR: "unat a < 1073741824 \<Longrightarrow> PADDR (KADDR a) = a"
proof -
  assume a: "unat a < 1073741824"
  have "(2147483648 + x) mod 1073741824 = x" if "x < 1073741824" for x :: nat
    using that mod_mult_self1[of x 2 1073741824] by (simp add: add.commute)
  then show ?thesis using PADDR_mod[of "KADDR a"] KADDR_small[OF a] a by (simp add: word_unat_eq_iff)
qed

lemma round_size_eq:
  assumes "unat n < 4294967280"
  shows "unat (round_size n) = (unat n + 16) div 8 * 8"
proof -
  have "(7::u32) = mask 3" by code_simp
  moreover have "w AND NOT (mask 3) = push_bit 3 (drop_bit 3 w)" for w :: u32
    by (rule bit_eqI) (auto simp: bit_simps)
  ultimately have m: "w AND NOT 7 = push_bit 3 (drop_bit 3 w)" for w :: u32 by simp
  have "unat (n + 16) = unat n + 16" using assms unat_add32[of n 16] by simp
  then have "unat (drop_bit 3 (n + 16)) = (unat n + 16) div 8" by (simp add: unat_drop_bit32)
  moreover have "(unat n + 16) div 8 * 8 < 4294967296" using assms by linarith
  ultimately have "unat (push_bit 3 (drop_bit 3 (n + 16))) = (unat n + 16) div 8 * 8"
    using unat_push_bit32[of "drop_bit 3 (n + 16)" 3] by simp
  moreover have "round_size n = (n + 16) AND NOT 7" by (simp add: round_size_def BY2V_def Xhdr_data_def)
  ultimately show ?thesis unfolding m by simp
qed

lemma round_size_bounds:
  assumes "unat n < 4294967280"
  shows "unat n + 8 < unat (round_size n)" "unat (round_size n) \<le> unat n + 16" "unat (round_size n) mod 8 = 0"
  using round_size_eq[OF assms] by simp_all

section \<open>Allocation on intervals\<close>

lemma xallocz_refines:
  assumes rep: "xrep st H k" and N: "N = unat (round_size n)"
  shows "case take_hole N H of
      None \<Rightarrow> xallocz st n zero = Some (st, None)
    | Some (b, H') \<Rightarrow> \<exists>st' k'. xallocz st n zero = Some (st', Some (KADDR (word_of_nat b) + 8)) \<and> xrep st' H' k' \<and>
        length H' + k' = length H + k \<and>
        x_mem st' = (if zero then memset0 (x_mem st) (KADDR (word_of_nat b)) (round_size n) else x_mem st)
          (KADDR (word_of_nat b) + 4 := Magichole, KADDR (word_of_nat b) := round_size n)"
proof -
  obtain ids fs where inv: "xinv st ids fs" and H: "H = holes_of (x_hole st) ids" "k = length fs"
    using rep by (auto simp: xrep_def)
  have pl: "path (x_hole st) (x_sorted st) ids None" "length ids \<le> Nhole"
    using inv xinv_length[OF inv] by (auto simp: xinv_def)
  have size: "snd (hole_data (x_hole st ! i)) < N \<longleftrightarrow> h_size (x_hole st ! i) < round_size n" for i
    by (simp add: hole_data_def N word_less_nat_alt)
  note sp = xalloc_scan_spec[OF pl, where l=None and sz="round_size n"]
  show ?thesis
  proof (cases "xalloc_scan Nhole (x_hole st) None (x_sorted st) (round_size n)")
    case None
    then show ?thesis using sp by simp
  next
    case (Some r)
    show ?thesis
    proof (cases r)
      case None
      then have "\<forall>i\<in>set ids. snd (hole_data (x_hole st ! i)) < N" using sp Some size by simp
      then have "take_hole N H = None" unfolding take_hole_None H(1) by (auto simp: holes_of_def split: prod.splits)
      then show ?thesis using Some None by (simp add: xallocz_def)
    next
      case r: (Some lv)
      obtain l v where lv: "lv = (l, v)" by fastforce
      then obtain us vs where u: "ids = us @ v # vs" "l = last_link None us" "\<forall>i\<in>set us. h_size (x_hole st ! i) < round_size n"
        "round_size n \<le> h_size (x_hole st ! v)" using sp Some r by auto
      obtain b t where bt: "hole_data (x_hole st ! v) = (b, t)" by fastforce
      have "N \<le> t" using u(4) bt by (auto simp: hole_data_def N word_le_nat_alt)
      have "\<forall>(b, t)\<in>set (holes_of (x_hole st) us). t < N" using u(3) size by (auto simp: holes_of_def case_prod_unfold)
      then have tk: "take_hole N H = Some (b, holes_of (x_hole st) us @
          (if t = N then holes_of (x_hole st) vs else (b + N, t - N) # holes_of (x_hole st) vs))"
        unfolding H(1) u(1) using bt \<open>N \<le> t\<close> by (simp add: take_hole_skip)
      obtain st' ids' fs' where r': "xalloc_take st (last_link None us) v (round_size n) = Some (st', KADDR (word_of_nat b))" "xinv st' ids' fs'"
        "x_mem st' = x_mem st" "length ids' + length fs' = length (us @ v # vs) + length fs"
        "holes_of (x_hole st') ids' = holes_of (x_hole st) us @
          (if t = N then holes_of (x_hole st) vs else (b + N, t - N) # holes_of (x_hole st) vs)"
        using xalloc_take_refines[OF inv[unfolded u(1)] u(4) bt] unfolding N by blast
      define m where "m = (if zero then memset0 (x_mem st) (KADDR (word_of_nat b)) (round_size n) else x_mem st)
          (KADDR (word_of_nat b) + 4 := Magichole, KADDR (word_of_nat b) := round_size n)"
      have "xallocz st n zero = Some (st'\<lparr>x_mem := m\<rparr>, Some (KADDR (word_of_nat b) + 8))"
        using Some r lv u(2) r'(1,3) by (simp add: xallocz_def m_def Xhdr_data_def Let_def)
      moreover have "xinv (st'\<lparr>x_mem := m\<rparr>) ids' fs'" using r'(2) by (simp add: xinv_def)
      then have "xrep (st'\<lparr>x_mem := m\<rparr>) (holes_of (x_hole st') ids') (length fs')"
        unfolding xrep_def by (intro exI[of _ ids'] exI[of _ fs']) simp
      moreover have "length (holes_of (x_hole st') ids') + length fs' = length H + k"
        using r'(4) H u(1) by (simp add: holes_of_def)
      moreover have "take_hole N H = Some (b, holes_of (x_hole st') ids')" using tk r'(5) by simp
      moreover have "x_mem (st'\<lparr>x_mem := m\<rparr>) = m" by simp
      ultimately show ?thesis unfolding m_def by (simp only: option.case prod.case) blast
    qed
  qed
qed

section \<open>Sequences of allocations\<close>

fun holes_walk :: "nat \<Rightarrow> Hole list \<Rightarrow> nat option \<Rightarrow> holes" where
  "holes_walk fuel hs None = []"
| "holes_walk 0 hs (Some i) = []"
| "holes_walk (Suc fuel) hs (Some i) = hole_data (hs ! i) # holes_walk fuel hs (h_next (hs ! i))"

definition x_holes :: "Xalloc \<Rightarrow> holes" where
  "x_holes st = holes_walk Nhole (x_hole st) (x_sorted st)"

lemma holes_walk_path: "path hs p ids None \<Longrightarrow> length ids \<le> fuel \<Longrightarrow> holes_walk fuel hs p = holes_of hs ids"
proof (induction ids arbitrary: p fuel)
  case (Cons i ids)
  then show ?case by (cases fuel) auto
qed simp

lemma x_holes_rep: "xrep st H k \<Longrightarrow> x_holes st = H"
  using holes_walk_path xinv_length by (fastforce simp: xrep_def x_holes_def xinv_def)

definition x_ok :: "Xalloc \<Rightarrow> bool" where
  "x_ok st \<longleftrightarrow> (\<exists>H k. xrep st H k \<and> holes_ok H \<and> free_set H \<subseteq> {..<1073741824})"

text \<open>The block of physical memory, header included, of one call of \<open>xalloc\<close>.\<close>

definition xblock :: "Xalloc \<Rightarrow> u32 \<Rightarrow> (Xalloc \<times> nat \<times> nat) option" where
  "xblock st n =
    (if unat n < 4294967280 then
       (case xalloc st n of
          Some (st', Some p) \<Rightarrow> Some (st', unat (PADDR (p - 8)), unat (x_mem st' (p - 8)))
        | _ \<Rightarrow> None)
     else None)"

primrec blocks :: "('s \<Rightarrow> 'n \<Rightarrow> ('s \<times> nat \<times> nat) option) \<Rightarrow> 's \<Rightarrow> 'n list \<Rightarrow> ('s \<times> (nat \<times> nat) list) option" where
  "blocks alloc s [] = Some (s, [])"
| "blocks alloc s (n # ns) =
    do { (s, b) \<leftarrow> alloc s n; (s, bs) \<leftarrow> blocks alloc s ns; Some (s, b # bs) }"

locale block_allocator =
  fixes alloc :: "'s \<Rightarrow> 'n \<Rightarrow> ('s \<times> nat \<times> nat) option"
    and avail :: "'s \<Rightarrow> nat set"
    and ok :: "'s \<Rightarrow> bool"
  assumes alloc_ok: "ok s \<Longrightarrow> alloc s n = Some (s', b, l) \<Longrightarrow> ok s'"
    and alloc_inside: "ok s \<Longrightarrow> alloc s n = Some (s', b, l) \<Longrightarrow> {b..<b + l} \<subseteq> avail s"
    and alloc_removes: "ok s \<Longrightarrow> alloc s n = Some (s', b, l) \<Longrightarrow> avail s' = avail s - {b..<b + l}"
begin

lemma blocks_available:
  "ok s \<Longrightarrow> blocks alloc s ns = Some (s', bs) \<Longrightarrow>
   ok s' \<and> avail s' = avail s - free_set bs \<and> free_set bs \<subseteq> avail s"
proof (induction ns arbitrary: s bs)
  case (Cons n ns)
  obtain s1 b l bs' where a: "alloc s n = Some (s1, b, l)" "blocks alloc s1 ns = Some (s', bs')" "bs = (b, l) # bs'"
    using Cons.prems(2) by (auto simp: bind_eq_Some_conv)
  note law = alloc_ok[OF Cons.prems(1) a(1)] alloc_inside[OF Cons.prems(1) a(1)] alloc_removes[OF Cons.prems(1) a(1)]
  show ?case using Cons.IH[OF law(1) a(2)] law(2,3) a(3) by auto
qed simp

lemma blocks_disjoint:
  "ok s \<Longrightarrow> blocks alloc s ns = Some (s', bs) \<Longrightarrow>
   sorted_wrt (\<lambda>(b, l) (c, m). {b..<b + l} \<inter> {c..<c + m} = {}) bs"
proof (induction ns arbitrary: s bs)
  case (Cons n ns)
  obtain s1 b l bs' where a: "alloc s n = Some (s1, b, l)" "blocks alloc s1 ns = Some (s', bs')" "bs = (b, l) # bs'"
    using Cons.prems(2) by (auto simp: bind_eq_Some_conv)
  note law = alloc_ok[OF Cons.prems(1) a(1)] alloc_removes[OF Cons.prems(1) a(1)]
  have "free_set bs' \<subseteq> avail s - {b..<b + l}" using blocks_available[OF law(1) a(2)] law(2) by auto
  then have "\<forall>(c, m)\<in>set bs'. {b..<b + l} \<inter> {c..<c + m} = {}" by (fastforce simp: free_set_def)
  then show ?case using Cons.IH[OF law(1) a(2)] a(3) by auto
qed simp

end

lemma xallocz_Some:
  assumes ok: "xrep st H k" "holes_ok H" "free_set H \<subseteq> {..<1073741824}" and n: "unat n < 4294967280"
    and x: "xallocz st n zero = Some (st', Some p)"
  obtains b H' k' where "take_hole (unat (round_size n)) H = Some (b, H')" "xrep st' H' k'" "holes_ok H'"
    "p = KADDR (word_of_nat b) + 8" "b < 1073741824" "x_mem st' (p - 8) = round_size n" "x_mem st' (p - 4) = Magichole"
    "length H' + k' = length H + k"
proof -
  let ?N = "unat (round_size n)"
  have N: "0 < ?N" using round_size_bounds(1)[OF n] by linarith
  obtain b H' where t: "take_hole ?N H = Some (b, H')"
    using xallocz_refines[OF ok(1) refl, of n zero] x by (cases "take_hole ?N H") auto
  with xallocz_refines[OF ok(1) refl, of n zero] x obtain k' where
    a: "p = KADDR (word_of_nat b) + 8" "xrep st' H' k'" "length H' + k' = length H + k"
      "x_mem st' = (if zero then memset0 (x_mem st) (KADDR (word_of_nat b)) (round_size n) else x_mem st)
          (KADDR (word_of_nat b) + 4 := Magichole, KADDR (word_of_nat b) := round_size n)" by auto
  note sp = take_hole_spec[OF t ok(2) N]
  have "b \<in> {b..<b + ?N}" using N by simp
  then have b: "b < 1073741824" using sp ok(3) by blast
  have ne: "KADDR (word_of_nat b) + 4 \<noteq> KADDR (word_of_nat b)" by simp
  have "p - 8 = KADDR (word_of_nat b)" "p - 4 = KADDR (word_of_nat b) + 4" using a(1) by simp_all
  then show thesis using that[OF t a(2) _ a(1) b _ _ a(3)] sp a(4) ne by simp
qed

lemma xblock_Some:
  assumes "x_ok st" "xblock st n = Some (st', b, l)"
  shows "x_ok st' \<and> {b..<b + l} \<subseteq> free_set (x_holes st) \<and> free_set (x_holes st') = free_set (x_holes st) - {b..<b + l}"
proof -
  obtain H k where ok: "xrep st H k" "holes_ok H" "free_set H \<subseteq> {..<1073741824}" using assms(1) by (auto simp: x_ok_def)
  obtain p where p: "unat n < 4294967280" "xallocz st n True = Some (st', Some p)" "b = unat (PADDR (p - 8))" "l = unat (x_mem st' (p - 8))"
    using assms(2) by (auto simp: xblock_def xalloc_def split: if_splits option.splits)
  obtain c H' k' where a: "take_hole (unat (round_size n)) H = Some (c, H')" "xrep st' H' k'" "holes_ok H'"
    "p = KADDR (word_of_nat c) + 8" "c < 1073741824" "x_mem st' (p - 8) = round_size n"
    by (rule xallocz_Some[OF ok p(1,2)])
  have "unat (word_of_nat c :: u32) = c" using a(5) by (simp add: unat_of_nat)
  then have "PADDR (KADDR (word_of_nat c)) = word_of_nat c" using a(5) by (intro PADDR_KADDR) simp
  then have bl: "b = c" "l = unat (round_size n)" using p(3,4) a(4,6) \<open>unat (word_of_nat c :: u32) = c\<close> by simp_all
  have "0 < unat (round_size n)" using round_size_bounds(1)[OF p(1)] by linarith
  note sp = take_hole_spec[OF a(1) ok(2) this]
  have "x_ok st'" using a(2,3) sp ok(3) by (auto simp: x_ok_def)
  then show ?thesis using sp bl x_holes_rep[OF ok(1)] x_holes_rep[OF a(2)] by simp
qed

interpretation xalloc_blocks: block_allocator xblock "\<lambda>st. free_set (x_holes st)" x_ok
  by unfold_locales (use xblock_Some in blast)+

definition x_boot :: "(u32 \<Rightarrow> u32) \<Rightarrow> Xalloc" where
  "x_boot m = \<lparr>x_hole = hole_slots, x_unused = Some 0, x_sorted = None, x_mem = m\<rparr>"

lemma hole_slots_path: "i \<le> Nhole \<Longrightarrow> path hole_slots (if i < Nhole then Some i else None) [i..<Nhole] None"
proof (induction rule: inc_induct)
  case (step i)
  then show ?case by (auto simp: upt_rec[of i] hole_slots_def)
qed simp

lemma x_boot_rep: "xrep (x_boot m) [] Nhole"
proof -
  have "path hole_slots (Some 0) [0..<Nhole] None" using hole_slots_path[of 0] by (simp add: Nhole_def del: upt_rec)
  then have "xinv (x_boot m) [] [0..<Nhole]" by (simp add: xinv_def x_boot_def hole_slots_def del: path.simps(2))
  then show ?thesis unfolding xrep_def by (intro exI[of _ "[]"] exI[of _ "[0..<Nhole]"]) simp
qed

definition touches :: "nat \<Rightarrow> nat \<Rightarrow> holes \<Rightarrow> bool" where
  "touches a s H \<longleftrightarrow> (\<exists>(b, t)\<in>set H. b + t = a \<or> a + s = b)"

lemma add_hole_length:
  "holes_ok H \<Longrightarrow> apart a s H \<Longrightarrow> 0 < s \<Longrightarrow> length H < length (add_hole a s H) \<longleftrightarrow> \<not> touches a s H"
proof (induction a s H rule: add_hole.induct)
  case (2 a s b t H)
  have ok: "0 < t" "b + t < 2 ^ 32" "\<forall>(c, u)\<in>set H. b + t < c" "holes_ok H" using 2(2) by auto
  have ap: "a + s \<le> b \<or> b + t \<le> a" "apart a s H" using 2(3,4) apart_Cons[OF ok(1)] by blast+
  have T: "touches a s ((b, t) # H) \<longleftrightarrow> b + t = a \<or> a + s = b \<or> touches a s H" by (auto simp: touches_def)
  consider "b + t = a" | "b + t \<noteq> a" "b > a" "a + s = b" | "b + t \<noteq> a" "b > a" "a + s \<noteq> b" | "b + t \<noteq> a" "b \<le> a"
    by linarith
  then show ?case
  proof cases
    case 1
    then show ?thesis using T length_merge_hole[of b "t + s" H] by simp
  next
    case 2
    then show ?thesis using T by simp
  next
    case 3
    then have "a + s < b" using ap(1) ok(1) by linarith
    then have "\<not> touches a s H" using ok(3) 3 by (fastforce simp: touches_def)
    then show ?thesis using T 3 by simp
  next
    case 4
    then show ?thesis using T 2 ok ap by auto
  qed
qed (simp add: touches_def)

lemma x_boot_one:
  "\<exists>st. xhole (x_boot m) 0x100000 0x10000 = Some st \<and> x_ok st \<and> x_holes st = [(0x100000, 0x10000)]"
proof -
  obtain st k where "xhole (x_boot m) 0x100000 0x10000 = Some st" "xrep st [(0x100000, 0x10000)] k"
    using xhole_refines[OF x_boot_rep, of "0x100000" "0x10000" m] by (auto simp: give_back_def Nhole_def)
  moreover from this(2) have "x_ok st" unfolding x_ok_def by (intro exI[of _ "[(0x100000, 0x10000)]"] exI[of _ k]) auto
  ultimately show ?thesis using x_holes_rep by blast
qed

section \<open>Properties\<close>

text \<open>
  C37. Giving memory back: for a region that does not wrap around and overlaps no hole, \<open>xhole\<close> returns, keeps the
  holes sorted, disjoint and coalesced (no two holes touch), and adds exactly the region to the free memory;
  only when the region touches no hole and every entry is in use does it leave the holes as they were.
\<close>

theorem xhole_correct:
  assumes "xrep st H k" "holes_ok H" "0 < unat sz" "unat addr + unat sz < 2 ^ 32"
    "{unat addr..<unat addr + unat sz} \<inter> free_set H = {}"
  shows "\<exists>st' H' k'. xhole st addr sz = Some st' \<and> xrep st' H' k' \<and> holes_ok H' \<and> length H' + k' = length H + k \<and>
    x_mem st' = x_mem st \<and>
    (if k = 0 \<and> \<not> touches (unat addr) (unat sz) H then H' = H
     else free_set H' = free_set H \<union> {unat addr..<unat addr + unat sz})"
proof -
  let ?a = "unat addr" and ?s = "unat sz"
  have ap: "apart ?a ?s H" "?a + ?s < 4294967296" using assms(4,5) by (simp_all add: apart_def)
  have e: "give_back ?a ?s H k = (if k = 0 \<and> \<not> touches ?a ?s H then H else add_hole ?a ?s H)"
    using add_hole_length[OF assms(2) ap(1) assms(3)] by (simp add: give_back_def)
  moreover have "holes_ok (give_back ?a ?s H k)"
    using e assms(2) add_hole_ok[OF assms(2) ap(1) assms(3)] ap(2) by simp
  ultimately show ?thesis
    using xhole_refines[OF assms(1) ap(2) assms(3)] free_set_add[of ?a ?s H] by (metis Un_commute)
qed

theorem xhole_correct_witness:
  "\<exists>st' H' k'. xhole (x_boot (\<lambda>a. 0)) 0x100000 0x10000 = Some st' \<and> xrep st' H' k' \<and> holes_ok H' \<and>
     free_set H' = {0x100000..<0x110000}"
  using xhole_correct[OF x_boot_rep, of "0x10000" "0x100000" "\<lambda>a. 0"] by (auto simp: Nhole_def)

text \<open>
  C38. Taking memory: \<open>xallocz\<close> returns, keeps the invariant, and answers with the null pointer exactly when no hole
  holds the rounded size; otherwise the block, header included, was free and no longer is, is large enough,
  has its size and magic number stored before the data, and the data is zero when that was asked.
\<close>

theorem xallocz_correct:
  assumes "x_ok st" "unat n < 2 ^ 32 - 16"
  shows "\<exists>st' r. xallocz st n zero = Some (st', r) \<and> x_ok st' \<and>
    (case r of
       None \<Rightarrow> st' = st \<and> (\<forall>(b, t)\<in>set (x_holes st). t < unat (round_size n))
     | Some p \<Rightarrow>
        (let b = unat (PADDR (p - 8)); l = unat (round_size n) in
          {b..<b + l} \<subseteq> free_set (x_holes st) \<and> free_set (x_holes st') = free_set (x_holes st) - {b..<b + l} \<and>
          unat n + 8 < l \<and> x_mem st' (p - 8) = round_size n \<and> x_mem st' (p - 4) = Magichole \<and>
          (zero \<longrightarrow> (\<forall>a. unat p \<le> unat a \<and> unat a < unat p + unat n \<longrightarrow> x_mem st' a = 0))))"
proof -
  let ?N = "unat (round_size n)"
  have n: "unat n < 4294967280" using assms(2) by simp
  obtain H k where ok: "xrep st H k" "holes_ok H" "free_set H \<subseteq> {..<1073741824}" using assms(1) by (auto simp: x_ok_def)
  note ref = xallocz_refines[OF ok(1) refl, of n zero]
  show ?thesis
  proof (cases "take_hole ?N H")
    case None
    then show ?thesis using ref assms(1) take_hole_None[of ?N H] x_holes_rep[OF ok(1)]
      by (intro exI[of _ st] exI[of _ None]) simp
  next
    case (Some bH)
    then obtain b H' where t: "take_hole ?N H = Some (b, H')" by (cases bH) auto
    define q where "q = KADDR (word_of_nat b)"
    obtain st' k' where a: "xallocz st n zero = Some (st', Some (q + 8))" "xrep st' H' k'"
      "x_mem st' = (if zero then memset0 (x_mem st) q (round_size n) else x_mem st) (q + 4 := Magichole, q := round_size n)"
      using ref t by (auto simp: q_def)
    have N: "unat n + 8 < ?N" by (rule round_size_bounds[OF n])
    then have N0: "0 < ?N" by linarith
    then have "b \<in> {b..<b + ?N}" by simp
    moreover note sp = take_hole_spec[OF t ok(2) N0]
    ultimately have b: "b < 1073741824" using ok(3) by blast
    have wb: "unat (word_of_nat b :: u32) = b" using b by (simp add: unat_of_nat)
    then have q: "unat q = 2147483648 + b" "PADDR q = word_of_nat b"
      using b KADDR_small[of "word_of_nat b"] PADDR_KADDR[of "word_of_nat b"] by (simp_all add: q_def)
    have q8: "unat (q + 8) = unat q + 8" "unat (q + 4) = unat q + 4"
      using q b unat_add32[of q 8] unat_add32[of q 4] by simp_all
    have z: "x_mem st' w = 0" if "zero" "unat (q + 8) \<le> unat w" "unat w < unat (q + 8) + unat n" for w
    proof -
      have "w \<noteq> q" "w \<noteq> q + 4" using that q8 by auto
      then show ?thesis using a(3) that q8(1) N by (simp add: memset0_def)
    qed
    have "x_ok st'" using a(2) sp N ok(3) by (auto simp: x_ok_def)
    moreover have "PADDR (q + 8 - 8) = word_of_nat b" "q + 8 - 4 = q + 4" using q by simp_all
    moreover have "{b..<b + ?N} \<subseteq> free_set (x_holes st)" "free_set (x_holes st') = free_set (x_holes st) - {b..<b + ?N}"
      using sp N x_holes_rep[OF ok(1)] x_holes_rep[OF a(2)] by auto
    ultimately show ?thesis using a(1,3) wb N z
      by (intro exI[of _ st'] exI[of _ "Some (q + 8)"]) (simp add: Let_def)
  qed
qed

theorem xallocz_correct_witness:
  "\<exists>st st' p. xhole (x_boot (\<lambda>a. 0)) 0x100000 0x10000 = Some st \<and> xallocz st 100 True = Some (st', Some p) \<and>
     x_ok st' \<and> x_mem st' (p - 4) = Magichole \<and> unat (round_size 100) = 112"
proof -
  obtain st where st: "xhole (x_boot (\<lambda>a. 0)) 0x100000 0x10000 = Some st" "x_ok st" "x_holes st = [(0x100000, 0x10000)]"
    using x_boot_one by blast
  have n: "unat (100::u32) < 2 ^ 32 - 16" by simp
  have s: "unat (round_size 100) = 112" using round_size_eq[of 100] by simp
  obtain st' r where r: "xallocz st 100 True = Some (st', r)" "x_ok st'"
    "case r of None \<Rightarrow> st' = st \<and> (\<forall>(b, t)\<in>set (x_holes st). t < unat (round_size 100))
     | Some p \<Rightarrow> x_mem st' (p - 4) = Magichole"
    using xallocz_correct[OF st(2) n, of True] by (fastforce simp: Let_def split: option.splits)
  then obtain p where "r = Some p" using st(3) s by (cases r) auto
  then show ?thesis using st r s by auto
qed

text \<open>
  C39. Freeing a block just allocated restores the list of holes exactly.
\<close>

theorem xfree_restores:
  assumes "x_ok st" "unat n < 2 ^ 32 - 16" "xallocz st n zero = Some (st', Some p)"
  shows "\<exists>st''. xfree st' p = Some st'' \<and> x_ok st'' \<and> x_holes st'' = x_holes st"
proof -
  obtain H k where ok: "xrep st H k" "holes_ok H" "free_set H \<subseteq> {..<1073741824}" using assms(1) by (auto simp: x_ok_def)
  have n: "unat n < 4294967280" using assms(2) by simp
  obtain b H' k' where a: "take_hole (unat (round_size n)) H = Some (b, H')" "xrep st' H' k'" "holes_ok H'"
    "p = KADDR (word_of_nat b) + 8" "b < 1073741824" "x_mem st' (p - 8) = round_size n" "x_mem st' (p - 4) = Magichole"
    "length H' + k' = length H + k"
    by (rule xallocz_Some[OF ok n assms(3)])
  let ?N = "unat (round_size n)"
  have N: "0 < ?N" using round_size_bounds(1)[OF n] by linarith
  note sp = take_hole_spec[OF a(1) ok(2) N]
  have wb: "unat (word_of_nat b :: u32) = b" using a(5) by (simp add: unat_of_nat)
  have "PADDR (p - 8) = word_of_nat b" using a(4,5) PADDR_KADDR[of "word_of_nat b"] wb by simp
  then have f: "xfree st' p = xhole st' (word_of_nat b) (round_size n)"
    using a(6,7) by (simp add: xfree_def Xhdr_data_def)
  have "give_back b ?N H' k' = H" using sp a(8) by (auto simp: give_back_def)
  moreover have "b + ?N < 4294967296" using sp by simp
  ultimately obtain st'' k'' where "xhole st' (word_of_nat b) (round_size n) = Some st''" "xrep st'' H k''"
    using xhole_refines[OF a(2), of "word_of_nat b" "round_size n"] wb N by auto
  then show ?thesis using f ok x_holes_rep[OF ok(1)] x_holes_rep[of st'' H k''] by (auto simp: x_ok_def)
qed

theorem xfree_restores_witness:
  "\<exists>st st' p st''. xhole (x_boot (\<lambda>a. 0)) 0x100000 0x10000 = Some st \<and> xallocz st 100 True = Some (st', Some p) \<and>
     xfree st' p = Some st'' \<and> x_holes st'' = [(0x100000, 0x10000)]"
proof -
  obtain st where st: "xhole (x_boot (\<lambda>a. 0)) 0x100000 0x10000 = Some st" "x_ok st" "x_holes st = [(0x100000, 0x10000)]"
    using x_boot_one by blast
  have n: "unat (100::u32) < 2 ^ 32 - 16" by simp
  obtain H k where H: "xrep st H k" using st(2) by (auto simp: x_ok_def)
  then have rep: "xrep st [(0x100000, 0x10000)] k" using st(3) x_holes_rep[OF H] by simp
  have "take_hole (unat (round_size 100)) [(0x100000, 0x10000)] \<noteq> None" using round_size_eq[of 100] by simp
  then obtain st' p where x: "xallocz st 100 True = Some (st', Some p)"
    using xallocz_refines[OF rep refl, of 100 True] by (auto split: option.splits)
  from xfree_restores[OF st(2) n x] show ?thesis using st x by auto
qed

text \<open>
  C40. The blocks a sequence of \<open>xalloc\<close> calls returns are pairwise disjoint, come from the memory that was free
  at the start, and none of it is free at the end.
\<close>

theorem xalloc_blocks_disjoint:
  assumes "x_ok st" "blocks xblock st ns = Some (st', bs)"
  shows "sorted_wrt (\<lambda>(b, l) (c, m). {b..<b + l} \<inter> {c..<c + m} = {}) bs \<and>
    free_set bs \<subseteq> free_set (x_holes st) \<and> free_set (x_holes st') = free_set (x_holes st) - free_set bs"
  using xalloc_blocks.blocks_disjoint[OF assms] xalloc_blocks.blocks_available[OF assms] by blast

theorem xalloc_blocks_disjoint_witness:
  "\<exists>st st' b c. x_ok st \<and> blocks xblock st [100, 200] = Some (st', [b, c]) \<and>
     sorted_wrt (\<lambda>(b, l) (c, m). {b..<b + l} \<inter> {c..<c + m} = {}) [b, c]"
proof -
  have blk: "\<exists>st' b. xblock st n = Some (st', b) \<and> x_ok st' \<and> (\<exists>t'. t' + 256 \<ge> t \<and> (\<exists>c. x_holes st' = [(c, t')]))"
    if prem: "x_ok st" "x_holes st = [(a, t)]" "256 < t" "unat n \<le> 200" for st a t and n :: u32
  proof -
    obtain H k where ok: "xrep st H k" "holes_ok H" "free_set H \<subseteq> {..<1073741824}" using prem(1) by (auto simp: x_ok_def)
    then have H: "H = [(a, t)]" using prem(2) x_holes_rep by blast
    have n: "unat n < 4294967280" using prem(4) by simp
    have N: "unat (round_size n) \<le> 216" using round_size_bounds(2)[OF n] prem(4) by linarith
    then have tk: "take_hole (unat (round_size n)) H = Some (a, [(a + unat (round_size n), t - unat (round_size n))])"
      using H prem(3) by simp
    then obtain st' p k' where x: "xallocz st n True = Some (st', Some p)" "xrep st' [(a + unat (round_size n), t - unat (round_size n))] k'"
      using xallocz_refines[OF ok(1) refl, of n True] by auto
    then obtain b where b: "xblock st n = Some (st', b)" using n by (auto simp: xblock_def xalloc_def)
    then have "x_ok st'" using xblock_Some[OF prem(1), of n st' "fst b" "snd b"] by simp
    then show ?thesis using b N prem(3) x_holes_rep[OF x(2)] by (intro exI[of _ st'] exI[of _ b]) auto
  qed
  obtain st where st: "x_ok st" "x_holes st = [(0x100000, 0x10000)]" using x_boot_one by blast
  obtain s1 b t c where 1: "xblock st 100 = Some (s1, b)" "x_ok s1" "t + 256 \<ge> 0x10000" "x_holes s1 = [(c, t)]"
    using blk[OF st, of 100] by auto
  obtain s2 d where 2: "xblock s1 200 = Some (s2, d)" using blk[OF 1(2,4), of 200] 1(3) by auto
  have "blocks xblock st [100, 200] = Some (s2, [b, d])" using 1(1) 2 by simp
  from this xalloc_blocks_disjoint[OF st(1) this] st(1) show ?thesis by blast
qed

text \<open>A size near the top of the address space wraps around: the block is smaller than the request.\<close>

lemma xalloc_size_wraps: "round_size 0xFFFFFFF8 = 8"
  by code_simp

end
