(* ===== verification/Tod.thy ===== *)
theory Tod
  imports Prelude
begin

text \<open>
  The time-of-day clock of the kernel (\<open>Port/tod.c\<close>, \<open>Port/mul64fract.c\<close>): the conversion between
  ticks of the fast clock and nanoseconds by fixed-point multipliers, the gradual correction of the
  time (\<open>delta\<close> per slow tick between \<open>sstart\<close> and \<open>send\<close>), and the rule that the time handed out
  never goes backwards. The clock hardware is the record \<open>clock\<close> of readings an operation makes; a
  panic is \<open>None\<close>. Signed 64-bit fields are kept as their bit patterns and read with \<open>sint\<close>.
\<close>

section \<open>State\<close>

record TOD =
  t_init :: bool
  t_cnt :: u32
  t_multiplier :: u64
  t_divider :: u64
  t_umultiplier :: u64
  t_udivider :: u64
  t_hz :: u64
  t_last :: u64
  t_off :: u64
  t_lasttime :: u64
  t_delta :: u64
  t_sstart :: u32
  t_send :: u32

text \<open>
  What an operation reads from the machine: the reading and the frequency \<open>todinit\<close> gets from
  \<open>arch_fastticks\<close> when it runs, the reading the operation itself makes afterwards, and the slow
  tick counter of processor 0.
\<close>

record clock =
  ck_hz :: u64
  ck_fast0 :: u64
  ck_fast :: u64
  ck_ticks :: u32

definition TODFREQ :: u64 where "TODFREQ = 1000000000"
definition MicroFREQ :: u64 where "MicroFREQ = 1000000"
definition Arch_HZ :: u32 where "Arch_HZ = 1"

section \<open>Fixed-point arithmetic\<close>

definition arch_mul64fract :: "u64 \<Rightarrow> u64 \<Rightarrow> u64" where
  "arch_mul64fract a b =
    (let bl = b AND 0xffffffff;
         bh = drop_bit 32 b;
         al = a AND 0xffffffff;
         ah = drop_bit 32 a;
         res = drop_bit 32 (al * bl);
         res = res + al * bh;
         res = res + ah * bl;
         res = res + push_bit 32 (ah * bh)
     in res)"

definition mk64fract :: "u64 \<Rightarrow> u64 \<Rightarrow> u64 option" where
  "mk64fract to from = (if from = 0 then None else Some (push_bit 32 to div from))"

section \<open>Operations\<close>

definition todsetfreq :: "u64 \<Rightarrow> TOD \<Rightarrow> TOD option" where
  "todsetfreq f tod =
    (if sint f \<le> 0 then None
     else do {
       m \<leftarrow> mk64fract TODFREQ f;
       d \<leftarrow> mk64fract f TODFREQ;
       um \<leftarrow> mk64fract MicroFREQ f;
       ud \<leftarrow> mk64fract f MicroFREQ;
       Some (tod\<lparr>t_hz := f, t_multiplier := m, t_divider := d + 1, t_umultiplier := um,
                 t_udivider := ud + 1\<rparr>)
     })"

definition todinit :: "clock \<Rightarrow> TOD \<Rightarrow> TOD option" where
  "todinit ck tod =
    (if t_init tod then Some tod
     else
       let tod = tod\<lparr>t_init := True, t_last := ck_fast0 ck, t_hz := ck_hz ck\<rparr>
       in todsetfreq (t_hz tod) tod)"

text \<open>
  The adjustment interval of \<open>todset\<close>: \<open>n\<close> slow ticks, no more than the size of the correction.
  The comparisons are made in 64 bits, the assignments truncate to the 32 bits of \<open>n\<close>.
\<close>

definition clip_interval :: "u64 \<Rightarrow> u32 \<Rightarrow> u32" where
  "clip_interval delta n =
    (let n = (if sint n \<le> 0 then 1 else n);
         n = n * Arch_HZ;
         n = (if sint delta < 0 \<and> sint (- delta) < sint n then ucast (- delta) else n);
         n = (if 0 < sint delta \<and> sint delta < sint n then ucast delta else n)
     in n)"

definition todset :: "clock \<Rightarrow> u64 \<Rightarrow> u64 \<Rightarrow> u32 \<Rightarrow> TOD \<Rightarrow> TOD option" where
  "todset ck t delta n tod = do {
     tod \<leftarrow> todinit ck tod;
     if 0 \<le> sint t then
       Some (tod\<lparr>t_off := t, t_last := ck_fast ck, t_lasttime := 0, t_delta := 0,
                 t_sstart := t_send tod\<rparr>)
     else
       let n = clip_interval delta n;
           delta = (if n = 0 then 0 else word_of_int (sint delta sdiv sint n))
       in Some (tod\<lparr>t_sstart := ck_ticks ck, t_send := ck_ticks ck + n, t_delta := delta\<rparr>)
   }"

text \<open>The correction \<open>todget\<close> adds for the slow ticks that have passed.\<close>

definition todcorrect :: "u32 \<Rightarrow> TOD \<Rightarrow> TOD" where
  "todcorrect ticks tod =
    (if t_sstart tod \<noteq> t_send tod then
       let t = (if t_send tod \<le> ticks then t_send tod else ticks)
       in tod\<lparr>t_off := t_off tod + t_delta tod * ucast (t - t_sstart tod), t_sstart := t\<rparr>
     else tod)"

definition tod_epoch :: "u64 \<Rightarrow> TOD \<Rightarrow> u64" where
  "tod_epoch ticks tod =
    (let diff = ticks - t_last tod;
         diff = (if sint diff < 0 then 0 else diff)
     in arch_mul64fract diff (t_multiplier tod) + t_off tod)"

definition todget :: "clock \<Rightarrow> TOD \<Rightarrow> (u64 \<times> u64 \<times> TOD) option" where
  "todget ck tod = do {
     tod \<leftarrow> todinit ck tod;
     let tod = tod\<lparr>t_cnt := t_cnt tod + 1\<rparr>;
     let ticks = ck_fast ck;
     let tod = todcorrect (ck_ticks ck) tod;
     let x = tod_epoch ticks tod;
     if x < t_lasttime tod then Some (t_lasttime tod, ticks, tod)
     else Some (x, ticks, tod\<lparr>t_lasttime := x\<rparr>)
   }"

definition todfix :: "clock \<Rightarrow> TOD \<Rightarrow> TOD" where
  "todfix ck tod =
    (let ticks = ck_fast ck;
         diff = ticks - t_last tod
     in if sint (t_hz tod) < sint diff then
          let x = arch_mul64fract diff (t_multiplier tod) + t_off tod
          in tod\<lparr>t_last := ticks, t_off := x\<rparr>
        else tod)"

definition seconds :: "clock \<Rightarrow> TOD \<Rightarrow> (u32 \<times> TOD) option" where
  "seconds ck tod = do {
     (x, _, tod) \<leftarrow> todget ck tod;
     Some (ucast (x div TODFREQ), tod)
   }"

definition fastticks2us :: "clock \<Rightarrow> u64 \<Rightarrow> TOD \<Rightarrow> (u64 \<times> TOD) option" where
  "fastticks2us ck ticks tod = do {
     tod \<leftarrow> todinit ck tod;
     Some (arch_mul64fract ticks (t_umultiplier tod), tod)
   }"

definition ns2fastticks :: "clock \<Rightarrow> u64 \<Rightarrow> TOD \<Rightarrow> (u64 \<times> TOD) option" where
  "ns2fastticks ck ns tod = do {
     tod \<leftarrow> todinit ck tod;
     Some (arch_mul64fract ns (t_divider tod), tod)
   }"

section \<open>The fixed-point multiplication\<close>

lemma unat_lo32: "unat ((a::u64) AND 0xffffffff) = unat a mod 4294967296"
proof -
  have m: "(0xffffffff::u64) = mask 32" by code_simp
  show ?thesis unfolding m
    by (simp only: take_bit_eq_mask[symmetric] unsigned_take_bit_eq) (simp add: take_bit_eq_mod)
qed

lemma unat_hi32: "unat (drop_bit 32 (a::u64)) = unat a div 4294967296"
  by (simp only: unat_drop_bit_eq) (simp add: drop_bit_eq_div)

lemma mul_halves:
  fixes ah al bh bl :: nat
  assumes "al < K" "bl < K" and K: "K = 4294967296"
  shows "(ah * K + al) * (bh * K + bl) div K = (al * bl) div K + al * bh + ah * bl + ah * bh * K"
proof -
  have "(ah * K + al) * (bh * K + bl) = al * bl + (al * bh + ah * bl + ah * bh * K) * K"
    by (simp add: algebra_simps)
  then show ?thesis using K by simp
qed

lemma arch_mul64fract_correct:
  "unat (arch_mul64fract a b) = unat a * unat b div 4294967296 mod 18446744073709551616"
proof -
  let ?K = "4294967296::nat"
  define ah al bh bl where d: "ah = unat a div ?K" "al = unat a mod ?K" "bh = unat b div ?K" "bl = unat b mod ?K"
  have ab: "unat a = ah * ?K + al" "unat b = bh * ?K + bl" by (simp_all add: d)
  have l: "al < ?K" "bl < ?K" by (simp_all add: d)
  have al_bl: "al * bl < ?K * ?K" using mult_strict_mono[OF l] by simp
  have w: "unat (a AND 0xffffffff) = al" "unat (b AND 0xffffffff) = bl"
    "unat (drop_bit 32 a) = ah" "unat (drop_bit 32 b) = bh"
    by (simp_all add: unat_lo32 unat_hi32 d)
  have p: "unat (drop_bit 32 ((a AND 0xffffffff) * (b AND 0xffffffff))) = al * bl div ?K"
    using al_bl by (simp add: unat_hi32 unat_word_ariths w)
  have s: "unat (push_bit 32 (drop_bit 32 a * drop_bit 32 b)) = (ah * bh * ?K) mod 18446744073709551616"
    by (simp add: unsigned_push_bit_eq push_bit_eq_mult take_bit_eq_mod unat_word_ariths w mod_simps)
  have "unat (arch_mul64fract a b)
      = ((al * bl) div ?K + al * bh + ah * bl + ah * bh * ?K) mod 18446744073709551616"
    unfolding arch_mul64fract_def Let_def
    by (simp only: unat_word_ariths p s w) (simp add: mod_simps)
  then show ?thesis by (simp only: ab mul_halves[OF l refl])
qed


section \<open>Accuracy of the conversions\<close>

lemma mk64fract_value:
  assumes "unat to < 4294967296" "from \<noteq> 0"
  shows "\<exists>m. mk64fract to from = Some m \<and> unat m = unat to * 4294967296 div unat from"
proof -
  have "unat (push_bit 32 to) = unat to * 4294967296"
    using assms(1) by (simp add: push_bit_eq_mult unat_word_ariths)
  then show ?thesis using assms(2) by (simp add: mk64fract_def unat_div)
qed

lemma fract_below: "x * (c * K div f) div K * f \<le> x * (c::nat)" if "0 < K"
proof -
  have "x * (c * K div f) div K * f * K = x * (c * K div f) div K * K * f" by (simp add: ac_simps)
  also have "\<dots> \<le> x * (c * K div f) * f" by (intro mult_right_mono) simp_all
  also have "\<dots> = x * (c * K div f * f)" by (simp add: ac_simps)
  also have "\<dots> \<le> x * (c * K)" by (intro mult_left_mono) simp_all
  finally have "x * (c * K div f) div K * f * K \<le> x * c * K" by (simp add: ac_simps)
  then show ?thesis using that by simp
qed

lemma fract_above:
  fixes x c K f :: nat
  assumes K: "0 < K" and f: "0 < f"
  shows "x * c * K < (x * (c * K div f) div K * K + K + x) * f"
proof -
  define m where "m = c * K div f"
  have m: "c * K < (m + 1) * f"
    unfolding m_def using dividend_less_div_times[OF f, of "c * K"] by (simp add: algebra_simps)
  have n: "x * m < x * m div K * K + K" using dividend_less_div_times[OF K, of "x * m"] by simp
  have "x * c * K = x * (c * K)" by simp
  also have "\<dots> \<le> x * ((m + 1) * f)" using m by (intro mult_left_mono) simp_all
  also have "\<dots> = (x * m + x) * f" by (simp add: algebra_simps)
  also have "\<dots> < (x * m div K * K + K + x) * f"
    using n f by (intro mult_strict_right_mono) simp_all
  finally show ?thesis unfolding m_def .
qed

lemma fract_up:
  fixes x c K f :: nat
  assumes K: "0 < K" and f: "0 < f"
  shows "x * c < (x * (c * K div f + 1) div K + 1) * f"
proof -
  define m where "m = c * K div f + 1"
  have m: "c * K \<le> m * f"
    unfolding m_def using dividend_less_div_times[OF f, of "c * K"] by (simp add: algebra_simps)
  have n: "x * m < (x * m div K + 1) * K"
    using dividend_less_div_times[OF K, of "x * m"] by (simp add: algebra_simps)
  have "x * c * K = x * (c * K)" by simp
  also have "\<dots> \<le> x * m * f" using m by (metis mult.assoc mult_le_mono2)
  also have "\<dots> < (x * m div K + 1) * K * f" using n f by simp
  finally have "x * c * K < (x * m div K + 1) * f * K" by (simp only: ac_simps)
  then show ?thesis unfolding m_def by (simp only: mult_less_cancel2)
qed

lemma todsetfreq_fields:
  assumes f: "0 < unat f" "unat f < 4294967296"
  shows "\<exists>tod'. todsetfreq f tod = Some tod' \<and> t_hz tod' = f \<and> t_init tod' = t_init tod
     \<and> t_last tod' = t_last tod \<and> t_off tod' = t_off tod
     \<and> unat (t_multiplier tod') = 1000000000 * 4294967296 div unat f
     \<and> unat (t_divider tod') = unat f * 4294967296 div 1000000000 + 1"
proof -
  have f0: "f \<noteq> 0" using f by auto
  have u: "uint f = int (unat f)" by (simp only: uint_nat)
  have "0 < uint f" "uint f < 4294967296" unfolding u using f by linarith+
  then have s: "\<not> sint f \<le> 0" by (simp add: sint64_uint)
  have c: "unat TODFREQ = 1000000000" "unat MicroFREQ = 1000000" by (simp_all add: TODFREQ_def MicroFREQ_def)
  obtain m where m: "mk64fract TODFREQ f = Some m" "unat m = 1000000000 * 4294967296 div unat f"
    using mk64fract_value[of TODFREQ f] f0 c by auto
  obtain d where d: "mk64fract f TODFREQ = Some d" "unat d = unat f * 4294967296 div 1000000000"
    using mk64fract_value[of f TODFREQ] f c by (auto simp: TODFREQ_def)
  obtain um where um: "mk64fract MicroFREQ f = Some um" using mk64fract_value[of MicroFREQ f] f0 c by auto
  obtain ud where ud: "mk64fract f MicroFREQ = Some ud"
    using mk64fract_value[of f MicroFREQ] f c by (auto simp: MicroFREQ_def)
  have "unat d < 18446744073709551615" using d(2) f(2) by (simp add: div_less_iff_less_mult)
  then have "unat (d + 1) = unat f * 4294967296 div 1000000000 + 1"
    using d(2) by (simp add: unat64_add)
  then show ?thesis using s m d um ud by (simp add: todsetfreq_def)
qed

text \<open>
  C36. The conversions of the time-of-day clock. Once \<open>todsetfreq\<close> has installed a frequency \<open>f\<close>
  that fits in 32 bits, the nanoseconds computed for a span of \<open>d\<close> fast ticks never exceed the
  true value \<open>d * 10^9 / f\<close> and fall short of it by less than one nanosecond plus
  \<open>d / 2^32\<close>, as long as the true value fits in 64 bits; and the number of ticks \<open>ns2fastticks\<close>
  computes for a delay is never shorter than the delay by a whole tick.
\<close>

theorem tod_conversion:
  assumes f: "0 < unat f" "unat f < 4294967296"
    and d: "unat d * 1000000000 < unat f * 18446744073709551616"
    and ns: "unat ns * (unat f * 4294967296 div 1000000000 + 1) < 79228162514264337593543950336"
    and init: "t_init tod"
  shows "\<exists>tod' x t tod''. todsetfreq f tod = Some tod'
     \<and> arch_mul64fract d (t_multiplier tod') = x
     \<and> unat x * unat f \<le> unat d * 1000000000
     \<and> unat d * 1000000000 * 4294967296 < (unat x * 4294967296 + 4294967296 + unat d) * unat f
     \<and> ns2fastticks ck ns tod' = Some (t, tod'')
     \<and> unat ns * unat f < (unat t + 1) * 1000000000"
proof -
  let ?K = "4294967296::nat"
  obtain tod' where t: "todsetfreq f tod = Some tod'" "t_init tod'"
      "unat (t_multiplier tod') = 1000000000 * ?K div unat f"
      "unat (t_divider tod') = unat f * ?K div 1000000000 + 1"
    using todsetfreq_fields[OF f, of tod] init by auto
  let ?x = "arch_mul64fract d (t_multiplier tod')" and ?t = "arch_mul64fract ns (t_divider tod')"
  have b: "unat d * (1000000000 * ?K div unat f) div ?K * unat f \<le> unat d * 1000000000"
    by (rule fract_below) simp
  also note d
  finally have "unat d * (1000000000 * ?K div unat f) div ?K < 18446744073709551616"
    by (simp only: mult.commute[of "unat f"] mult_less_cancel2)
  then have x: "unat ?x = unat d * (1000000000 * ?K div unat f) div ?K"
    by (simp only: arch_mul64fract_correct t mod_less)
  have "unat ns * (unat f * ?K div 1000000000 + 1) < 18446744073709551616 * ?K" using ns by simp
  then have "unat ns * (unat f * ?K div 1000000000 + 1) div ?K < 18446744073709551616"
    by (simp only: div_less_iff_less_mult zero_less_numeral)
  then have y: "unat ?t = unat ns * (unat f * ?K div 1000000000 + 1) div ?K"
    by (simp only: arch_mul64fract_correct t mod_less)
  have "unat d * 1000000000 * ?K < (unat ?x * ?K + ?K + unat d) * unat f"
    unfolding x by (rule fract_above) (use f in simp_all)
  moreover have "unat ns * unat f < (unat ?t + 1) * 1000000000"
    unfolding y by (rule fract_up) simp_all
  moreover have "ns2fastticks ck ns tod' = Some (?t, tod')"
    using t(2) by (simp add: ns2fastticks_def todinit_def)
  ultimately show ?thesis using t(1) b[folded x] by blast
qed

definition tod0 :: TOD where
  "tod0 = \<lparr>t_init = True, t_cnt = 0, t_multiplier = 0, t_divider = 0, t_umultiplier = 0, t_udivider = 0,
     t_hz = 0, t_last = 0, t_off = 0, t_lasttime = 0, t_delta = 0, t_sstart = 0, t_send = 0\<rparr>"

definition clock0 :: clock where
  "clock0 = \<lparr>ck_hz = 1000000, ck_fast0 = 0, ck_fast = 5000000, ck_ticks = 5\<rparr>"

theorem tod_conversion_witness:
  "\<exists>tod' x t tod''. todsetfreq 1000000 tod0 = Some tod'
     \<and> arch_mul64fract 5000000 (t_multiplier tod') = x
     \<and> unat x * 1000000 \<le> 5000000 * 1000000000
     \<and> 5000000 * 1000000000 * 4294967296 < (unat x * 4294967296 + 4294967296 + 5000000) * 1000000
     \<and> ns2fastticks clock0 7000 tod' = Some (t, tod'')
     \<and> 7000 * 1000000 < (unat t + 1) * 1000000000"
  using tod_conversion[of 1000000 5000000 7000 tod0 clock0] by (simp add: tod0_def)

section \<open>Time never goes backwards\<close>

text \<open>
  A history of the clock: readings, gradual adjustments (\<open>todset\<close> with a negative time), the
  periodic \<open>todfix\<close> and changes of the frequency, each with what it reads from the machine.
\<close>

datatype tod_op =
    Get clock
  | Adjust clock u64 u32
  | Fix clock
  | Setfreq u64

fun tod_step :: "tod_op \<Rightarrow> TOD \<Rightarrow> (u64 list \<times> TOD) option" where
  "tod_step (Get ck) tod = map_option (\<lambda>(x, _, tod). ([x], tod)) (todget ck tod)"
| "tod_step (Adjust ck delta n) tod = map_option (Pair []) (todset ck (- 1) delta n tod)"
| "tod_step (Fix ck) tod = Some ([], todfix ck tod)"
| "tod_step (Setfreq f) tod = map_option (Pair []) (todsetfreq f tod)"

fun tod_run :: "tod_op list \<Rightarrow> TOD \<Rightarrow> (u64 list \<times> TOD) option" where
  "tod_run [] tod = Some ([], tod)"
| "tod_run (a # as) tod = do {
     (xs, tod) \<leftarrow> tod_step a tod;
     (ys, tod) \<leftarrow> tod_run as tod;
     Some (xs @ ys, tod)
   }"

lemma todsetfreq_lasttime: "todsetfreq f tod = Some tod' \<Longrightarrow> t_lasttime tod' = t_lasttime tod"
  by (auto simp: todsetfreq_def split: if_splits bind_splits)

lemma todinit_lasttime: "todinit ck tod = Some tod' \<Longrightarrow> t_lasttime tod' = t_lasttime tod"
  by (auto simp: todinit_def dest: todsetfreq_lasttime split: if_splits)

lemma todfix_lasttime: "t_lasttime (todfix ck tod) = t_lasttime tod"
  by (simp add: todfix_def Let_def)

lemma todcorrect_lasttime: "t_lasttime (todcorrect t tod) = t_lasttime tod"
  by (simp add: todcorrect_def Let_def)

lemma todget_lasttime:
  "todget ck tod = Some (x, k, tod') \<Longrightarrow> t_lasttime tod \<le> x \<and> t_lasttime tod' = x"
  by (auto simp: todget_def Let_def todcorrect_lasttime not_less dest!: todinit_lasttime
      split: if_splits bind_splits)

lemma tod_step_lasttime:
  "tod_step a tod = Some (xs, tod') \<Longrightarrow>
   t_lasttime tod \<le> t_lasttime tod' \<and> (xs = [] \<or> xs = [t_lasttime tod'])"
proof (cases a)
  case (Adjust ck delta n)
  assume "tod_step a tod = Some (xs, tod')"
  with Adjust show ?thesis
    by (auto simp: todset_def Let_def dest!: todinit_lasttime split: bind_splits)
qed (auto simp: todfix_lasttime dest: todget_lasttime todsetfreq_lasttime)

lemma tod_run_sorted:
  "tod_run as tod = Some (xs, tod') \<Longrightarrow>
   sorted xs \<and> (\<forall>x \<in> set xs. t_lasttime tod \<le> x \<and> x \<le> t_lasttime tod') \<and>
   t_lasttime tod \<le> t_lasttime tod'"
proof (induction as arbitrary: tod xs)
  case (Cons a as)
  from Cons.prems obtain ys tod1 zs where
    a: "tod_step a tod = Some (ys, tod1)" and r: "tod_run as tod1 = Some (zs, tod')" and xs: "xs = ys @ zs"
    by (auto split: bind_splits)
  have z: "sorted zs" "\<forall>x \<in> set zs. t_lasttime tod1 \<le> x \<and> x \<le> t_lasttime tod'"
    and l: "t_lasttime tod1 \<le> t_lasttime tod'"
    using Cons.IH[OF r] by auto
  show ?case using tod_step_lasttime[OF a] z l unfolding xs by (auto intro: order_trans)
qed simp

text \<open>
  C35. The time of day does not go backwards while it is positive. \<open>todget\<close> compares its new reading
  with the last one as unsigned numbers but hands it out as a signed one. Whatever the hardware
  counters read (even when the fast clock jumps back), and with any gradual adjustment, \<open>todfix\<close> and
  change of frequency in between, an earlier reading is at most a later one, except that a reading that
  is not negative can be followed by a negative one, and a negative reading is followed by negative
  readings only, as long as no absolute time is set. The same holds of the last time handed out before.
\<close>

theorem todget_monotone:
  assumes "tod_run as tod = Some (xs, tod')" "i < j" "j \<le> length xs"
    and "x = (t_lasttime tod # xs) ! i" "y = (t_lasttime tod # xs) ! j"
  shows "if sint x < 0 then sint y < 0 \<and> sint x \<le> sint y else sint y < 0 \<or> sint x \<le> sint y"
proof -
  have "sorted (t_lasttime tod # xs)" using tod_run_sorted[OF assms(1)] by simp
  then have "x \<le> y" unfolding assms(4,5) using assms(2,3) by (intro sorted_nth_mono) simp_all
  then have "uint x \<le> uint y" by (simp add: word_le_def)
  then show ?thesis using uint_bounded[of y] by (auto simp: sint64_uint)
qed

theorem todget_monotone_witness:
  "\<exists>tod'. tod_run [Setfreq 1000000, Get clock0, Get (clock0\<lparr>ck_fast := 4000000\<rparr>), Adjust clock0 50 2,
      Fix (clock0\<lparr>ck_fast := 6000000\<rparr>), Get (clock0\<lparr>ck_fast := 10000000\<rparr>)] tod0
      = Some ([5000000000, 5000000000, 10000000000], tod')
    \<and> sint ([5000000000, 5000000000, 10000000000 :: u64] ! 1) \<le> sint ([5000000000, 5000000000, 10000000000 :: u64] ! 2)"
proof -
  have "map_option fst (tod_run [Setfreq 1000000, Get clock0, Get (clock0\<lparr>ck_fast := 4000000\<rparr>),
      Adjust clock0 50 2, Fix (clock0\<lparr>ck_fast := 6000000\<rparr>), Get (clock0\<lparr>ck_fast := 10000000\<rparr>)] tod0)
      = Some [5000000000, 5000000000, 10000000000]"
    by code_simp
  then obtain tod' where r: "tod_run [Setfreq 1000000, Get clock0, Get (clock0\<lparr>ck_fast := 4000000\<rparr>),
      Adjust clock0 50 2, Fix (clock0\<lparr>ck_fast := 6000000\<rparr>), Get (clock0\<lparr>ck_fast := 10000000\<rparr>)] tod0
      = Some ([5000000000, 5000000000, 10000000000], tod')"
    by (auto simp only: map_option_eq_Some split_paired_all fst_conv)
  from todget_monotone[OF r, of 2 3 "5000000000" "10000000000"] r show ?thesis by simp
qed

text \<open>The exception happens: an adjustment by more than the time itself turns the next reading negative.\<close>

theorem todget_goes_back:
  "map_option (map sint \<circ> fst) (tod_run [Setfreq 1000000, Get clock0, Adjust clock0 (- 10000000000) 1,
     Get (clock0\<lparr>ck_ticks := 6\<rparr>)] tod0) = Some [5000000000, - 5000000000]"
  by code_simp

end
