(* ===== verification/Mlvalues.thy ===== *)
theory Mlvalues
  imports Prelude
begin

text \<open>
  The data model of the OCaml bytecode runtime (\<open>Byterun/mlvalues.h\<close>, \<open>gc.h\<close>, \<open>memory.h\<close>,
  \<open>major_gc.h\<close>, \<open>minor_gc.h\<close>): tagged values, block headers, the word-addressed memory, and the
  operations by which the rest of the runtime touches the heap: allocation in the young generation
  (\<open>Alloc_small\<close>), the write barrier (\<open>Modify\<close>, \<open>initialize\<close>, \<open>darken\<close>) and the raising of
  exceptions from C (\<open>fail.c\<close>).

  The memory is a partial map from word addresses to words, so that an access outside the mapped
  memory is an error (\<open>None\<close>). The collector that \<open>Alloc_small\<close> calls when the young generation is
  full is an argument \<open>gc\<close> of the definitions that use it.
\<close>

section \<open>Values and headers\<close>

type_synonym val = u32
type_synonym mem = "u32 \<Rightarrow> u32 option"

definition Is_long :: "val \<Rightarrow> bool" where "Is_long x \<longleftrightarrow> x AND 1 \<noteq> 0"
definition Is_block :: "val \<Rightarrow> bool" where "Is_block x \<longleftrightarrow> x AND 1 = 0"
definition Val_long :: "u32 \<Rightarrow> val" where "Val_long x = push_bit 1 x + 1"
definition Long_val :: "val \<Rightarrow> u32" where "Long_val x = signed_drop_bit 1 x"
definition Val_bool :: "bool \<Rightarrow> val" where "Val_bool b = Val_long (if b then 1 else 0)"
definition Val_not :: "val \<Rightarrow> val" where "Val_not x = 4 - x"
definition Val_unit :: val where "Val_unit = Val_long 0"
definition Val_false :: val where "Val_false = Val_long 0"

definition No_scan_tag :: u32 where "No_scan_tag = 251"
definition Closure_tag :: u32 where "Closure_tag = 250"
definition Infix_tag :: u32 where "Infix_tag = 249"
definition String_tag :: u32 where "String_tag = 252"
definition Double_tag :: u32 where "Double_tag = 253"
definition Double_array_tag :: u32 where "Double_array_tag = 254"
definition Abstract_tag :: u32 where "Abstract_tag = 251"
definition Final_tag :: u32 where "Final_tag = 255"
definition Max_young_wosize :: u32 where "Max_young_wosize = 256"
definition Max_wosize :: u32 where "Max_wosize = 4194303"

definition White :: u32 where "White = push_bit 8 0"
definition Gray :: u32 where "Gray = push_bit 8 1"
definition Blue :: u32 where "Blue = push_bit 8 2"
definition Black :: u32 where "Black = push_bit 8 3"

definition Tag_hd :: "u32 \<Rightarrow> u32" where "Tag_hd hdr = hdr AND 0xFF"
definition Wosize_hd :: "u32 \<Rightarrow> u32" where "Wosize_hd hdr = drop_bit 10 hdr"
definition Color_hd :: "u32 \<Rightarrow> u32" where "Color_hd hdr = hdr AND Black"
definition Is_white_hd :: "u32 \<Rightarrow> bool" where "Is_white_hd hdr \<longleftrightarrow> Color_hd hdr = White"
definition Is_gray_hd :: "u32 \<Rightarrow> bool" where "Is_gray_hd hdr \<longleftrightarrow> Color_hd hdr = Gray"
definition Is_blue_hd :: "u32 \<Rightarrow> bool" where "Is_blue_hd hdr \<longleftrightarrow> Color_hd hdr = Blue"
definition Whitehd_hd :: "u32 \<Rightarrow> u32" where "Whitehd_hd hdr = hdr AND NOT Black"
definition Grayhd_hd :: "u32 \<Rightarrow> u32" where "Grayhd_hd hdr = (hdr AND NOT Black) OR Gray"
definition Blackhd_hd :: "u32 \<Rightarrow> u32" where "Blackhd_hd hdr = hdr OR Black"
definition Bluehd_hd :: "u32 \<Rightarrow> u32" where "Bluehd_hd hdr = (hdr AND NOT Black) OR Blue"
definition Make_header :: "u32 \<Rightarrow> u32 \<Rightarrow> u32 \<Rightarrow> u32" where
  "Make_header wosize tag color = push_bit 10 wosize + color + tag"

definition Bsize_wsize :: "u32 \<Rightarrow> u32" where "Bsize_wsize sz = sz * 4"
definition Wsize_bsize :: "u32 \<Rightarrow> u32" where "Wsize_bsize sz = sz div 4"
definition Whsize_wosize :: "u32 \<Rightarrow> u32" where "Whsize_wosize sz = sz + 1"
definition Wosize_whsize :: "u32 \<Rightarrow> u32" where "Wosize_whsize sz = sz - 1"
definition Bhsize_wosize :: "u32 \<Rightarrow> u32" where "Bhsize_wosize sz = Bsize_wsize (Whsize_wosize sz)"
definition Bosize_hd :: "u32 \<Rightarrow> u32" where "Bosize_hd hdr = Bsize_wsize (Wosize_hd hdr)"
definition Infix_offset_hd :: "u32 \<Rightarrow> u32" where "Infix_offset_hd hdr = Bosize_hd hdr"

section \<open>The heap\<close>

text \<open>
  The variables of the memory manager the other parts of the runtime share. \<open>gray_vals\<close> and
  \<open>ref_table\<close> are the two stacks with the last entry first; \<open>heap_room\<close> is what \<open>realloc\<close> answers
  when one of them has to grow; \<open>in_heap\<close> is the page table. \<open>local_roots\<close> holds the values of C
  variables registered with \<open>Begin_roots\<close>.
\<close>

datatype gc_phase = Phase_mark | Phase_sweep | Phase_idle

record mlheap =
  h_mem :: mem
  young_start :: u32
  young_end :: u32
  young_ptr :: u32
  young_limit :: u32
  in_heap :: "u32 \<Rightarrow> bool"
  h_phase :: gc_phase
  gray_vals :: "val list"
  gray_vals_size :: u32
  heap_is_pure :: bool
  stat_heap_size :: u32
  heap_room :: bool
  ref_table :: "u32 list"
  ref_table_size :: u32
  ref_table_reserve :: u32
  ref_table_limit :: u32
  force_major_slice :: bool
  something_to_do :: bool
  pending_signal :: u32
  local_roots :: "val list"
  global_data :: val

definition load :: "'a mlheap_scheme \<Rightarrow> u32 \<Rightarrow> u32 option" where
  "load h a = h_mem h a"

definition store :: "u32 \<Rightarrow> u32 \<Rightarrow> 'a mlheap_scheme \<Rightarrow> 'a mlheap_scheme option" where
  "store a v h = (if h_mem h a = None then None else Some (h\<lparr>h_mem := (h_mem h)(a \<mapsto> v)\<rparr>))"

definition Field_addr :: "val \<Rightarrow> u32 \<Rightarrow> u32" where "Field_addr v i = v + 4 * i"

definition Field_get :: "'a mlheap_scheme \<Rightarrow> val \<Rightarrow> u32 \<Rightarrow> val option" where
  "Field_get h v i = load h (Field_addr v i)"

definition Hd_val :: "'a mlheap_scheme \<Rightarrow> val \<Rightarrow> u32 option" where
  "Hd_val h v = load h (v - 4)"

definition Wosize_val :: "'a mlheap_scheme \<Rightarrow> val \<Rightarrow> u32 option" where
  "Wosize_val h v = map_option Wosize_hd (Hd_val h v)"

definition Tag_val :: "'a mlheap_scheme \<Rightarrow> val \<Rightarrow> u32 option" where
  "Tag_val h v = map_option Tag_hd (Hd_val h v)"

definition Is_young :: "'a mlheap_scheme \<Rightarrow> val \<Rightarrow> bool" where
  "Is_young h v \<longleftrightarrow> young_start h < v \<and> v < young_end h"

text \<open>Bytes of a block: the byte at address \<open>a\<close> is in the word at the aligned address below it.\<close>

definition Byte_u :: "'a mlheap_scheme \<Rightarrow> val \<Rightarrow> u32 \<Rightarrow> u8 option" where
  "Byte_u h v i =
    (let a = v + i in
     map_option (\<lambda>w. ucast (drop_bit (8 * unat (a AND 3)) w)) (load h (a AND NOT 3)))"

definition set_byte :: "u32 \<Rightarrow> u8 \<Rightarrow> u32 \<Rightarrow> u32" where
  "set_byte k b w = (w AND NOT (push_bit (8 * unat k) 0xFF)) OR push_bit (8 * unat k) (ucast b)"

definition Byte_set :: "val \<Rightarrow> u32 \<Rightarrow> u8 \<Rightarrow> 'a mlheap_scheme \<Rightarrow> 'a mlheap_scheme option" where
  "Byte_set v i b h = do {
     let a = v + i;
     w \<leftarrow> load h (a AND NOT 3);
     store (a AND NOT 3) (set_byte (a AND 3) b w) h
   }"

section \<open>Write barrier\<close>

definition urge_major_slice :: "'a mlheap_scheme \<Rightarrow> 'a mlheap_scheme" where
  "urge_major_slice h = h\<lparr>force_major_slice := True, something_to_do := True\<rparr>"

definition realloc_gray_vals :: "'a mlheap_scheme \<Rightarrow> 'a mlheap_scheme" where
  "realloc_gray_vals h =
    (if gray_vals_size h < stat_heap_size h div 128 then
       if heap_room h then h\<lparr>gray_vals_size := gray_vals_size h * 2\<rparr>
       else h\<lparr>gray_vals := [], heap_is_pure := False\<rparr>
     else
       h\<lparr>gray_vals := drop (length (gray_vals h) - unat (gray_vals_size h div 2)) (gray_vals h),
         heap_is_pure := False\<rparr>)"

definition push_gray :: "val \<Rightarrow> 'a mlheap_scheme \<Rightarrow> 'a mlheap_scheme" where
  "push_gray v h =
    (let h = h\<lparr>gray_vals := v # gray_vals h\<rparr> in
     if unat (gray_vals_size h) \<le> length (gray_vals h) then realloc_gray_vals h else h)"

definition darken :: "val \<Rightarrow> 'a mlheap_scheme \<Rightarrow> 'a mlheap_scheme option" where
  "darken v h =
    (if Is_block v \<and> in_heap h v then do {
       hdr \<leftarrow> Hd_val h v;
       let v = (if Tag_hd hdr = Infix_tag then v - Infix_offset_hd hdr else v);
       hdr \<leftarrow> Hd_val h v;
       if Is_white_hd hdr then do {
         h \<leftarrow> store (v - 4) (Grayhd_hd hdr) h;
         Some (push_gray v h)
       } else Some h
     } else Some h)"

definition realloc_ref_table :: "'a mlheap_scheme \<Rightarrow> 'a mlheap_scheme option" where
  "realloc_ref_table h =
    (if ref_table_limit h = ref_table_size h then
       Some (urge_major_slice (h\<lparr>ref_table_limit := ref_table_size h + ref_table_reserve h\<rparr>))
     else if heap_room h then
       let n = ref_table_size h * 2 in
       Some (h\<lparr>ref_table_size := n, ref_table_limit := n + ref_table_reserve h\<rparr>)
     else None)"

definition push_ref :: "u32 \<Rightarrow> 'a mlheap_scheme \<Rightarrow> 'a mlheap_scheme option" where
  "push_ref fp h =
    (let h = h\<lparr>ref_table := fp # ref_table h\<rparr> in
     if unat (ref_table_limit h) \<le> length (ref_table h) then realloc_ref_table h else Some h)"

definition Modify :: "u32 \<Rightarrow> val \<Rightarrow> 'a mlheap_scheme \<Rightarrow> 'a mlheap_scheme option" where
  "Modify fp v h = do {
     old \<leftarrow> load h fp;
     h \<leftarrow> store fp v h;
     if in_heap h fp then do {
       h \<leftarrow> (if h_phase h = Phase_mark then darken old h else Some h);
       if Is_block v \<and> Is_young h v \<and> \<not> (Is_block old \<and> Is_young h old) then push_ref fp h
       else Some h
     } else Some h
   }"

definition initialize :: "u32 \<Rightarrow> val \<Rightarrow> 'a mlheap_scheme \<Rightarrow> 'a mlheap_scheme option" where
  "initialize fp v h = do {
     h \<leftarrow> store fp v h;
     if in_heap h fp \<and> Is_block v \<and> Is_young h v then push_ref fp h else Some h
   }"

section \<open>Allocation in the young generation and exceptions\<close>

definition Alloc_small ::
  "('a mlheap_scheme \<Rightarrow> 'a mlheap_scheme option) \<Rightarrow> u32 \<Rightarrow> u32 \<Rightarrow> 'a mlheap_scheme
   \<Rightarrow> (val \<times> 'a mlheap_scheme) option" where
  "Alloc_small gc wosize tag h = do {
     let h = h\<lparr>young_ptr := young_ptr h - Bhsize_wosize wosize\<rparr>;
     h \<leftarrow> (if young_ptr h < young_limit h then do {
             h \<leftarrow> gc h;
             Some (h\<lparr>young_ptr := young_ptr h - Bhsize_wosize wosize\<rparr>)
           } else Some h);
     h \<leftarrow> store (young_ptr h) (Make_header wosize tag Black) h;
     Some (young_ptr h + 4, h)
   }"

definition raise_constant ::
  "('a mlheap_scheme \<Rightarrow> 'a mlheap_scheme option) \<Rightarrow> val \<Rightarrow> 'a mlheap_scheme
   \<Rightarrow> (val \<times> 'a mlheap_scheme) option" where
  "raise_constant gc tag h = do {
     (bucket, h) \<leftarrow> Alloc_small gc 1 0 (h\<lparr>local_roots := tag # local_roots h\<rparr>);
     tag \<leftarrow> rd (local_roots h) 0;
     h \<leftarrow> store (Field_addr bucket 0) tag h;
     Some (bucket, h\<lparr>local_roots := tl (local_roots h)\<rparr>)
   }"

definition raise_with_arg ::
  "('a mlheap_scheme \<Rightarrow> 'a mlheap_scheme option) \<Rightarrow> val \<Rightarrow> val \<Rightarrow> 'a mlheap_scheme
   \<Rightarrow> (val \<times> 'a mlheap_scheme) option" where
  "raise_with_arg gc tag arg h = do {
     (bucket, h) \<leftarrow> Alloc_small gc 2 0 (h\<lparr>local_roots := tag # arg # local_roots h\<rparr>);
     tag \<leftarrow> rd (local_roots h) 0;
     arg \<leftarrow> rd (local_roots h) 1;
     h \<leftarrow> store (Field_addr bucket 0) tag h;
     h \<leftarrow> store (Field_addr bucket 1) arg h;
     Some (bucket, h\<lparr>local_roots := tl (tl (local_roots h))\<rparr>)
   }"

definition raise_exn ::
  "('a mlheap_scheme \<Rightarrow> 'a mlheap_scheme option) \<Rightarrow> u32 \<Rightarrow> 'a mlheap_scheme
   \<Rightarrow> (val \<times> 'a mlheap_scheme) option" where
  "raise_exn gc n h = do {
     tag \<leftarrow> Field_get h (global_data h) n;
     raise_constant gc tag h
   }"

definition END_OF_FILE_EXN :: u32 where "END_OF_FILE_EXN = 4"
definition ZERO_DIVIDE_EXN :: u32 where "ZERO_DIVIDE_EXN = 5"
definition NOT_FOUND_EXN :: u32 where "NOT_FOUND_EXN = 6"
definition STACK_OVERFLOW_EXN :: u32 where "STACK_OVERFLOW_EXN = 8"

definition raise_stack_overflow where "raise_stack_overflow gc h = raise_exn gc STACK_OVERFLOW_EXN h"
definition raise_end_of_file where "raise_end_of_file gc h = raise_exn gc END_OF_FILE_EXN h"
definition raise_zero_divide where "raise_zero_divide gc h = raise_exn gc ZERO_DIVIDE_EXN h"
definition raise_not_found where "raise_not_found gc h = raise_exn gc NOT_FOUND_EXN h"

section \<open>Encoding of integers\<close>

text \<open>The integers of the language: 31 bits, and the wrap-around of a result into them.\<close>

definition i31 :: "int \<Rightarrow> int" where
  "i31 x = (x + 1073741824) mod 2147483648 - 1073741824"

definition Val_int :: "int \<Rightarrow> val" where
  "Val_int n = Val_long (word_of_int n)"

lemma i31_id: "- 1073741824 \<le> x \<Longrightarrow> x < 1073741824 \<Longrightarrow> i31 x = x"
  by (simp add: i31_def)

lemma i31_range: "- 1073741824 \<le> i31 x" "i31 x < 1073741824"
  by (simp_all add: i31_def)

lemma Val_int_word: "Val_int n = word_of_int (2 * n + 1)"
  by (simp add: Val_int_def Val_long_def push_bit_eq_mult)

lemma Val_int_i31: "Val_int (i31 n) = Val_int n"
proof -
  define k where "k = (n + 1073741824) div 2147483648"
  have "i31 n = n - 2147483648 * k" by (simp add: i31_def k_def minus_mult_div_eq_mod[symmetric])
  then have "2 * i31 n + 1 = 2 * n + 1 - 4294967296 * k" by simp
  then have "(2 * i31 n + 1) mod 4294967296 = (2 * n + 1) mod 4294967296"
    by (metis mod_diff_right_eq mod_mult_self1_is_0 diff_zero)
  then have "(word_of_int (2 * i31 n + 1) :: u32) = word_of_int (2 * n + 1)"
    by (simp only: word_of_int_eq_iff take_bit_eq_mod) simp
  then show ?thesis by (simp only: Val_int_word)
qed

lemma Is_long_Val_int [simp]: "Is_long (Val_int n)" "\<not> Is_block (Val_int n)"
proof -
  have "odd (Val_int n)" by (simp add: Val_int_def Val_long_def push_bit_eq_mult)
  then show "Is_long (Val_int n)" "\<not> Is_block (Val_int n)"
    by (simp_all add: Is_long_def Is_block_def and_one_eq mod_2_eq_odd)
qed

lemma sint_Long_val: "sint (Long_val v) = sint v div 2"
  by (simp add: Long_val_def sint_signed_drop_bit_eq drop_bit_eq_div)

lemma sint_Val_int:
  assumes "- 1073741824 \<le> n" "n < 1073741824"
  shows "sint (Val_int n) = 2 * n + 1"
proof -
  have "sint (word_of_int (2 * n + 1) :: u32) = 2 * n + 1"
    using assms by (simp only: i32_sint[symmetric]) (simp add: i32_id)
  then show ?thesis by (simp only: Val_int_word)
qed

lemma Long_val_Val_int:
  assumes "- 1073741824 \<le> n" "n < 1073741824"
  shows "sint (Long_val (Val_int n)) = n"
  using sint_Val_int[OF assms] by (simp add: sint_Long_val)

section \<open>Headers\<close>

lemma mod_1024_256: "(w * 1024 + (c * 256 + t)) mod 256 = t mod (256::nat)"
proof -
  have "w * 1024 + (c * 256 + t) = t + (w * 4 + c) * 256" by simp
  then show ?thesis by (simp only: mod_mult_self1)
qed

lemma Make_header_parts:
  assumes w: "unat w < 4194304" and t: "tag < 256" and c: "color \<in> {White, Gray, Blue, Black}"
  shows "Wosize_hd (Make_header w tag color) = w" "Tag_hd (Make_header w tag color) = tag"
    "Color_hd (Make_header w tag color) = color"
proof -
  obtain c' where c': "color = push_bit 8 c'" "unat c' < 4" "push_bit 8 c' AND Black = push_bit 8 c'"
  proof -
    have "\<exists>c' \<in> {0, 1, 2, 3}. color = push_bit 8 c'"
      using c unfolding White_def Gray_def Blue_def Black_def by blast
    then obtain c' where m: "c' \<in> {0, 1, 2, 3}" and e: "color = push_bit 8 c'" by blast
    have "unat c' < 4 \<and> push_bit 8 c' AND Black = push_bit 8 c'" using m by (auto simp: Black_def)
    then show ?thesis using that e by blast
  qed
  have ut: "unat tag < 256" using t by (simp add: word_less_nat_alt)
  have uc: "unat color = unat c' * 256" using c' unat_push_bit32[of c' 8] by simp
  have ct: "unat (color + tag) = unat color + unat tag" using uc ut c'(2) by (intro unat_add32) simp
  then have l: "unat (color + tag) < 1024" using uc ut c'(2) by simp
  have uw: "unat (push_bit 10 w) = unat w * 1024" using unat_push_bit32[of w 10] w by simp
  have h: "Make_header w tag color = push_bit 10 w + (color + tag)" by (simp add: Make_header_def)
  have u: "unat (Make_header w tag color) = unat w * 1024 + unat (color + tag)"
    unfolding h using uw l w unat_add32[of "push_bit 10 w" "color + tag"] by simp
  show "Wosize_hd (Make_header w tag color) = w"
    using l by (simp add: Wosize_hd_def word_unat_eq_iff unat_drop_bit32 u)
  have "(0xFF::u32) = mask 8" by code_simp
  then have "Tag_hd (Make_header w tag color) = take_bit 8 (Make_header w tag color)"
    by (simp add: Tag_hd_def take_bit_eq_mask)
  moreover have "unat (take_bit 8 (Make_header w tag color)) = unat tag"
  proof -
    have "unat (Make_header w tag color) mod 256 = unat tag mod 256"
      unfolding u ct uc by (rule mod_1024_256)
    then show ?thesis using ut by (simp add: unat_take_bit32)
  qed
  ultimately show "Tag_hd (Make_header w tag color) = tag" by (simp add: word_unat_eq_iff)
  have o: "Make_header w tag color = push_bit 10 w OR (color OR tag)"
  proof -
    have "color AND tag = 0" unfolding c'(1) by (rule push_and_small) (use ut in simp)
    then have "color OR tag = color + tag" by (rule word_or_eq_add)
    moreover have "push_bit 10 w AND (color + tag) = 0" by (rule push_and_small) (use l in simp)
    ultimately show ?thesis using word_or_eq_add[of "push_bit 10 w" "color + tag"] h by simp
  qed
  have "push_bit 10 w AND Black = 0" by (rule push_and_small) (simp add: Black_def)
  moreover have "tag AND Black = 0"
    using push_and_small[of tag 8 3] ut by (simp add: Black_def and.commute)
  moreover have "color AND Black = color" using c' by simp
  ultimately show "Color_hd (Make_header w tag color) = color"
    by (simp add: Color_hd_def o bit.conj_disj_distrib2)
qed


end
