(* ===== verification/Interp.thy ===== *)
theory Interp
  imports Mlvalues
begin

text \<open>
  The bytecode interpreter (\<open>Byterun/interp.c\<close>) with the parts of \<open>stacks.c\<close> and \<open>fail.c\<close> it uses:
  the machine registers, the decoding of opcodes (\<open>instruct.h\<close>) and one transition per instruction.

  The stack is the list of its cells, the top (\<open>sp[0]\<close>) first, inside an area of \<open>stack_words\<close> words;
  pointers into the stack (\<open>trapsp\<close> and the links of the trap frames) are their byte offset from
  \<open>stack_high\<close>, which is what \<open>realloc_stack\<close> keeps when it moves the stack. As in the code a push
  is not checked: the list can become longer than the area, which is a write below \<open>stack_low\<close>, and
  only \<open>check_stacks\<close> prevents it (\<open>Interp_Inv\<close>). An access above \<open>stack_high\<close> or outside the
  mapped memory and a shift the language leaves undefined are errors (\<open>None\<close>). The code, the C
  primitives and the collector are components of the record \<open>runtime\<close>.

  The configuration is the one of this system: \<open>plan9.h\<close> undefines \<open>HAS_SOCKETS\<close>, so \<open>debugger\<close>
  (\<open>debugger.c\<close>) is the empty function and its calls in \<open>raise_exception\<close>, \<open>EVENT\<close> and
  \<open>BREAK\<close> change nothing; \<open>EVENT\<close> still counts and both dispatch the instruction saved in
  \<open>saved_code\<close>. The trace of \<open>stash_backtrace\<close>, which only fills the backtrace buffer, is not
  modelled.
\<close>

section \<open>Machine state\<close>

record vm = mlheap +
  v_pc :: u32
  v_sp :: "val list"
  v_accu :: val
  v_env :: val
  v_extra_args :: u32
  v_trapsp :: u32
  stack_words :: u32
  max_stack_size :: u32
  signal_handlers :: val
  callback_depth :: u32
  event_count :: u32

datatype cresult = Returns val vm | Raises val vm

record runtime =
  rt_code :: mem
  rt_saved :: "u32 \<Rightarrow> u8 option"
  rt_atom_table :: u32
  rt_cprim :: "u32 \<Rightarrow> (val list \<Rightarrow> vm \<Rightarrow> cresult option) option"
  rt_gc :: "vm \<Rightarrow> vm option"
  rt_oom_bucket :: u32
  rt_sp_offset :: u32
  rt_roots :: nat
  rt_callback_depth :: u32

datatype outcome =
    Next vm
  | Stop val vm
  | Uncaught val vm
  | Bad_opcode u32

section \<open>Registers and stack\<close>

definition Stack_threshold :: nat where "Stack_threshold = 256"

definition fetch :: "runtime \<Rightarrow> vm \<Rightarrow> (u32 \<times> vm) option" where
  "fetch rt s = map_option (\<lambda>w. (w, s\<lparr>v_pc := v_pc s + 4\<rparr>)) (rt_code rt (v_pc s))"

definition jump :: "runtime \<Rightarrow> vm \<Rightarrow> u32 option" where
  "jump rt s = map_option (\<lambda>w. v_pc s + 4 * w) (rt_code rt (v_pc s))"

definition push :: "val \<Rightarrow> vm \<Rightarrow> vm option" where
  "push v s = Some (s\<lparr>v_sp := v # v_sp s\<rparr>)"

fun pushes :: "val list \<Rightarrow> vm \<Rightarrow> vm option" where
  "pushes [] s = Some s"
| "pushes (v # vs) s = do { s \<leftarrow> pushes vs s; push v s }"

definition popn :: "u32 \<Rightarrow> vm \<Rightarrow> vm option" where
  "popn n s = (if 0 \<le> sint n \<and> unat n \<le> length (v_sp s) then Some (s\<lparr>v_sp := drop (unat n) (v_sp s)\<rparr>)
               else None)"

definition pop :: "vm \<Rightarrow> (val \<times> vm) option" where
  "pop s = (case v_sp s of [] \<Rightarrow> None | v # vs \<Rightarrow> Some (v, s\<lparr>v_sp := vs\<rparr>))"

definition sp_at :: "vm \<Rightarrow> u32 \<Rightarrow> val option" where
  "sp_at s i = (if 0 \<le> sint i then rd (v_sp s) (unat i) else None)"

definition sp_take :: "u32 \<Rightarrow> vm \<Rightarrow> (val list \<times> vm) option" where
  "sp_take n s = map_option (Pair (take (unat n) (v_sp s))) (popn n s)"

definition sp_set :: "u32 \<Rightarrow> val \<Rightarrow> vm \<Rightarrow> vm option" where
  "sp_set i v s =
    (if 0 \<le> sint i then map_option (\<lambda>l. s\<lparr>v_sp := l\<rparr>) (wr (v_sp s) (unat i) v) else None)"

definition set_accu :: "val \<Rightarrow> vm \<Rightarrow> vm" where
  "set_accu v s = s\<lparr>v_accu := v\<rparr>"

definition skip :: "vm \<Rightarrow> vm" where
  "skip s = s\<lparr>v_pc := v_pc s + 4\<rparr>"

fun store_fields :: "val \<Rightarrow> u32 \<Rightarrow> val list \<Rightarrow> vm \<Rightarrow> vm option" where
  "store_fields b i [] s = Some s"
| "store_fields b i (v # vs) s = do { s \<leftarrow> store (Field_addr b i) v s; store_fields b (i + 1) vs s }"

fun load_fields :: "vm \<Rightarrow> val \<Rightarrow> u32 \<Rightarrow> nat \<Rightarrow> val list option" where
  "load_fields s b i 0 = Some []"
| "load_fields s b i (Suc n) = do {
     v \<leftarrow> Field_get s b i; vs \<leftarrow> load_fields s b (i + 1) n; Some (v # vs) }"

text \<open>Enter the closure in the accumulator (\<open>pc = Code_val(accu); env = accu\<close>).\<close>

definition enter :: "vm \<Rightarrow> vm option" where
  "enter s = map_option (\<lambda>c. s\<lparr>v_pc := c, v_env := v_accu s\<rparr>) (Field_get s (v_accu s) 0)"

text \<open>Return to the frame on top of the stack.\<close>

definition pop_frame :: "vm \<Rightarrow> vm option" where
  "pop_frame s = do {
     (c, s) \<leftarrow> pop s;
     (e, s) \<leftarrow> pop s;
     (x, s) \<leftarrow> pop s;
     Some (s\<lparr>v_pc := c, v_env := e, v_extra_args := Long_val x\<rparr>)
   }"

definition Atom :: "runtime \<Rightarrow> u32 \<Rightarrow> val" where
  "Atom rt t = rt_atom_table rt + 4 * t + 4"

section \<open>Exceptions, collection, stack checks and signals\<close>

definition raise_exception :: "runtime \<Rightarrow> vm \<Rightarrow> outcome option" where
  "raise_exception rt s =
    (let k = unat (v_trapsp s) div 4 in
     if v_trapsp s AND 3 \<noteq> 0 \<or> length (v_sp s) < k then None
     else
       let s = s\<lparr>v_sp := drop (length (v_sp s) - k) (v_sp s)\<rparr> in
       if v_trapsp s \<le> rt_sp_offset rt then Some (Uncaught (v_accu s) s)
       else do {
         (h, s) \<leftarrow> pop s;
         (l, s) \<leftarrow> pop s;
         (e, s) \<leftarrow> pop s;
         (x, s) \<leftarrow> pop s;
         Some (Next (s\<lparr>v_pc := h, v_trapsp := l, v_env := e, v_extra_args := Long_val x\<rparr>))
       })"

text \<open>An exception raised by C code: the \<open>siglongjmp\<close> comes back at the start of the interpreter.\<close>

definition external_raise :: "runtime \<Rightarrow> val \<Rightarrow> vm \<Rightarrow> outcome option" where
  "external_raise rt b s =
    raise_exception rt (s\<lparr>local_roots := drop (length (local_roots s) - rt_roots rt) (local_roots s),
      callback_depth := rt_callback_depth rt, v_accu := b, v_pc := 0\<rparr>)"

definition gc_saved :: "runtime \<Rightarrow> vm \<Rightarrow> vm option" where
  "gc_saved rt s = do {
     s \<leftarrow> push (v_env s) s;
     s \<leftarrow> push (v_accu s) s;
     s \<leftarrow> rt_gc rt s;
     (a, s) \<leftarrow> pop s;
     (e, s) \<leftarrow> pop s;
     Some (s\<lparr>v_accu := a, v_env := e\<rparr>)
   }"

definition alloc_block :: "runtime \<Rightarrow> u32 \<Rightarrow> u32 \<Rightarrow> vm \<Rightarrow> (val \<times> vm) option" where
  "alloc_block rt wosize tag s = Alloc_small (gc_saved rt) wosize tag s"

definition process_signal :: "runtime \<Rightarrow> vm \<Rightarrow> vm option" where
  "process_signal rt s = do {
     let s = s\<lparr>something_to_do := False\<rparr>;
     s \<leftarrow> (if force_major_slice s then gc_saved rt s else Some s);
     let n = pending_signal s;
     let s = s\<lparr>pending_signal := 0\<rparr>;
     if n \<noteq> 0 then do {
       s \<leftarrow> pushes [Val_long n, v_pc s, v_env s, Val_long (v_extra_args s)] s;
       e \<leftarrow> Field_get s (signal_handlers s) n;
       c \<leftarrow> Field_get s e 0;
       Some (s\<lparr>v_env := e, v_pc := c, v_extra_args := 0\<rparr>)
     } else Some s
   }"

definition check_signals :: "runtime \<Rightarrow> vm \<Rightarrow> outcome option" where
  "check_signals rt s = map_option Next (if something_to_do s then process_signal rt s else Some s)"

definition raise_out_of_memory :: "runtime \<Rightarrow> vm \<Rightarrow> (val \<times> vm) option" where
  "raise_out_of_memory rt s = do {
     e \<leftarrow> Field_get s (global_data s) 0;
     s \<leftarrow> store (rt_oom_bucket rt) (Make_header 1 0 White) s;
     s \<leftarrow> store (rt_oom_bucket rt + 4) e s;
     Some (rt_oom_bucket rt + 4, s)
   }"

definition realloc_stack :: "runtime \<Rightarrow> vm \<Rightarrow> (val \<times> vm) option + vm" where
  "realloc_stack rt s =
    (if max_stack_size s \<le> stack_words s then Inl (raise_stack_overflow (rt_gc rt) s)
     else if \<not> heap_room s then Inl (raise_out_of_memory rt s)
     else Inr (s\<lparr>stack_words := stack_words s * 2\<rparr>))"

definition check_stacks :: "runtime \<Rightarrow> vm \<Rightarrow> outcome option" where
  "check_stacks rt s =
    (if unat (stack_words s) < length (v_sp s) + Stack_threshold then
       (case realloc_stack rt s of
          Inl r \<Rightarrow> do { (b, s) \<leftarrow> r; external_raise rt b s }
        | Inr s \<Rightarrow> check_signals rt s)
     else check_signals rt s)"

section \<open>Instructions\<close>

subsection \<open>Stack and environment\<close>

datatype stack_op = ACC | PUSH | POP | ASSIGN | ACCn u32 | PUSHACCn u32 | PUSHACC

fun step_stack :: "runtime \<Rightarrow> stack_op \<Rightarrow> vm \<Rightarrow> vm option" where
  "step_stack rt PUSHACC s = do {
     s \<leftarrow> push (v_accu s) s;
     (n, s) \<leftarrow> fetch rt s;
     v \<leftarrow> sp_at s n;
     Some (set_accu v s) }"
| "step_stack rt ACC s = do {
     (n, s) \<leftarrow> fetch rt s;
     v \<leftarrow> sp_at s n;
     Some (set_accu v s) }"
| "step_stack rt PUSH s = push (v_accu s) s"
| "step_stack rt POP s = do {
     (n, s) \<leftarrow> fetch rt s;
     popn n s }"
| "step_stack rt ASSIGN s = do {
     (n, s) \<leftarrow> fetch rt s;
     s \<leftarrow> sp_set n (v_accu s) s;
     Some (set_accu Val_unit s) }"
| "step_stack rt (ACCn n) s = do {
     v \<leftarrow> sp_at s n;
     Some (set_accu v s) }"
| "step_stack rt (PUSHACCn n) s = do {
     s \<leftarrow> push (v_accu s) s;
     v \<leftarrow> sp_at s n;
     Some (set_accu v s) }"

datatype env_op = ENVACC | ENVACCn u32 | PUSHENVACCn u32 | PUSHENVACC

fun step_env :: "runtime \<Rightarrow> env_op \<Rightarrow> vm \<Rightarrow> vm option" where
  "step_env rt PUSHENVACC s = do {
     s \<leftarrow> push (v_accu s) s;
     (n, s) \<leftarrow> fetch rt s;
     v \<leftarrow> Field_get s (v_env s) n;
     Some (set_accu v s) }"
| "step_env rt ENVACC s = do {
     (n, s) \<leftarrow> fetch rt s;
     v \<leftarrow> Field_get s (v_env s) n;
     Some (set_accu v s) }"
| "step_env rt (ENVACCn n) s = do {
     v \<leftarrow> Field_get s (v_env s) n;
     Some (set_accu v s) }"
| "step_env rt (PUSHENVACCn n) s = do {
     s \<leftarrow> push (v_accu s) s;
     v \<leftarrow> Field_get s (v_env s) n;
     Some (set_accu v s) }"

subsection \<open>Function application\<close>

text \<open>
  The tail calls slide the arguments over the rest of the frame; a frame smaller than its
  arguments, which the compiler does not produce, is an error.
\<close>

datatype call_op = PUSH_RETADDR | APPLY | APPTERM | RETURN | APPLYn u32 | APPTERMn u32

definition slide :: "u32 \<Rightarrow> u32 \<Rightarrow> vm \<Rightarrow> vm option" where
  "slide nargs slotsize s =
    (if sint nargs \<le> sint slotsize then do {
       (args, _) \<leftarrow> sp_take nargs s;
       s \<leftarrow> popn slotsize s;
       Some (s\<lparr>v_sp := args @ v_sp s\<rparr>)
     } else None)"

fun step_call :: "runtime \<Rightarrow> call_op \<Rightarrow> vm \<Rightarrow> outcome option" where
  "step_call rt PUSH_RETADDR s = do {
     c \<leftarrow> jump rt s;
     s \<leftarrow> pushes [c, v_env s, Val_long (v_extra_args s)] s;
     Some (Next (skip s)) }"
| "step_call rt APPLY s = do {
     (n, s) \<leftarrow> fetch rt s;
     s \<leftarrow> enter s;
     check_stacks rt (s\<lparr>v_extra_args := n - 1\<rparr>) }"
| "step_call rt APPTERM s = do {
     (nargs, s) \<leftarrow> fetch rt s;
     (slotsize, s) \<leftarrow> fetch rt s;
     s \<leftarrow> slide nargs slotsize s;
     s \<leftarrow> enter s;
     check_stacks rt (s\<lparr>v_extra_args := v_extra_args s + nargs - 1\<rparr>) }"
| "step_call rt RETURN s = do {
     (n, s) \<leftarrow> fetch rt s;
     s \<leftarrow> popn n s;
     if 0 < sint (v_extra_args s) then
       map_option Next (enter (s\<lparr>v_extra_args := v_extra_args s - 1\<rparr>))
     else map_option Next (pop_frame s) }"
| "step_call rt (APPLYn n) s = do {
     (args, s) \<leftarrow> sp_take n s;
     s \<leftarrow> pushes (args @ [v_pc s, v_env s, Val_long (v_extra_args s)]) s;
     s \<leftarrow> enter s;
     check_stacks rt (s\<lparr>v_extra_args := n - 1\<rparr>) }"
| "step_call rt (APPTERMn n) s = do {
     (slotsize, s) \<leftarrow> fetch rt s;
     s \<leftarrow> slide n slotsize s;
     s \<leftarrow> enter s;
     check_stacks rt (s\<lparr>v_extra_args := v_extra_args s + (n - 1)\<rparr>) }"

datatype closure_op = RESTART | GRAB | CLOSURE | CLOSUREREC

fun step_closure :: "runtime \<Rightarrow> closure_op \<Rightarrow> vm \<Rightarrow> vm option" where
  "step_closure rt RESTART s = do {
     w \<leftarrow> Wosize_val s (v_env s);
     let num_args = w - 2;
     s \<leftarrow> (if sint num_args < 0 then popn (- num_args) s
          else do {
            args \<leftarrow> load_fields s (v_env s) 2 (unat num_args);
            pushes args s
          });
     e \<leftarrow> Field_get s (v_env s) 1;
     Some (s\<lparr>v_env := e, v_extra_args := v_extra_args s + num_args\<rparr>) }"
| "step_closure rt GRAB s = do {
     (required, s) \<leftarrow> fetch rt s;
     if sint required \<le> sint (v_extra_args s) then
       Some (s\<lparr>v_extra_args := v_extra_args s - required\<rparr>)
     else do {
       let num_args = 1 + v_extra_args s;
       (a, s) \<leftarrow> alloc_block rt (num_args + 2) Closure_tag s;
       s \<leftarrow> store (Field_addr a 1) (v_env s) s;
       (args, s) \<leftarrow> sp_take num_args s;
       s \<leftarrow> store_fields a 2 args s;
       s \<leftarrow> store (Field_addr a 0) (v_pc s - 12) s;
       pop_frame (set_accu a s)
     } }"
| "step_closure rt CLOSURE s = do {
     (nvars, s) \<leftarrow> fetch rt s;
     s \<leftarrow> (if 0 < sint nvars then push (v_accu s) s else Some s);
     (a, s) \<leftarrow> alloc_block rt (1 + nvars) Closure_tag s;
     c \<leftarrow> jump rt s;
     s \<leftarrow> store (Field_addr a 0) c s;
     (vars, s) \<leftarrow> sp_take nvars s;
     s \<leftarrow> store_fields a 1 vars s;
     Some (skip (set_accu a s)) }"
| "step_closure rt CLOSUREREC s = do {
     (nvars, s) \<leftarrow> fetch rt s;
     s \<leftarrow> (if 0 < sint nvars then push (v_accu s) s else Some s);
     (a, s) \<leftarrow> alloc_block rt (2 + nvars) Closure_tag s;
     c \<leftarrow> jump rt s;
     s \<leftarrow> store (Field_addr a 0) c s;
     s \<leftarrow> store (Field_addr a 1) (Val_long 0) s;
     (vars, s) \<leftarrow> sp_take nvars s;
     s \<leftarrow> store_fields a 2 vars s;
     s \<leftarrow> Modify (Field_addr a 1) a s;
     Some (skip (set_accu a s)) }"

subsection \<open>Globals and blocks\<close>

datatype global_op = GETGLOBAL | SETGLOBAL | GETGLOBALFIELD | PUSHGETGLOBAL | PUSHGETGLOBALFIELD

definition getglobal :: "runtime \<Rightarrow> vm \<Rightarrow> vm option" where
  "getglobal rt s = do {
     (n, s) \<leftarrow> fetch rt s;
     v \<leftarrow> Field_get s (global_data s) n;
     Some (set_accu v s) }"

definition getglobalfield :: "runtime \<Rightarrow> vm \<Rightarrow> vm option" where
  "getglobalfield rt s = do {
     s \<leftarrow> getglobal rt s;
     (n, s) \<leftarrow> fetch rt s;
     v \<leftarrow> Field_get s (v_accu s) n;
     Some (set_accu v s) }"

fun step_global :: "runtime \<Rightarrow> global_op \<Rightarrow> vm \<Rightarrow> vm option" where
  "step_global rt PUSHGETGLOBAL s = do { s \<leftarrow> push (v_accu s) s; getglobal rt s }"
| "step_global rt GETGLOBAL s = getglobal rt s"
| "step_global rt SETGLOBAL s = do {
     (n, s) \<leftarrow> fetch rt s;
     s \<leftarrow> Modify (Field_addr (global_data s) n) (v_accu s) s;
     Some (set_accu Val_unit s) }"
| "step_global rt PUSHGETGLOBALFIELD s = do { s \<leftarrow> push (v_accu s) s; getglobalfield rt s }"
| "step_global rt GETGLOBALFIELD s = getglobalfield rt s"

datatype block_op = ATOM | PUSHATOM | MAKEBLOCK | ATOM0 | PUSHATOM0 | MAKEBLOCKn u32 | DUMMY | UPDATE

definition makeblock :: "runtime \<Rightarrow> u32 \<Rightarrow> u32 \<Rightarrow> vm \<Rightarrow> vm option" where
  "makeblock rt wosize tag s = do {
     (b, s) \<leftarrow> alloc_block rt wosize tag s;
     s \<leftarrow> store (Field_addr b 0) (v_accu s) s;
     (vs, s) \<leftarrow> sp_take (if wosize = 0 then 0 else wosize - 1) s;
     s \<leftarrow> store_fields b 1 vs s;
     Some (set_accu b s) }"

fun update_fields :: "val \<Rightarrow> val \<Rightarrow> u32 \<Rightarrow> nat \<Rightarrow> vm \<Rightarrow> vm option" where
  "update_fields dst src n 0 s = Some s"
| "update_fields dst src n (Suc k) s = do {
     v \<leftarrow> Field_get s src n;
     s \<leftarrow> Modify (Field_addr dst n) v s;
     update_fields dst src (n + 1) k s }"

fun step_block :: "runtime \<Rightarrow> block_op \<Rightarrow> vm \<Rightarrow> vm option" where
  "step_block rt PUSHATOM s = do {
     s \<leftarrow> push (v_accu s) s;
     (t, s) \<leftarrow> fetch rt s;
     Some (set_accu (Atom rt t) s) }"
| "step_block rt ATOM s = do {
     (t, s) \<leftarrow> fetch rt s;
     Some (set_accu (Atom rt t) s) }"
| "step_block rt MAKEBLOCK s = do {
     (wosize, s) \<leftarrow> fetch rt s;
     (tag, s) \<leftarrow> fetch rt s;
     makeblock rt wosize tag s }"
| "step_block rt PUSHATOM0 s = do {
     s \<leftarrow> push (v_accu s) s;
     Some (set_accu (Atom rt 0) s) }"
| "step_block rt ATOM0 s = Some (set_accu (Atom rt 0) s)"
| "step_block rt (MAKEBLOCKn n) s = do {
     (tag, s) \<leftarrow> fetch rt s;
     makeblock rt n tag s }"
| "step_block rt DUMMY s = do {
     (n, s) \<leftarrow> fetch rt s;
     (a, s) \<leftarrow> alloc_block rt n 0 s;
     if sint n < 0 then None
     else do {
       s \<leftarrow> store_fields a 0 (replicate (unat n) (Val_long 0)) s;
       Some (set_accu a s)
     } }"
| "step_block rt UPDATE s = do {
     (newval, s) \<leftarrow> pop s;
     n \<leftarrow> Wosize_val s newval;
     t \<leftarrow> Tag_val s newval;
     hdr \<leftarrow> Hd_val s (v_accu s);
     s \<leftarrow> store (v_accu s - 4) ((hdr AND NOT 0xFF) OR t) s;
     s \<leftarrow> update_fields (v_accu s) newval 0 (unat n) s;
     Some (set_accu Val_unit s) }"

datatype field_op = GETFIELD | SETFIELD | GETFIELDn u32 | SETFIELDn u32

definition setfield :: "u32 \<Rightarrow> vm \<Rightarrow> vm option" where
  "setfield n s = do {
     let dest = Field_addr (v_accu s) n;
     (v, s) \<leftarrow> pop s;
     s \<leftarrow> Modify dest v s;
     Some (set_accu Val_unit s) }"

definition getfield :: "u32 \<Rightarrow> vm \<Rightarrow> vm option" where
  "getfield n s = map_option (\<lambda>v. set_accu v s) (Field_get s (v_accu s) n)"

fun step_field :: "runtime \<Rightarrow> field_op \<Rightarrow> vm \<Rightarrow> vm option" where
  "step_field rt GETFIELD s = do { (n, s) \<leftarrow> fetch rt s; getfield n s }"
| "step_field rt SETFIELD s = do { (n, s) \<leftarrow> fetch rt s; setfield n s }"
| "step_field rt (GETFIELDn n) s = getfield n s"
| "step_field rt (SETFIELDn n) s = setfield n s"

datatype special_op = VECTLENGTH | GETVECTITEM | SETVECTITEM | GETSTRINGCHAR | SETSTRINGCHAR

fun step_special :: "special_op \<Rightarrow> vm \<Rightarrow> vm option" where
  "step_special VECTLENGTH s = do {
     w \<leftarrow> Wosize_val s (v_accu s);
     Some (set_accu (Val_long w) s) }"
| "step_special GETVECTITEM s = do {
     (i, s) \<leftarrow> pop s;
     getfield (Long_val i) s }"
| "step_special SETVECTITEM s = do {
     (i, s) \<leftarrow> pop s;
     setfield (Long_val i) s }"
| "step_special GETSTRINGCHAR s = do {
     i \<leftarrow> sp_at s 0;
     b \<leftarrow> Byte_u s (v_accu s) (Long_val i);
     popn 1 (set_accu (Val_long (ucast b)) s) }"
| "step_special SETSTRINGCHAR s = do {
     i \<leftarrow> sp_at s 0;
     c \<leftarrow> sp_at s 1;
     s \<leftarrow> Byte_set (v_accu s) (Long_val i) (ucast (Long_val c)) s;
     popn 2 (set_accu Val_unit s) }"

subsection \<open>Branches and exceptions\<close>

datatype branch_op = BRANCH | BRANCHIF | BRANCHIFNOT | SWITCH | BOOLNOT

definition take_branch :: "runtime \<Rightarrow> vm \<Rightarrow> vm option" where
  "take_branch rt s = map_option (\<lambda>c. s\<lparr>v_pc := c\<rparr>) (jump rt s)"

definition branch_at :: "runtime \<Rightarrow> u32 \<Rightarrow> vm \<Rightarrow> vm option" where
  "branch_at rt i s = map_option (\<lambda>w. s\<lparr>v_pc := v_pc s + 4 * w\<rparr>) (rt_code rt (v_pc s + 4 * i))"

fun step_branch :: "runtime \<Rightarrow> branch_op \<Rightarrow> vm \<Rightarrow> vm option" where
  "step_branch rt BRANCH s = take_branch rt s"
| "step_branch rt BRANCHIF s = (if v_accu s \<noteq> Val_false then take_branch rt s else Some (skip s))"
| "step_branch rt BRANCHIFNOT s = (if v_accu s = Val_false then take_branch rt s else Some (skip s))"
| "step_branch rt SWITCH s = do {
     (sizes, s) \<leftarrow> fetch rt s;
     if Is_block (v_accu s) then do {
       index \<leftarrow> Tag_val s (v_accu s);
       branch_at rt ((sizes AND 0xFFFF) + index) s
     } else
       let index = Long_val (v_accu s) in
       if index < sizes AND 0xFFFF then branch_at rt index s
       else Some (s\<lparr>v_pc := v_pc s + 4 * ((sizes AND 0xFFFF) + drop_bit 16 sizes)\<rparr>) }"
| "step_branch rt BOOLNOT s = Some (set_accu (Val_not (v_accu s)) s)"

datatype exn_op = PUSHTRAP | POPTRAP | RAISE | CHECK_SIGNALS

definition sp_offset :: "vm \<Rightarrow> u32" where
  "sp_offset s = 4 * word_of_nat (length (v_sp s))"

fun step_exn :: "runtime \<Rightarrow> exn_op \<Rightarrow> vm \<Rightarrow> outcome option" where
  "step_exn rt PUSHTRAP s = do {
     c \<leftarrow> jump rt s;
     s \<leftarrow> pushes [c, v_trapsp s, v_env s, Val_long (v_extra_args s)] s;
     Some (Next (skip (s\<lparr>v_trapsp := sp_offset s\<rparr>))) }"
| "step_exn rt POPTRAP s = do {
     l \<leftarrow> sp_at s 1;
     s \<leftarrow> popn 4 s;
     Some (Next (s\<lparr>v_trapsp := l\<rparr>)) }"
| "step_exn rt RAISE s = raise_exception rt s"
| "step_exn rt CHECK_SIGNALS s = check_signals rt s"

subsection \<open>Calls of C primitives\<close>

datatype ccall_op = C_CALLN | C_CALLn u32

text \<open>
  The environment is saved on the stack during the call. A primitive of at most five arguments
  gets the accumulator and the topmost stack cells; the others get the cells of the stack, the
  accumulator being pushed first.
\<close>

definition c_call :: "runtime \<Rightarrow> val list \<Rightarrow> u32 \<Rightarrow> vm \<Rightarrow> outcome option" where
  "c_call rt args drops s = do {
     s \<leftarrow> push (v_env s) s;
     n \<leftarrow> rt_code rt (v_pc s);
     f \<leftarrow> rt_cprim rt n;
     r \<leftarrow> f args s;
     (case r of
        Returns v s \<Rightarrow> do {
          (e, s) \<leftarrow> pop s;
          s \<leftarrow> popn drops s;
          Some (Next (skip (s\<lparr>v_accu := v, v_env := e\<rparr>))) }
      | Raises b s \<Rightarrow> external_raise rt b s) }"

fun step_ccall :: "runtime \<Rightarrow> ccall_op \<Rightarrow> vm \<Rightarrow> outcome option" where
  "step_ccall rt C_CALLN s = do {
     (nargs, s) \<leftarrow> fetch rt s;
     s \<leftarrow> push (v_accu s) s;
     (args, _) \<leftarrow> sp_take nargs s;
     c_call rt args nargs s }"
| "step_ccall rt (C_CALLn n) s = do {
     (args, _) \<leftarrow> sp_take (n - 1) s;
     c_call rt (v_accu s # args) (n - 1) s }"

subsection \<open>Integers\<close>

datatype int_op = CONSTINT | CONSTn u32 | PUSHCONSTINT | PUSHCONSTn u32
  | OFFSETINT | OFFSETREF | NEGINT | DIVINT | MODINT

datatype binop = ADDINT | SUBINT | MULINT | ANDINT | ORINT | XORINT | LSLINT | LSRINT | ASRINT
  | EQ | NEQ | LTINT | LEINT | GTINT | GEINT

definition shift_count :: "val \<Rightarrow> nat option" where
  "shift_count b = (if 0 \<le> sint (Long_val b) \<and> sint (Long_val b) < 32 then Some (unat (Long_val b)) else None)"

fun binop_val :: "binop \<Rightarrow> val \<Rightarrow> val \<Rightarrow> val option" where
  "binop_val ADDINT a b = Some (a + b - 1)"
| "binop_val SUBINT a b = Some (a - b + 1)"
| "binop_val MULINT a b = Some (Val_long (Long_val a * Long_val b))"
| "binop_val ANDINT a b = Some (a AND b)"
| "binop_val ORINT a b = Some (a OR b)"
| "binop_val XORINT a b = Some ((a XOR b) OR 1)"
| "binop_val LSLINT a b = map_option (\<lambda>n. push_bit n (a - 1) + 1) (shift_count b)"
| "binop_val LSRINT a b = map_option (\<lambda>n. drop_bit n (a - 1) OR 1) (shift_count b)"
| "binop_val ASRINT a b = map_option (\<lambda>n. signed_drop_bit n (a - 1) OR 1) (shift_count b)"
| "binop_val EQ a b = Some (Val_bool (a = b))"
| "binop_val NEQ a b = Some (Val_bool (a \<noteq> b))"
| "binop_val LTINT a b = Some (Val_bool (sint a < sint b))"
| "binop_val LEINT a b = Some (Val_bool (sint a \<le> sint b))"
| "binop_val GTINT a b = Some (Val_bool (sint b < sint a))"
| "binop_val GEINT a b = Some (Val_bool (sint b \<le> sint a))"

definition step_binop :: "binop \<Rightarrow> vm \<Rightarrow> vm option" where
  "step_binop p s = do {
     (b, s) \<leftarrow> pop s;
     v \<leftarrow> binop_val p (v_accu s) b;
     Some (set_accu v s) }"

definition int_division :: "runtime \<Rightarrow> (u32 \<Rightarrow> u32 \<Rightarrow> u32 option) \<Rightarrow> vm \<Rightarrow> outcome option" where
  "int_division rt f s = do {
     (b, s) \<leftarrow> pop s;
     let divisor = Long_val b;
     if divisor = 0 then do {
       s \<leftarrow> push (v_env s) s;
       (e, s) \<leftarrow> raise_zero_divide (rt_gc rt) s;
       external_raise rt e s
     } else do {
       q \<leftarrow> f (Long_val (v_accu s)) divisor;
       Some (Next (set_accu (Val_long q) s))
     } }"

definition constint :: "runtime \<Rightarrow> vm \<Rightarrow> vm option" where
  "constint rt s = map_option (\<lambda>(n, s). set_accu (Val_long n) s) (fetch rt s)"

fun step_int :: "runtime \<Rightarrow> int_op \<Rightarrow> vm \<Rightarrow> outcome option" where
  "step_int rt PUSHCONSTINT s = do { s \<leftarrow> push (v_accu s) s; s \<leftarrow> constint rt s; Some (Next s) }"
| "step_int rt CONSTINT s = do { s \<leftarrow> constint rt s; Some (Next s) }"
| "step_int rt (CONSTn n) s = Some (Next (set_accu (Val_long n) s))"
| "step_int rt (PUSHCONSTn n) s = do {
     s \<leftarrow> push (v_accu s) s;
     Some (Next (set_accu (Val_long n) s)) }"
| "step_int rt NEGINT s = Some (Next (set_accu (2 - v_accu s) s))"
| "step_int rt DIVINT s = int_division rt c_sdiv s"
| "step_int rt MODINT s = int_division rt c_smod s"
| "step_int rt OFFSETINT s = do {
     (n, s) \<leftarrow> fetch rt s;
     Some (Next (set_accu (v_accu s + push_bit 1 n) s)) }"
| "step_int rt OFFSETREF s = do {
     (n, s) \<leftarrow> fetch rt s;
     v \<leftarrow> Field_get s (v_accu s) 0;
     s \<leftarrow> store (Field_addr (v_accu s) 0) (v + push_bit 1 n) s;
     Some (Next (set_accu Val_unit s)) }"

section \<open>Decoding and the main loop\<close>

datatype instr = Ari int_op | Bin binop | Stk stack_op | Env env_op | Blk block_op | Fld field_op | Spc special_op
  | Glb global_op | Brn branch_op | Cal call_op | Exn exn_op | Ccl ccall_op | Clo closure_op
  | STOP | EVENT | BREAK

text \<open>The opcodes in the order of the enumeration in \<open>instruct.h\<close>.\<close>

definition instructions :: "instr list" where
  "instructions =
    [Ari CONSTINT] @ map (\<lambda>n. Ari (CONSTn n)) [0, 1, 2, 3] @ [Ari PUSHCONSTINT]
    @ map (\<lambda>n. Ari (PUSHCONSTn n)) [0, 1, 2, 3] @ [Ari NEGINT]
    @ map Bin [ADDINT, SUBINT, MULINT] @ map Ari [DIVINT, MODINT]
    @ map Bin [ANDINT, ORINT, XORINT, LSLINT, LSRINT, ASRINT, EQ, NEQ, LTINT, LEINT, GTINT, GEINT]
    @ map Ari [OFFSETINT, OFFSETREF]
    @ map Stk [ACC, PUSH, POP, ASSIGN] @ map (\<lambda>n. Stk (ACCn n)) [0, 1, 2, 3, 4, 5, 6, 7] @ [Stk PUSH]
    @ map (\<lambda>n. Stk (PUSHACCn n)) [1, 2, 3, 4, 5, 6, 7] @ [Stk PUSHACC]
    @ [Env ENVACC] @ map (\<lambda>n. Env (ENVACCn n)) [1, 2, 3, 4] @ map (\<lambda>n. Env (PUSHENVACCn n)) [1, 2, 3, 4]
    @ [Env PUSHENVACC]
    @ map Blk [ATOM, MAKEBLOCK, PUSHATOM, ATOM0, PUSHATOM0, MAKEBLOCKn 1, MAKEBLOCKn 2, MAKEBLOCKn 3]
    @ map Fld [GETFIELD, SETFIELD] @ map (\<lambda>n. Fld (GETFIELDn n)) [0, 1, 2, 3]
    @ map (\<lambda>n. Fld (SETFIELDn n)) [0, 1, 2, 3]
    @ map Glb [GETGLOBAL, SETGLOBAL, GETGLOBALFIELD, PUSHGETGLOBAL, PUSHGETGLOBALFIELD]
    @ map Brn [BRANCH, BRANCHIF, BRANCHIFNOT, SWITCH, BOOLNOT]
    @ map Cal [PUSH_RETADDR, APPLY, APPTERM, RETURN, APPLYn 1, APPLYn 2, APPLYn 3,
        APPTERMn 1, APPTERMn 2, APPTERMn 3]
    @ map Blk [DUMMY, UPDATE] @ map Exn [PUSHTRAP, POPTRAP, RAISE, CHECK_SIGNALS]
    @ [Ccl C_CALLN] @ map (\<lambda>n. Ccl (C_CALLn n)) [1, 2, 3, 4, 5]
    @ map Spc [GETSTRINGCHAR, SETSTRINGCHAR, VECTLENGTH, GETVECTITEM, SETVECTITEM]
    @ map Clo [RESTART, GRAB, CLOSURE, CLOSUREREC] @ [STOP, EVENT, BREAK]"

definition decode :: "u32 \<Rightarrow> instr option" where
  "decode w = rd instructions (unat w)"

fun exec_instr :: "runtime \<Rightarrow> instr \<Rightarrow> vm \<Rightarrow> outcome option" where
  "exec_instr rt (Ari p) s = step_int rt p s"
| "exec_instr rt (Bin p) s = map_option Next (step_binop p s)"
| "exec_instr rt (Stk p) s = map_option Next (step_stack rt p s)"
| "exec_instr rt (Env p) s = map_option Next (step_env rt p s)"
| "exec_instr rt (Blk p) s = map_option Next (step_block rt p s)"
| "exec_instr rt (Fld p) s = map_option Next (step_field rt p s)"
| "exec_instr rt (Spc p) s = map_option Next (step_special p s)"
| "exec_instr rt (Glb p) s = map_option Next (step_global rt p s)"
| "exec_instr rt (Brn p) s = map_option Next (step_branch rt p s)"
| "exec_instr rt (Cal p) s = step_call rt p s"
| "exec_instr rt (Exn p) s = step_exn rt p s"
| "exec_instr rt (Ccl p) s = step_ccall rt p s"
| "exec_instr rt (Clo p) s = map_option Next (step_closure rt p s)"
| "exec_instr rt STOP s = Some (Stop (v_accu s) s)"
| "exec_instr rt EVENT s = None"
| "exec_instr rt BREAK s = None"

text \<open>
  The dispatch: \<open>EVENT\<close> and \<open>BREAK\<close>, which a debugger has put over an instruction, dispatch the
  instruction they cover (\<open>Restart_curr_instr\<close>). That this is one of them again, for which the code
  would dispatch for ever, is an error in \<open>exec_instr\<close>.
\<close>

definition restart_curr_instr :: "runtime \<Rightarrow> vm \<Rightarrow> (u32 \<times> vm) option" where
  "restart_curr_instr rt s = map_option (\<lambda>w. (ucast w, s)) (rt_saved rt (v_pc s - 4))"

definition dispatch :: "runtime \<Rightarrow> vm \<Rightarrow> (u32 \<times> vm) option" where
  "dispatch rt s = do {
     (w, s) \<leftarrow> fetch rt s;
     if decode w = Some EVENT then restart_curr_instr rt (s\<lparr>event_count := event_count s - 1\<rparr>)
     else if decode w = Some BREAK then restart_curr_instr rt s
     else Some (w, s) }"

definition step :: "runtime \<Rightarrow> vm \<Rightarrow> outcome option" where
  "step rt s = do {
     (w, s) \<leftarrow> dispatch rt s;
     (case decode w of
        None \<Rightarrow> Some (Bad_opcode w)
      | Some i \<Rightarrow> exec_instr rt i s) }"

text \<open>The main loop, for at most \<open>n\<close> instructions; \<open>Next s\<close> is a run that goes on.\<close>

fun run :: "runtime \<Rightarrow> nat \<Rightarrow> vm \<Rightarrow> outcome option" where
  "run rt 0 s = Some (Next s)"
| "run rt (Suc n) s = do {
     r \<leftarrow> step rt s;
     (case r of Next s \<Rightarrow> run rt n s | _ \<Rightarrow> Some r) }"

definition interprete :: "runtime \<Rightarrow> u32 \<Rightarrow> nat \<Rightarrow> vm \<Rightarrow> outcome option" where
  "interprete rt prog n s =
    (let rt = rt\<lparr>rt_roots := length (local_roots s), rt_sp_offset := sp_offset s,
                 rt_callback_depth := callback_depth s\<rparr>
     in run rt n (s\<lparr>v_pc := prog, v_extra_args := 0, v_env := Atom rt 0, v_accu := Val_long 0\<rparr>))"

end
