(* ===== verification/Interp_Inv.thy ===== *)
theory Interp_Inv
  imports Interp
begin

text \<open>
  The stack area of the bytecode machine. The locale \<open>vm_invariant\<close> states what a property of
  machine states has to satisfy to be preserved by every instruction; it is interpreted for the
  property that the area has at least a given size. With it the check at every call is shown to
  keep the stack inside the area.
\<close>

section \<open>Preservation by the instructions\<close>

lemma slide_Some:
  assumes "slide n k s = Some s'"
  shows "s' = s\<lparr>v_sp := take (unat n) (v_sp s) @ drop (unat k) (v_sp s)\<rparr>
     \<and> unat n \<le> unat k \<and> unat k \<le> length (v_sp s)"
proof -
  from assms have h: "sint n \<le> sint k" "0 \<le> sint n" "0 \<le> sint k" "unat k \<le> length (v_sp s)"
    "s' = s\<lparr>v_sp := take (unat n) (v_sp s) @ drop (unat k) (v_sp s)\<rparr>"
    by (auto simp: slide_def sp_take_def popn_def split: if_splits bind_splits)
  then have "int (unat n) \<le> int (unat k)" using unat_nonneg[of n] unat_nonneg[of k] by linarith
  then have "unat n \<le> unat k" by (simp only: of_nat_le_iff)
  then show ?thesis using h by simp
qed

text \<open>
  A property \<open>I\<close> of the machine states is kept by a runtime when its collector and its primitives
  keep it, whether they return or raise; \<open>outcome_ok I\<close> says that the state an outcome carries has it.
\<close>

definition rt_keeps :: "(vm \<Rightarrow> bool) \<Rightarrow> runtime \<Rightarrow> bool" where
  "rt_keeps I rt \<longleftrightarrow> (\<forall>s s'. rt_gc rt s = Some s' \<longrightarrow> I s \<longrightarrow> I s')
     \<and> (\<forall>n f args s r. rt_cprim rt n = Some f \<longrightarrow> f args s = Some r \<longrightarrow> I s \<longrightarrow>
          (case r of Returns v s' \<Rightarrow> I s' | Raises v s' \<Rightarrow> I s'))"

fun outcome_ok :: "(vm \<Rightarrow> bool) \<Rightarrow> outcome \<Rightarrow> bool" where
  "outcome_ok I (Next s) = I s"
| "outcome_ok I (Stop v s) = I s"
| "outcome_ok I (Uncaught v s) = I s"
| "outcome_ok I (Bad_opcode w) = True"

text \<open>
  The contract between a state property and the primitive updates of the machine: when it does
  not depend on the registers and the cells of the stack and survives a doubling of the stack area
  and a store to mapped memory, every instruction keeps it.
\<close>

locale vm_invariant =
  fixes I :: "vm \<Rightarrow> bool"
  assumes regs:
      "I (s\<lparr>v_pc := c\<rparr>) = I s" "I (s\<lparr>v_accu := v\<rparr>) = I s" "I (s\<lparr>v_env := v\<rparr>) = I s"
      "I (s\<lparr>v_extra_args := w\<rparr>) = I s" "I (s\<lparr>v_trapsp := w\<rparr>) = I s" "I (s\<lparr>callback_depth := w\<rparr>) = I s"
      "I (s\<lparr>event_count := w\<rparr>) = I s"
    and heap:
      "I (s\<lparr>young_ptr := w\<rparr>) = I s" "I (s\<lparr>gray_vals := l\<rparr>) = I s" "I (s\<lparr>gray_vals_size := w\<rparr>) = I s"
      "I (s\<lparr>heap_is_pure := b\<rparr>) = I s" "I (s\<lparr>ref_table := l\<rparr>) = I s" "I (s\<lparr>ref_table_size := w\<rparr>) = I s"
      "I (s\<lparr>ref_table_limit := w\<rparr>) = I s" "I (s\<lparr>force_major_slice := b\<rparr>) = I s"
      "I (s\<lparr>something_to_do := b\<rparr>) = I s" "I (s\<lparr>pending_signal := w\<rparr>) = I s" "I (s\<lparr>local_roots := l\<rparr>) = I s"
    and stack: "I (s\<lparr>v_sp := l\<rparr>) = I s"
    and stack_grow: "I s \<Longrightarrow> stack_words s < max_stack_size s \<Longrightarrow> I (s\<lparr>stack_words := stack_words s * 2\<rparr>)"
    and mem: "I s \<Longrightarrow> h_mem s a \<noteq> None \<Longrightarrow> I (s\<lparr>h_mem := (h_mem s)(a \<mapsto> v)\<rparr>)"
begin

lemma push_keeps: "push v s = Some s' \<Longrightarrow> I s \<Longrightarrow> I s'"
  by (auto simp: push_def stack split: if_splits)

lemma pushes_keeps: "pushes vs s = Some s' \<Longrightarrow> I s \<Longrightarrow> I s'"
  by (induction vs arbitrary: s') (auto intro: push_keeps split: bind_splits)

lemma popn_keeps: "popn n s = Some s' \<Longrightarrow> I s \<Longrightarrow> I s'"
  by (auto simp: popn_def stack split: if_splits)

lemma pop_keeps: "pop s = Some (v, s') \<Longrightarrow> I s \<Longrightarrow> I s'"
  by (auto simp: pop_def stack split: list.splits)

lemma sp_take_keeps: "sp_take n s = Some (vs, s') \<Longrightarrow> I s \<Longrightarrow> I s'"
  by (auto simp: sp_take_def popn_keeps)

lemma sp_set_keeps: "sp_set n v s = Some s' \<Longrightarrow> I s \<Longrightarrow> I s'"
  by (auto simp: sp_set_def wr_Some_iff stack split: if_splits)

lemma fetch_keeps: "fetch rt s = Some (w, s') \<Longrightarrow> I s \<Longrightarrow> I s'"
  by (auto simp: fetch_def regs)

lemma set_accu_keeps: "I (set_accu v s) = I s" "I (skip s) = I s"
  by (simp_all add: set_accu_def skip_def regs)

lemma store_keeps: "store a v s = Some s' \<Longrightarrow> I s \<Longrightarrow> I s'"
  by (auto simp: store_def mem split: if_splits)

lemma store_fields_keeps: "store_fields b i vs s = Some s' \<Longrightarrow> I s \<Longrightarrow> I s'"
  by (induction vs arbitrary: i s) (auto intro: store_keeps split: bind_splits)

lemma enter_keeps: "enter s = Some s' \<Longrightarrow> I s \<Longrightarrow> I s'"
  by (auto simp: enter_def regs)

lemmas keeps1 = push_keeps pushes_keeps popn_keeps pop_keeps sp_take_keeps sp_set_keeps fetch_keeps
  store_keeps store_fields_keeps enter_keeps

lemma pop_frame_keeps: "pop_frame s = Some s' \<Longrightarrow> I s \<Longrightarrow> I s'"
  by (auto simp: pop_frame_def regs dest!: pop_keeps split: bind_splits)

lemma push_gray_keeps: "I s \<Longrightarrow> I (push_gray v s)"
  by (simp add: push_gray_def realloc_gray_vals_def Let_def heap)

lemma darken_keeps: "darken v s = Some s' \<Longrightarrow> I s \<Longrightarrow> I s'"
  by (auto simp: darken_def Let_def intro!: push_gray_keeps dest!: store_keeps split: bind_splits if_splits)

lemma push_ref_keeps: "push_ref a s = Some s' \<Longrightarrow> I s \<Longrightarrow> I s'"
  by (auto simp: push_ref_def realloc_ref_table_def urge_major_slice_def Let_def heap split: if_splits)

lemma Modify_keeps: "Modify a v s = Some s' \<Longrightarrow> I s \<Longrightarrow> I s'"
  by (auto simp: Modify_def dest!: store_keeps darken_keeps push_ref_keeps split: bind_splits if_splits)

lemma update_fields_keeps: "update_fields d c n k s = Some s' \<Longrightarrow> I s \<Longrightarrow> I s'"
  by (induction k arbitrary: n s) (auto dest: Modify_keeps split: bind_splits)

lemma Byte_set_keeps: "Byte_set v i b s = Some s' \<Longrightarrow> I s \<Longrightarrow> I s'"
  by (auto simp: Byte_set_def Let_def dest: store_keeps split: bind_splits)

lemmas keeps2 = pop_frame_keeps Modify_keeps update_fields_keeps Byte_set_keeps

lemma step_stack_keeps: "step_stack rt p s = Some s' \<Longrightarrow> I s \<Longrightarrow> I s'"
  by (cases p) (auto simp: set_accu_keeps dest!: keeps1 split: bind_splits)

lemma step_env_keeps: "step_env rt p s = Some s' \<Longrightarrow> I s \<Longrightarrow> I s'"
  by (cases p) (auto simp: set_accu_keeps dest!: keeps1 split: bind_splits)

lemma getglobal_keeps: "getglobal rt s = Some s' \<Longrightarrow> I s \<Longrightarrow> I s'"
  by (auto simp: getglobal_def set_accu_keeps dest!: keeps1 split: bind_splits)

lemma getglobalfield_keeps: "getglobalfield rt s = Some s' \<Longrightarrow> I s \<Longrightarrow> I s'"
  by (auto simp: getglobalfield_def set_accu_keeps dest!: keeps1 getglobal_keeps split: bind_splits)

lemma step_global_keeps: "step_global rt p s = Some s' \<Longrightarrow> I s \<Longrightarrow> I s'"
  by (cases p) (auto simp: set_accu_keeps dest!: keeps1 keeps2 getglobal_keeps getglobalfield_keeps split: bind_splits)

lemma setfield_keeps: "setfield n s = Some s' \<Longrightarrow> I s \<Longrightarrow> I s'"
  by (auto simp: setfield_def Let_def set_accu_keeps dest!: keeps1 keeps2 split: bind_splits)

lemma getfield_keeps: "getfield n s = Some s' \<Longrightarrow> I s \<Longrightarrow> I s'"
  by (auto simp: getfield_def set_accu_keeps)

lemma step_field_keeps: "step_field rt p s = Some s' \<Longrightarrow> I s \<Longrightarrow> I s'"
  by (cases p) (auto simp: set_accu_keeps dest!: keeps1 keeps2 setfield_keeps getfield_keeps split: bind_splits)

lemma step_special_keeps: "step_special p s = Some s' \<Longrightarrow> I s \<Longrightarrow> I s'"
  by (cases p) (auto simp: set_accu_keeps dest!: keeps1 keeps2 setfield_keeps getfield_keeps split: bind_splits)

lemma step_branch_keeps: "step_branch rt p s = Some s' \<Longrightarrow> I s \<Longrightarrow> I s'"
  by (cases p) (auto simp: set_accu_keeps take_branch_def branch_at_def Let_def regs dest!: keeps1
      split: bind_splits if_splits)

lemma step_binop_keeps: "step_binop p s = Some s' \<Longrightarrow> I s \<Longrightarrow> I s'"
  by (auto simp: step_binop_def set_accu_keeps dest!: keeps1 split: bind_splits)

lemma gc_keeps: "rt_gc rt s = Some s' \<Longrightarrow> rt_keeps I rt \<Longrightarrow> I s \<Longrightarrow> I s'"
  by (auto simp: rt_keeps_def)

lemma gc_saved_keeps: "gc_saved rt s = Some s' \<Longrightarrow> rt_keeps I rt \<Longrightarrow> I s \<Longrightarrow> I s'"
  by (auto simp: gc_saved_def regs dest!: keeps1 gc_keeps split: bind_splits)

lemma Alloc_small_keeps:
  "Alloc_small gc w t s = Some (b, s') \<Longrightarrow> (\<And>s s'. gc s = Some s' \<Longrightarrow> I s \<Longrightarrow> I s') \<Longrightarrow> I s \<Longrightarrow> I s'"
  by (auto simp: Alloc_small_def Let_def heap dest!: store_keeps split: bind_splits if_splits)

lemma alloc_block_keeps: "alloc_block rt w t s = Some (b, s') \<Longrightarrow> rt_keeps I rt \<Longrightarrow> I s \<Longrightarrow> I s'"
  unfolding alloc_block_def by (erule Alloc_small_keeps) (auto dest: gc_saved_keeps)

lemma raise_exn_keeps: "raise_exn (rt_gc rt) n s = Some (b, s') \<Longrightarrow> rt_keeps I rt \<Longrightarrow> I s \<Longrightarrow> I s'"
  by (auto simp: raise_exn_def raise_constant_def heap dest!: store_keeps Alloc_small_keeps
      intro: gc_keeps split: bind_splits)

lemma raise_exception_keeps: "raise_exception rt s = Some r \<Longrightarrow> I s \<Longrightarrow> outcome_ok I r"
  by (auto simp: raise_exception_def Let_def regs stack dest!: pop_keeps split: if_splits bind_splits)

lemma external_raise_keeps: "external_raise rt b s = Some r \<Longrightarrow> I s \<Longrightarrow> outcome_ok I r"
  unfolding external_raise_def by (erule raise_exception_keeps) (simp add: regs heap)

lemma process_signal_keeps: "process_signal rt s = Some s' \<Longrightarrow> rt_keeps I rt \<Longrightarrow> I s \<Longrightarrow> I s'"
  by (auto simp: process_signal_def Let_def regs heap simp del: pushes.simps dest!: gc_saved_keeps pushes_keeps
      split: bind_splits if_splits)

lemma check_signals_keeps: "check_signals rt s = Some r \<Longrightarrow> rt_keeps I rt \<Longrightarrow> I s \<Longrightarrow> outcome_ok I r"
  by (auto simp: check_signals_def dest: process_signal_keeps split: if_splits)

lemma raise_oom_keeps: "raise_out_of_memory rt s = Some (b, s') \<Longrightarrow> I s \<Longrightarrow> I s'"
  by (auto simp: raise_out_of_memory_def dest!: store_keeps split: bind_splits)

lemma check_stacks_keeps: "check_stacks rt s = Some r \<Longrightarrow> rt_keeps I rt \<Longrightarrow> I s \<Longrightarrow> outcome_ok I r"
  by (auto simp: check_stacks_def realloc_stack_def raise_stack_overflow_def stack_grow not_le
      dest!: raise_exn_keeps raise_oom_keeps external_raise_keeps check_signals_keeps split: if_splits bind_splits)

lemma slide_keeps: "slide n k s = Some s' \<Longrightarrow> I s \<Longrightarrow> I s'"
  using slide_Some[of n k s s'] by (auto simp: stack)

lemma step_call_keeps: "step_call rt p s = Some r \<Longrightarrow> rt_keeps I rt \<Longrightarrow> I s \<Longrightarrow> outcome_ok I r"
  by (cases p) (auto simp: set_accu_keeps regs simp del: pushes.simps
      dest!: keeps1 keeps2 slide_keeps check_stacks_keeps split: bind_splits if_splits)

lemma step_closure_keeps: "step_closure rt p s = Some s' \<Longrightarrow> rt_keeps I rt \<Longrightarrow> I s \<Longrightarrow> I s'"
  by (cases p) (auto simp: set_accu_keeps regs Let_def simp del: pushes.simps
      dest!: keeps1 keeps2 alloc_block_keeps split: bind_splits if_splits)

lemma step_block_keeps: "step_block rt p s = Some s' \<Longrightarrow> rt_keeps I rt \<Longrightarrow> I s \<Longrightarrow> I s'"
  by (cases p) (auto simp: set_accu_keeps makeblock_def dest!: keeps1 keeps2 alloc_block_keeps
      split: bind_splits if_splits)

lemma step_exn_keeps: "step_exn rt p s = Some r \<Longrightarrow> rt_keeps I rt \<Longrightarrow> I s \<Longrightarrow> outcome_ok I r"
  by (cases p) (auto simp: set_accu_keeps regs simp del: pushes.simps
      dest!: keeps1 raise_exception_keeps check_signals_keeps split: bind_splits)

lemma c_call_keeps: "c_call rt args n s = Some r \<Longrightarrow> rt_keeps I rt \<Longrightarrow> I s \<Longrightarrow> outcome_ok I r"
proof -
  assume c: "c_call rt args n s = Some r" and rt: "rt_keeps I rt" and s: "I s"
  from c obtain s1 k f r' where p: "push (v_env s) s = Some s1" "rt_cprim rt k = Some f" "f args s1 = Some r'"
    and r: "(case r' of
        Returns v s \<Rightarrow> do { (e, s) \<leftarrow> pop s; s \<leftarrow> popn n s; Some (Next (skip (s\<lparr>v_accu := v, v_env := e\<rparr>))) }
      | Raises b s \<Rightarrow> external_raise rt b s) = Some r"
    by (auto simp: c_call_def split: bind_splits)
  have "case r' of Returns v s' \<Rightarrow> I s' | Raises v s' \<Rightarrow> I s'"
    using rt p push_keeps[OF p(1) s] unfolding rt_keeps_def by blast
  then show ?thesis using r
    by (auto simp: set_accu_keeps regs dest!: keeps1 external_raise_keeps split: cresult.splits bind_splits)
qed

lemma step_ccall_keeps: "step_ccall rt p s = Some r \<Longrightarrow> rt_keeps I rt \<Longrightarrow> I s \<Longrightarrow> outcome_ok I r"
  by (cases p) (auto dest!: keeps1 c_call_keeps split: bind_splits)

lemma step_int_keeps: "step_int rt p s = Some r \<Longrightarrow> rt_keeps I rt \<Longrightarrow> I s \<Longrightarrow> outcome_ok I r"
  by (cases p) (auto simp: set_accu_keeps constint_def int_division_def Let_def raise_zero_divide_def
      dest!: keeps1 raise_exn_keeps external_raise_keeps split: bind_splits if_splits)

lemma exec_instr_keeps: "exec_instr rt i s = Some r \<Longrightarrow> rt_keeps I rt \<Longrightarrow> I s \<Longrightarrow> outcome_ok I r"
  by (cases i) (auto dest: step_int_keeps step_binop_keeps step_stack_keeps step_env_keeps step_block_keeps
      step_field_keeps step_special_keeps step_global_keeps step_branch_keeps step_call_keeps step_exn_keeps step_ccall_keeps
      step_closure_keeps)

lemma dispatch_keeps: "dispatch rt s = Some (w, s') \<Longrightarrow> I s \<Longrightarrow> I s'"
  by (auto simp: dispatch_def restart_curr_instr_def regs dest!: fetch_keeps split: bind_splits if_splits)

lemma step_keeps: "step rt s = Some r \<Longrightarrow> rt_keeps I rt \<Longrightarrow> I s \<Longrightarrow> outcome_ok I r"
  by (auto simp: step_def dest!: dispatch_keeps exec_instr_keeps split: bind_splits option.splits)

lemma run_keeps: "run rt n s = Some r \<Longrightarrow> rt_keeps I rt \<Longrightarrow> I s \<Longrightarrow> outcome_ok I r"
proof (induction n arbitrary: s)
  case (Suc n)
  from Suc.prems(1) obtain r' where r': "step rt s = Some r'"
    "(case r' of Next s \<Rightarrow> run rt n s | _ \<Rightarrow> Some r') = Some r"
    by (auto split: bind_splits)
  have "outcome_ok I r'" by (rule step_keeps[OF r'(1) Suc.prems(2,3)])
  then show ?case using r'(2) Suc.IH Suc.prems(2) by (cases r') auto
qed auto

lemma interprete_keeps: "interprete rt c n s = Some r \<Longrightarrow> rt_keeps I rt \<Longrightarrow> I s \<Longrightarrow> outcome_ok I r"
  by (auto simp: interprete_def Let_def regs rt_keeps_def intro!: run_keeps)

end

section \<open>The stack area\<close>

text \<open>
  \<open>area_ge A\<close>: the stack area has at least \<open>A\<close> words. No instruction shrinks it.
\<close>

definition area_ge :: "nat \<Rightarrow> vm \<Rightarrow> bool" where
  "area_ge A s \<longleftrightarrow> A \<le> unat (stack_words s) \<and> max_stack_size s \<le> 0x80000000"

definition keeps_area :: "runtime \<Rightarrow> bool" where
  "keeps_area rt \<longleftrightarrow> (\<forall>A. rt_keeps (area_ge A) rt)"

lemma unat_double: "stack_words s < max_stack_size s \<Longrightarrow> max_stack_size s \<le> 0x80000000 \<Longrightarrow>
  unat (stack_words s * 2) = unat (stack_words s) * 2"
proof -
  assume "stack_words s < max_stack_size s" "max_stack_size s \<le> 0x80000000"
  then have "unat (stack_words s) < 2147483648" by (auto simp: word_less_nat_alt word_le_nat_alt)
  then show ?thesis by (simp add: unat_word_ariths)
qed

interpretation vm_area: vm_invariant "area_ge A" for A
proof unfold_locales
  fix s assume "area_ge A s" "stack_words s < max_stack_size s"
  then show "area_ge A (s\<lparr>stack_words := stack_words s * 2\<rparr>)" using unat_double[of s] by (simp add: area_ge_def)
qed (auto simp: area_ge_def)

text \<open>
  The state a call hands to \<open>check_stacks\<close>, when the check passes (the area is large enough or can
  be doubled), and the height of the stack at the last check a run has passed.
\<close>

fun call_frame :: "runtime \<Rightarrow> call_op \<Rightarrow> vm \<Rightarrow> vm option" where
  "call_frame rt APPLY s = do {
     (n, s) \<leftarrow> fetch rt s;
     s \<leftarrow> enter s;
     Some (s\<lparr>v_extra_args := n - 1\<rparr>) }"
| "call_frame rt APPTERM s = do {
     (nargs, s) \<leftarrow> fetch rt s;
     (slotsize, s) \<leftarrow> fetch rt s;
     s \<leftarrow> slide nargs slotsize s;
     s \<leftarrow> enter s;
     Some (s\<lparr>v_extra_args := v_extra_args s + nargs - 1\<rparr>) }"
| "call_frame rt (APPLYn n) s = do {
     (args, s) \<leftarrow> sp_take n s;
     s \<leftarrow> pushes (args @ [v_pc s, v_env s, Val_long (v_extra_args s)]) s;
     s \<leftarrow> enter s;
     Some (s\<lparr>v_extra_args := n - 1\<rparr>) }"
| "call_frame rt (APPTERMn n) s = do {
     (slotsize, s) \<leftarrow> fetch rt s;
     s \<leftarrow> slide n slotsize s;
     s \<leftarrow> enter s;
     Some (s\<lparr>v_extra_args := v_extra_args s + (n - 1)\<rparr>) }"
| "call_frame rt PUSH_RETADDR s = None"
| "call_frame rt RETURN s = None"

definition passes :: "vm \<Rightarrow> bool" where
  "passes s \<longleftrightarrow> length (v_sp s) + Stack_threshold \<le> unat (stack_words s)
     \<or> stack_words s < max_stack_size s \<and> heap_room s"

definition checked :: "runtime \<Rightarrow> vm \<Rightarrow> nat option" where
  "checked rt s = do {
     (w, s) \<leftarrow> dispatch rt s;
     (case decode w of
        Some (Cal p) \<Rightarrow> do {
          u \<leftarrow> call_frame rt p s;
          if passes u then Some (length (v_sp u)) else None }
      | _ \<Rightarrow> None) }"

definition check_height :: "runtime \<Rightarrow> vm \<Rightarrow> nat \<Rightarrow> nat" where
  "check_height rt s h = (case checked rt s of None \<Rightarrow> h | Some k \<Rightarrow> k)"

text \<open>The runtime and the state with which \<open>interprete\<close> starts the main loop.\<close>

definition entry_rt :: "runtime \<Rightarrow> vm \<Rightarrow> runtime" where
  "entry_rt rt s = rt\<lparr>rt_roots := length (local_roots s), rt_sp_offset := sp_offset s,
     rt_callback_depth := callback_depth s\<rparr>"

definition entry :: "u32 \<Rightarrow> runtime \<Rightarrow> vm \<Rightarrow> vm" where
  "entry prog rt s = s\<lparr>v_pc := prog, v_extra_args := 0, v_env := Atom (entry_rt rt s) 0, v_accu := Val_long 0\<rparr>"

text \<open>
  In each of the states of a run of \<open>n\<close> instructions from \<open>s\<close> the stack is at most \<open>b\<close> words higher
  than at the last check, \<open>h\<close> being the height at the last check before \<open>s\<close>.
\<close>

fun within :: "runtime \<Rightarrow> nat \<Rightarrow> nat \<Rightarrow> nat \<Rightarrow> vm \<Rightarrow> bool" where
  "within rt b 0 h s = (length (v_sp s) \<le> h + b)"
| "within rt b (Suc n) h s =
    (length (v_sp s) \<le> h + b
     \<and> (case step rt s of Some (Next s') \<Rightarrow> within rt b n (check_height rt s h) s' | _ \<Rightarrow> True))"

lemma step_call_frame: "call_frame rt p s = Some u \<Longrightarrow> step_call rt p s = check_stacks rt u"
  by (cases p) (auto split: bind_splits)

lemma rt_keeps_area: "keeps_area rt \<Longrightarrow> rt_keeps (area_ge A) rt"
  by (simp add: keeps_area_def)

text \<open>A passed check leaves \<open>Stack_threshold\<close> words free above the height it has seen.\<close>

lemma check_stacks_area:
  assumes c: "check_stacks rt u = Some (Next s')" and p: "passes u" and rt: "keeps_area rt"
    and a: "area_ge (max (length (v_sp u)) Stack_threshold) u"
  shows "area_ge (length (v_sp u) + Stack_threshold) s'"
proof (cases "length (v_sp u) + Stack_threshold \<le> unat (stack_words u)")
  case True
  then have "check_signals rt u = Some (Next s')" using c by (simp add: check_stacks_def)
  moreover have "area_ge (length (v_sp u) + Stack_threshold) u" using True a by (simp add: area_ge_def)
  ultimately show ?thesis using vm_area.check_signals_keeps rt_keeps_area[OF rt] by fastforce
next
  case False
  let ?u = "u\<lparr>stack_words := stack_words u * 2\<rparr>"
  have m: "stack_words u < max_stack_size u" "heap_room u" using False p by (auto simp: passes_def)
  then have "check_signals rt ?u = Some (Next s')"
    using c False by (simp add: check_stacks_def realloc_stack_def not_le[symmetric])
  moreover have "area_ge (length (v_sp u) + Stack_threshold) ?u"
    using a unat_double[OF m(1)] by (simp add: area_ge_def)
  ultimately show ?thesis using vm_area.check_signals_keeps rt_keeps_area[OF rt] by fastforce
qed

lemma pushes_append [simp]: "pushes vs s = Some (s\<lparr>v_sp := vs @ v_sp s\<rparr>)"
  by (induction vs) (simp_all add: push_def)

lemma call_frame_grows:
  "call_frame rt p s = Some u \<Longrightarrow> stack_words u = stack_words s \<and> max_stack_size u = max_stack_size s
     \<and> length (v_sp u) \<le> length (v_sp s) + 3"
  by (cases p; auto simp: fetch_def enter_def sp_take_def popn_def push_def dest!: slide_Some
      split: bind_splits if_splits; linarith)

lemma dispatch_stack:
  "dispatch rt s = Some (w, u) \<Longrightarrow>
     v_sp u = v_sp s \<and> stack_words u = stack_words s \<and> max_stack_size u = max_stack_size s"
  by (auto simp: dispatch_def restart_curr_instr_def fetch_def split: bind_splits if_splits)

lemma step_area:
  assumes s: "step rt s = Some (Next s')" and rt: "keeps_area rt"
    and a: "area_ge (h + Stack_threshold) s" and l: "length (v_sp s) \<le> h + 248"
  shows "area_ge (check_height rt s h + Stack_threshold) s'"
proof (cases "checked rt s")
  case None
  then show ?thesis using vm_area.step_keeps[OF s rt_keeps_area[OF rt] a] by (simp add: check_height_def)
next
  case (Some k)
  then obtain w s1 p u where d: "dispatch rt s = Some (w, s1)" "decode w = Some (Cal p)"
    and u: "call_frame rt p s1 = Some u" "passes u" "k = length (v_sp u)"
    by (auto simp: checked_def split: bind_splits option.splits instr.splits if_splits)
  have c: "check_stacks rt u = Some (Next s')" using s d step_call_frame[OF u(1)] by (simp add: step_def)
  have "area_ge (max (length (v_sp u)) Stack_threshold) u"
    using a l call_frame_grows[OF u(1)] dispatch_stack[OF d(1)] by (auto simp: area_ge_def Stack_threshold_def)
  then show ?thesis using check_stacks_area[OF c u(2) rt] Some u(3) by (simp add: check_height_def)
qed

lemma run_area:
  "within rt 248 n h s \<Longrightarrow> keeps_area rt \<Longrightarrow> area_ge (h + Stack_threshold) s \<Longrightarrow> k \<le> n \<Longrightarrow>
   run rt k s = Some (Next u) \<Longrightarrow> length (v_sp u) + 8 \<le> unat (stack_words u)"
proof (induction n arbitrary: k h s)
  case (Suc n)
  show ?case
  proof (cases k)
    case 0
    then show ?thesis using Suc.prems by (auto simp: area_ge_def Stack_threshold_def)
  next
    case (Suc j)
    then obtain s' where s': "step rt s = Some (Next s')" "run rt j s' = Some (Next u)"
      using Suc.prems(5) by (auto split: bind_splits outcome.splits)
    then have "area_ge (check_height rt s h + Stack_threshold) s'"
      using Suc.prems(1) by (intro step_area[OF s'(1) Suc.prems(2,3)]) simp
    moreover have "within rt 248 n (check_height rt s h) s'" using Suc.prems(1) s'(1) by simp
    ultimately show ?thesis using Suc.prems(4) Suc by (intro Suc.IH[OF _ Suc.prems(2) _ _ s'(2)]) simp_all
  qed
qed (auto simp: area_ge_def Stack_threshold_def)

text \<open>
  C10. The stack check protects the stack area. The instructions push without a test; only a call
  compares the stack with its threshold and doubles the area. For a run of the interpreter in which
  the stack is never more than 248 words above its height at the last check that was passed (the
  entry counts as one when 256 words are free there), the stack is at every instruction at least 8
  words inside its area, which covers the cells an instruction pushes for a signal, a collection or
  a C call. A check passes when the free space is above the threshold or the area can be doubled;
  the others raise and do not count. The collector and the C primitives are assumed not to shrink
  the area, and the size limit is at most \<open>2^31\<close> words.
\<close>

theorem interprete_stack_safe:
  assumes "keeps_area rt" "length (v_sp s) + Stack_threshold \<le> unat (stack_words s)"
    and "max_stack_size s \<le> 0x80000000"
    and frames: "within (entry_rt rt s) 248 n (length (v_sp s)) (entry prog rt s)"
    and "k \<le> n" "interprete rt prog k s = Some (Next u)"
  shows "length (v_sp u) + 8 \<le> unat (stack_words u)"
  using assms by (intro run_area[OF frames, of k u]) (auto simp: interprete_def entry_def entry_rt_def
     keeps_area_def rt_keeps_def area_ge_def Let_def)

text \<open>A machine with a small memory, and the program that pushes and adds two constants.\<close>

definition vm0 :: vm where
  "vm0 = \<lparr>h_mem = (\<lambda>a. if a < 0x400 \<and> a mod 4 = 0 then Some 0 else None), young_start = 0x100,
     young_end = 0x200, young_ptr = 0x200, young_limit = 0x100, in_heap = (\<lambda>a. 0x200 \<le> a \<and> a < 0x400),
     h_phase = Phase_idle, gray_vals = [], gray_vals_size = 8, heap_is_pure = True, stat_heap_size = 4096,
     heap_room = True, ref_table = [], ref_table_size = 8, ref_table_reserve = 8, ref_table_limit = 8,
     force_major_slice = False, something_to_do = False, pending_signal = 0, local_roots = [],
     global_data = 0x200, v_pc = 0, v_sp = [], v_accu = 1, v_env = 0x104, v_extra_args = 0, v_trapsp = 0,
     stack_words = 1024, max_stack_size = 4096, signal_handlers = 0x240, callback_depth = 0,
     event_count = 0\<rparr>"

definition rt0 :: "u32 list \<Rightarrow> runtime" where
  "rt0 code = \<lparr>rt_code = (\<lambda>a. if a mod 4 = 0 then rd code (unat (a div 4)) else None),
     rt_saved = (\<lambda>_. None), rt_atom_table = 0x80,
     rt_cprim = (\<lambda>_. None), rt_gc = Some, rt_oom_bucket = 0x300, rt_sp_offset = 0, rt_roots = 0,
     rt_callback_depth = 0\<rparr>"



text \<open>A recursion that pushes for ever: the closure of its code is global 0.\<close>

theorem interprete_stack_safe_witness:
  "\<exists>u. interprete (rt0 [82, 0, 93]) 0 6 (vm0\<lparr>stack_words := 256\<rparr>) = Some (Next u)
     \<and> length (v_sp u) = 12 \<and> stack_words u = 512 \<and> length (v_sp u) + 8 \<le> unat (stack_words u)"
proof -
  let ?s = "vm0\<lparr>stack_words := 256\<rparr>" and ?rt = "rt0 [82, 0, 93]"
  have w: "within (entry_rt ?rt ?s) 248 6 (length (v_sp ?s)) (entry 0 ?rt ?s)" by code_simp
  have "(case interprete ?rt 0 6 ?s of Some (Next u) \<Rightarrow> length (v_sp u) = 12 \<and> stack_words u = 512 | _ \<Rightarrow> False)"
    by code_simp
  then obtain u where u: "interprete ?rt 0 6 ?s = Some (Next u)" "length (v_sp u) = 12" "stack_words u = 512"
    by (auto split: option.splits outcome.splits)
  have "keeps_area ?rt" by (simp add: keeps_area_def rt_keeps_def rt0_def)
  then have "length (v_sp u) + 8 \<le> unat (stack_words u)"
    using interprete_stack_safe[OF _ _ _ w _ u(1)] by (simp add: vm0_def Stack_threshold_def)
  with u show ?thesis by blast
qed

end
