(* ===== verification/Interp_Thms.thy ===== *)
theory Interp_Thms
  imports Interp_Inv
begin

text \<open>
  What the instructions of the bytecode interpreter compute: integer arithmetic on tagged values is
  arithmetic modulo \<open>2^31\<close>, a call and its return restore the caller, a function applied to too few
  arguments and later to the rest behaves as if it had got all of them, and an exception resumes the
  handler in the context in which it was installed.
\<close>

section \<open>Integers\<close>

fun binop_sem :: "binop \<Rightarrow> int \<Rightarrow> int \<Rightarrow> int" where
  "binop_sem ADDINT a b = a + b"
| "binop_sem SUBINT a b = a - b"
| "binop_sem MULINT a b = a * b"
| "binop_sem ANDINT a b = (a AND b)"
| "binop_sem ORINT a b = (a OR b)"
| "binop_sem XORINT a b = (a XOR b)"
| "binop_sem LSLINT a b = a * 2 ^ nat b"
| "binop_sem LSRINT a b = (a mod 2147483648) div 2 ^ nat b"
| "binop_sem ASRINT a b = a div 2 ^ nat b"
| "binop_sem EQ a b = of_bool (a = b)"
| "binop_sem NEQ a b = of_bool (a \<noteq> b)"
| "binop_sem LTINT a b = of_bool (a < b)"
| "binop_sem LEINT a b = of_bool (a \<le> b)"
| "binop_sem GTINT a b = of_bool (a > b)"
| "binop_sem GEINT a b = of_bool (a \<ge> b)"

definition small :: "int \<Rightarrow> bool" where
  "small n \<longleftrightarrow> - 1073741824 \<le> n \<and> n < 1073741824"

lemma bit_Val_int: "k < 32 \<Longrightarrow> bit (Val_int n) k \<longleftrightarrow> k = 0 \<or> bit n (k - 1)"
proof -
  assume k: "k < 32"
  have "Val_int n = word_of_int (2 * n + 1)" by (rule Val_int_word)
  then have "bit (Val_int n) k = bit (2 * n + 1) k" using k by (simp only: bit_word_of_int_iff) simp
  then show ?thesis by (cases k) (simp_all add: bit_0 bit_Suc)
qed

lemma bit_Val_int_minus: "k < 32 \<Longrightarrow> bit (Val_int n - 1) k \<longleftrightarrow> 0 < k \<and> bit n (k - 1)"
proof -
  assume k: "k < 32"
  have "Val_int n - 1 = word_of_int (2 * n)" by (simp add: Val_int_word)
  then have "bit (Val_int n - 1) k = bit (2 * n) k" using k by (simp only: bit_word_of_int_iff) simp
  then show ?thesis by (cases k) (simp_all add: bit_0 bit_Suc)
qed

lemma bit_small: "small a \<Longrightarrow> 30 \<le> j \<Longrightarrow> bit a j \<longleftrightarrow> bit a 30"
proof -
  assume a: "small a" and j: "30 \<le> j"
  have "signed_take_bit 30 a = a" using a by (simp add: small_def signed_take_bit_int_eq_self)
  then show ?thesis using j bit_signed_take_bit_iff[of 30 a j] by (simp add: min_def)
qed

lemma Long_Val: "small n \<Longrightarrow> Long_val (Val_int n) = word_of_int n"
proof -
  assume "small n"
  then have "sint (Long_val (Val_int n)) = n" by (simp add: small_def Long_val_Val_int)
  moreover have "word_of_int (sint (Long_val (Val_int n))) = Long_val (Val_int n)" by simp
  ultimately show ?thesis by simp
qed

lemma Val_long_word: "Val_long (word_of_int n) = Val_int n"
  by (simp add: Val_int_def)

lemma shift_count_Val:
  assumes "0 \<le> b" "b < 32"
  shows "shift_count (Val_int b) = Some (nat b)"
proof -
  have "unat (word_of_int b :: u32) = nat b" using assms
    by (simp add: unsigned_of_int take_bit_int_eq_self)
  then show ?thesis using assms Long_val_Val_int[of b] Long_Val[of b]
    by (simp add: shift_count_def small_def)
qed

lemma binop_bits:
  "Val_int a AND Val_int b = Val_int (a AND b)"
  "Val_int a OR Val_int b = Val_int (a OR b)"
  "(Val_int a XOR Val_int b) OR 1 = Val_int (a XOR b)"
  by (rule bit_word_eqI; auto simp: bit_simps bit_Val_int)+

lemma binop_lsl: "push_bit n (Val_int a - 1) + 1 = Val_int (a * 2 ^ n)"
  by (simp add: Val_int_word push_bit_eq_mult mult_ac)

lemma binop_lsr: "drop_bit n (Val_int a - 1) OR 1 = Val_int ((a mod 2147483648) div 2 ^ n)"
proof -
  have "(a mod 2147483648) div 2 ^ n = drop_bit n (take_bit 31 a)"
    by (simp add: drop_bit_eq_div take_bit_eq_mod)
  moreover have "drop_bit n (Val_int a - 1) OR 1 = Val_int (drop_bit n (take_bit 31 a))"
  proof (rule bit_word_eqI)
    fix k assume "k < LENGTH(32)"
    then have k: "k < 32" by simp
    show "bit (drop_bit n (Val_int a - 1) OR 1) k \<longleftrightarrow> bit (Val_int (drop_bit n (take_bit 31 a))) k"
      using k bit_Val_int_minus[of "n + k" a] bit_imp_le_length[of "Val_int a - 1" "n + k"]
      by (cases k; cases "n + k < 32") (auto simp: bit_simps bit_Val_int)
  qed
  ultimately show ?thesis by simp
qed

lemma binop_asr:
  assumes "small a" "n < 32"
  shows "signed_drop_bit n (Val_int a - 1) OR 1 = Val_int (a div 2 ^ n)"
proof -
  have "signed_drop_bit n (Val_int a - 1) OR 1 = Val_int (drop_bit n a)"
  proof (rule bit_word_eqI)
    fix k assume "k < LENGTH(32)"
    then have k: "k < 32" by simp
    show "bit (signed_drop_bit n (Val_int a - 1) OR 1) k \<longleftrightarrow> bit (Val_int (drop_bit n a)) k"
    proof (cases "n + k < 32")
      case True
      then show ?thesis using k bit_Val_int_minus[of "n + k" a]
        by (cases k) (auto simp: bit_simps bit_Val_int)
    next
      case False
      then show ?thesis using k bit_Val_int_minus[of 31 a] bit_small[OF assms(1), of "n + (k - 1)"] assms(2)
        by (cases k) (auto simp: bit_simps bit_Val_int)
    qed
  qed
  then show ?thesis by (simp add: drop_bit_eq_div)
qed

lemma binop_arith:
  assumes "small a" "small b"
  shows "Val_int a + Val_int b - 1 = Val_int (a + b)"
    "Val_int a - Val_int b + 1 = Val_int (a - b)"
    "Val_long (Long_val (Val_int a) * Long_val (Val_int b)) = Val_int (a * b)"
  using assms by (simp_all add: Long_Val) (simp_all add: Val_int_word Val_long_def algebra_simps push_bit_eq_mult)

lemma Val_bool_int: "Val_bool b = Val_int (of_bool b)"
  by (simp add: Val_bool_def Val_int_def)

lemma Val_int_eq: "small a \<Longrightarrow> small b \<Longrightarrow> Val_int a = Val_int b \<longleftrightarrow> a = b"
  by (metis Long_val_Val_int small_def)

lemma sint_small: "small a \<Longrightarrow> sint (Val_int a) = 2 * a + 1"
  by (simp add: small_def sint_Val_int)

lemma binop_val_correct:
  assumes s: "small a" "small b"
    and sh: "p \<in> {LSLINT, LSRINT, ASRINT} \<Longrightarrow> 0 \<le> b \<and> b < 32"
  shows "binop_val p (Val_int a) (Val_int b) = Some (Val_int (i31 (binop_sem p a b)))"
proof (cases "p \<in> {LSLINT, LSRINT, ASRINT}")
  case True
  then have b: "0 \<le> b" "b < 32" "nat b < 32" using sh by auto
  show ?thesis using True
    by (auto simp: Val_int_i31 shift_count_Val[OF b(1,2)] binop_lsl binop_lsr binop_asr[OF s(1) b(3)])
next
  case False
  then show ?thesis
    by (cases p) (simp_all add: Val_int_i31 binop_arith[OF s] binop_bits Val_bool_int
        Val_int_eq[OF s] sint_small[OF s(1)] sint_small[OF s(2)])
qed

lemma int_division_correct:
  assumes s: "small a" "small b" "b \<noteq> 0" and v: "v_accu s = Val_int a" "v_sp s = Val_int b # st"
  shows "exec_instr rt (Ari DIVINT) s = Some (Next (s\<lparr>v_sp := st, v_accu := Val_int (i31 (a sdiv b))\<rparr>))"
    and "exec_instr rt (Ari MODINT) s = Some (Next (s\<lparr>v_sp := st, v_accu := Val_int (i31 (a smod b))\<rparr>))"
proof -
  have i: "sint (word_of_int a :: u32) = a" "sint (word_of_int b :: u32) = b"
    using Long_val_Val_int[of a] Long_val_Val_int[of b] s by (simp_all add: Long_Val[symmetric] small_def)
  have nz: "(word_of_int b :: u32) \<noteq> 0" using i(2) s(3) by auto
  show "exec_instr rt (Ari DIVINT) s = Some (Next (s\<lparr>v_sp := st, v_accu := Val_int (i31 (a sdiv b))\<rparr>))"
    "exec_instr rt (Ari MODINT) s = Some (Next (s\<lparr>v_sp := st, v_accu := Val_int (i31 (a smod b))\<rparr>))"
    using v nz i by (simp_all add: int_division_def pop_def Let_def Long_Val s c_sdiv_def c_smod_def
        set_accu_def Val_int_i31 Val_long_word)
qed

text \<open>
  C11. Integer instructions. On the representations of two integers \<open>a\<close> and \<open>b\<close> of the language
  (31 bits), every binary instruction leaves in the accumulator the representation of the
  mathematical result reduced modulo \<open>2^31\<close> into the range of the language (comparisons give 0 or
  1, shift counts must be in range), pops one cell and changes nothing else; so do division and
  remainder, truncating, for a non-zero divisor, and negation.
\<close>

theorem integer_instructions:
  assumes "small a" "small b" "v_accu s = Val_int a" "v_sp s = Val_int b # st"
  shows "((p \<in> {LSLINT, LSRINT, ASRINT} \<longrightarrow> 0 \<le> b \<and> b < 32) \<longrightarrow>
       exec_instr rt (Bin p) s = Some (Next (s\<lparr>v_sp := st, v_accu := Val_int (i31 (binop_sem p a b))\<rparr>)))
   \<and> (b \<noteq> 0 \<longrightarrow>
       exec_instr rt (Ari DIVINT) s = Some (Next (s\<lparr>v_sp := st, v_accu := Val_int (i31 (a sdiv b))\<rparr>))
     \<and> exec_instr rt (Ari MODINT) s = Some (Next (s\<lparr>v_sp := st, v_accu := Val_int (i31 (a smod b))\<rparr>)))
   \<and> exec_instr rt (Ari NEGINT) s = Some (Next (s\<lparr>v_accu := Val_int (i31 (- a))\<rparr>))"
proof (intro conjI impI)
  assume "p \<in> {LSLINT, LSRINT, ASRINT} \<longrightarrow> 0 \<le> b \<and> b < 32"
  then have "binop_val p (Val_int a) (Val_int b) = Some (Val_int (i31 (binop_sem p a b)))"
    by (intro binop_val_correct assms) auto
  then show "exec_instr rt (Bin p) s = Some (Next (s\<lparr>v_sp := st, v_accu := Val_int (i31 (binop_sem p a b))\<rparr>))"
    using assms by (simp add: step_binop_def pop_def set_accu_def)
next
  have "2 - Val_int a = Val_int (- a)" by (simp add: Val_int_word)
  then show "exec_instr rt (Ari NEGINT) s = Some (Next (s\<lparr>v_accu := Val_int (i31 (- a))\<rparr>))"
    using assms by (simp add: set_accu_def Val_int_i31)
qed (use int_division_correct assms in blast)+

theorem integer_instructions_witness:
  "exec_instr (rt0 []) (Bin MULINT) (vm0\<lparr>v_accu := Val_int 1000000000, v_sp := [Val_int (- 7)]\<rparr>)
     = Some (Next (vm0\<lparr>v_sp := [], v_accu := Val_int (i31 (- 7000000000))\<rparr>))"
  using integer_instructions[of 1000000000 "- 7"
      "vm0\<lparr>v_accu := Val_int 1000000000, v_sp := [Val_int (- 7)]\<rparr>" "[]" MULINT "rt0 []"]
  by (simp add: small_def)


section \<open>Calls and exceptions\<close>

lemma popn_Some:
  "n < 2147483648 \<Longrightarrow> n \<le> length (v_sp s) \<Longrightarrow> popn (word_of_nat n) s = Some (s\<lparr>v_sp := drop n (v_sp s)\<rparr>)"
proof -
  assume n: "n < 2147483648" and l: "n \<le> length (v_sp s)"
  have u: "unat (word_of_nat n :: u32) = n" using n by (simp add: unat_of_nat)
  have "sint (word_of_nat n :: u32) = int n" using sint32_small[of "word_of_nat n"] n u by simp
  then show ?thesis using u l by (simp add: popn_def)
qed

lemma sp_take_Some:
  "n < 2147483648 \<Longrightarrow> n \<le> length (v_sp s) \<Longrightarrow>
   sp_take (word_of_nat n) s = Some (take n (v_sp s), s\<lparr>v_sp := drop n (v_sp s)\<rparr>)"
  by (simp add: sp_take_def popn_Some unat_of_nat)

lemma pop_Cons [simp]: "v_sp s = v # vs \<Longrightarrow> pop s = Some (v, s\<lparr>v_sp := vs\<rparr>)"
  by (simp add: pop_def)

lemma pop_frame_Some:
  "v_sp s = c # e # x # st \<Longrightarrow>
   pop_frame s = Some (s\<lparr>v_sp := st, v_pc := c, v_env := e, v_extra_args := Long_val x\<rparr>)"
  by (simp add: pop_frame_def)

lemma Long_Val_long: "small (sint x) \<Longrightarrow> Long_val (Val_long x) = x"
  using Long_Val[of "sint x"] Val_long_word[of "sint x"] by simp

lemma check_signals_idle: "\<not> something_to_do s \<Longrightarrow> check_signals rt s = Some (Next s)"
  by (simp add: check_signals_def)

lemma check_stacks_idle:
  "\<not> something_to_do s \<Longrightarrow> length (v_sp s) + Stack_threshold \<le> unat (stack_words s) \<Longrightarrow>
   check_stacks rt s = Some (Next s)"
  by (simp add: check_stacks_def check_signals_idle)

text \<open>What the interpreter needs to run an instruction without growing the stack or taking a signal.\<close>

definition calm :: "nat \<Rightarrow> vm \<Rightarrow> bool" where
  "calm n s \<longleftrightarrow> \<not> something_to_do s \<and> length (v_sp s) + n + Stack_threshold \<le> unat (stack_words s)"

definition at_code :: "runtime \<Rightarrow> vm \<Rightarrow> u32 \<Rightarrow> bool" where
  "at_code rt s w \<longleftrightarrow> rt_code rt (v_pc s) = Some w"

lemma fetch_Some: "at_code rt s w \<Longrightarrow> fetch rt s = Some (w, skip s)"
  by (simp add: at_code_def fetch_def skip_def)

text \<open>
  C12. Call and return. Applying the closure in the accumulator to \<open>n\<close> arguments (\<open>APPLY1\<close> to
  \<open>APPLY3\<close>) enters its code with the closure as environment, the arguments on top of the stack and
  \<open>n - 1\<close> extra arguments; whatever the callee then pushes, when it returns with no extra argument
  left and pops its cells together with the arguments, the caller continues at the next
  instruction with its environment, its extra arguments and its stack without the arguments, and
  with the result in the accumulator.
\<close>

theorem apply_return:
  assumes n: "n \<in> {1, 2, 3}" "v_sp s = args @ st" "length args = n"
    and code: "Field_get s (v_accu s) 0 = Some c"
    and room: "calm 3 s" and x: "small (sint (v_extra_args s))"
  shows "\<exists>s1. exec_instr rt (Cal (APPLYn (word_of_nat n))) s = Some (Next s1)
     \<and> v_pc s1 = c \<and> v_env s1 = v_accu s \<and> v_extra_args s1 = word_of_nat (n - 1)
     \<and> take n (v_sp s1) = args \<and> h_mem s1 = h_mem s
     \<and> (\<forall>s2 locals. v_sp s2 = locals @ drop n (v_sp s1) \<and> v_extra_args s2 = 0
          \<and> length locals < 2147483648 \<and> at_code rt s2 (word_of_nat (length locals))
          \<longrightarrow> exec_instr rt (Cal RETURN) s2 =
              Some (Next (s2\<lparr>v_sp := st, v_pc := v_pc s, v_env := v_env s, v_extra_args := v_extra_args s\<rparr>)))"
proof -
  let ?fr = "[v_pc s, v_env s, Val_long (v_extra_args s)]"
  let ?s1 = "s\<lparr>v_sp := args @ ?fr @ st, v_pc := c, v_env := v_accu s, v_extra_args := word_of_nat (n - 1)\<rparr>"
  have nw: "n < 2147483648" and n1: "word_of_nat n - 1 = (word_of_nat (n - 1) :: u32)" using n(1) by auto
  have "sp_take (word_of_nat n) s = Some (args, s\<lparr>v_sp := st\<rparr>)"
    using sp_take_Some[OF nw, of s] n by simp
  moreover have "pushes (args @ ?fr) (s\<lparr>v_sp := st\<rparr>) = Some (s\<lparr>v_sp := (args @ ?fr) @ st\<rparr>)"
    by simp
  moreover have "enter (s\<lparr>v_sp := (args @ ?fr) @ st\<rparr>)
      = Some (s\<lparr>v_sp := (args @ ?fr) @ st, v_pc := c, v_env := v_accu s\<rparr>)"
    using code by (simp add: enter_def Field_get_def load_def)
  moreover have "check_stacks rt ?s1 = Some (Next ?s1)"
    using room n by (intro check_stacks_idle) (simp_all add: calm_def)
  ultimately have "exec_instr rt (Cal (APPLYn (word_of_nat n))) s = Some (Next ?s1)"
    by (simp add: n1)
  moreover have "exec_instr rt (Cal RETURN) s2 =
      Some (Next (s2\<lparr>v_sp := st, v_pc := v_pc s, v_env := v_env s, v_extra_args := v_extra_args s\<rparr>))"
    if h: "v_sp s2 = locals @ drop n (v_sp ?s1)" "v_extra_args s2 = 0" "length locals < 2147483648"
      "at_code rt s2 (word_of_nat (length locals))" for s2 locals
  proof -
    have "popn (word_of_nat (length locals)) (skip s2) = Some ((skip s2)\<lparr>v_sp := ?fr @ st\<rparr>)"
      using popn_Some[OF h(3), of "skip s2"] h(1) n(3) by (simp add: skip_def)
    then show ?thesis using h fetch_Some[OF h(4)] x
      by (simp add: pop_frame_Some[of _ "v_pc s" "v_env s"] Long_Val_long skip_def)
  qed
  ultimately show ?thesis using n by (intro exI[of _ ?s1]) auto
qed

theorem apply_return_witness:
  "\<exists>s1. exec_instr (rt0 [1]) (Cal (APPLYn 1)) (vm0\<lparr>v_accu := 0x204, v_sp := [Val_int 9]\<rparr>) = Some (Next s1)
     \<and> v_pc s1 = 0 \<and> take 1 (v_sp s1) = [Val_int 9]
     \<and> exec_instr (rt0 [1]) (Cal RETURN) (s1\<lparr>v_accu := 3\<rparr>) =
         Some (Next (s1\<lparr>v_accu := 3, v_sp := [], v_pc := 0, v_env := 0x104, v_extra_args := 0\<rparr>))"
proof -
  let ?s = "vm0\<lparr>v_accu := 0x204, v_sp := [Val_int 9]\<rparr>"
  have "\<exists>s1. exec_instr (rt0 [1]) (Cal (APPLYn (word_of_nat 1))) ?s = Some (Next s1)
     \<and> v_pc s1 = 0 \<and> v_env s1 = v_accu ?s \<and> v_extra_args s1 = word_of_nat (1 - 1)
     \<and> take 1 (v_sp s1) = [Val_int 9] \<and> h_mem s1 = h_mem ?s
     \<and> (\<forall>s2 locals. v_sp s2 = locals @ drop 1 (v_sp s1) \<and> v_extra_args s2 = 0
          \<and> length locals < 2147483648 \<and> at_code (rt0 [1]) s2 (word_of_nat (length locals))
          \<longrightarrow> exec_instr (rt0 [1]) (Cal RETURN) s2 =
              Some (Next (s2\<lparr>v_sp := [], v_pc := v_pc ?s, v_env := v_env ?s, v_extra_args := v_extra_args ?s\<rparr>)))"
    by (rule apply_return)
      (simp_all add: vm0_def Field_get_def load_def Field_addr_def calm_def Stack_threshold_def small_def)
  then obtain s1 where s1: "exec_instr (rt0 [1]) (Cal (APPLYn (word_of_nat 1))) ?s = Some (Next s1)"
     "v_pc s1 = 0" "v_extra_args s1 = 0" "take 1 (v_sp s1) = [Val_int 9]"
     "\<And>s2 locals. v_sp s2 = locals @ drop 1 (v_sp s1) \<Longrightarrow> v_extra_args s2 = 0 \<Longrightarrow>
         length locals < 2147483648 \<Longrightarrow> at_code (rt0 [1]) s2 (word_of_nat (length locals)) \<Longrightarrow>
         exec_instr (rt0 [1]) (Cal RETURN) s2 =
              Some (Next (s2\<lparr>v_sp := [], v_pc := v_pc ?s, v_env := v_env ?s, v_extra_args := v_extra_args ?s\<rparr>))"
    by auto
  have "v_sp s1 = [Val_int 9] @ drop 1 (v_sp s1)" using s1(4) by (metis append_take_drop_id)
  then have "exec_instr (rt0 [1]) (Cal RETURN) (s1\<lparr>v_accu := 3\<rparr>) =
      Some (Next ((s1\<lparr>v_accu := 3\<rparr>)\<lparr>v_sp := [], v_pc := v_pc ?s, v_env := v_env ?s, v_extra_args := v_extra_args ?s\<rparr>))"
    using s1(2,3) by (intro s1(5)[of "s1\<lparr>v_accu := 3\<rparr>" "[Val_int 9]"]) (simp_all add: at_code_def rt0_def rd_def)
  then show ?thesis using s1 by (intro exI[of _ s1]) (simp add: vm0_def)
qed

lemma raise_exception_frame:
  assumes "v_sp s = cells @ [h, l, e, x] @ st" "v_trapsp s = 4 * word_of_nat (length st + 4)"
    and "length st + 4 < 1073741824" and "rt_sp_offset rt < v_trapsp s"
  shows "raise_exception rt s =
     Some (Next (s\<lparr>v_sp := st, v_pc := h, v_trapsp := l, v_env := e, v_extra_args := Long_val x\<rparr>))"
proof -
  have u: "unat (v_trapsp s) = 4 * (length st + 4)"
    using assms(2,3) by (simp add: unat_word_ariths unat_of_nat)
  have a: "v_trapsp s AND 3 = 0"
  proof -
    have "(3::u32) = mask 2" by code_simp
    then have "v_trapsp s AND 3 = take_bit 2 (v_trapsp s)" by (simp add: take_bit_eq_mask)
    then have "unat (v_trapsp s AND 3) = unat (v_trapsp s) mod 4" by (simp add: unat_take_bit32)
    then show ?thesis using u by (simp add: unat_eq_zero)
  qed
  have "drop (length (v_sp s) - (length st + 4)) (v_sp s) = [h, l, e, x] @ st" using assms(1) by simp
  then show ?thesis using assms a u by (simp add: raise_exception_def Let_def not_le[symmetric] del: not_le)
qed

text \<open>
  C13. Exception handlers. \<open>PUSHTRAP\<close> installs a handler when the stack has room for its frame.
  In any later state whose stack still contains that frame, with any cells above it, and whose
  current trap is that frame, \<open>RAISE\<close> resumes the handler with the stack, the environment, the extra
  arguments and the enclosing trap of the moment when the handler was installed, and keeps the
  exception in the accumulator; when nothing is left above the frame, \<open>POPTRAP\<close> removes it and
  restores the enclosing trap. The frame has to be inside the current activation of the
  interpreter.
\<close>

theorem trap_raise:
  assumes room: "length (v_sp s) + 4 \<le> unat (stack_words s)" "unat (stack_words s) < 1073741824"
    and x: "small (sint (v_extra_args s))"
    and off: "unat (rt_sp_offset rt) \<le> 4 * length (v_sp s)"
    and code: "at_code rt s w"
  shows "\<exists>s1. exec_instr rt (Exn PUSHTRAP) s = Some (Next s1) \<and> v_pc s1 = v_pc s + 4
     \<and> drop 4 (v_sp s1) = v_sp s \<and> (\<forall>s2 cells. v_sp s2 = cells @ v_sp s1 \<and> v_trapsp s2 = v_trapsp s1 \<longrightarrow>
       exec_instr rt (Exn RAISE) s2 = Some (Next (s2\<lparr>v_sp := v_sp s, v_pc := v_pc s + 4 * w,
          v_trapsp := v_trapsp s, v_env := v_env s, v_extra_args := v_extra_args s\<rparr>))
     \<and> (cells = [] \<longrightarrow> exec_instr rt (Exn POPTRAP) s2 =
          Some (Next (s2\<lparr>v_sp := v_sp s, v_trapsp := v_trapsp s\<rparr>))))"
proof -
  let ?fr = "[v_pc s + 4 * w, v_trapsp s, v_env s, Val_long (v_extra_args s)]"
  let ?t = "4 * word_of_nat (length (v_sp s) + 4) :: u32"
  let ?s1 = "s\<lparr>v_sp := ?fr @ v_sp s, v_trapsp := ?t, v_pc := v_pc s + 4\<rparr>"
  have "exec_instr rt (Exn PUSHTRAP) s = Some (Next ?s1)"
    using code by (simp add: jump_def at_code_def skip_def sp_offset_def add.commute del: pushes.simps)
  moreover have "exec_instr rt (Exn RAISE) s2 = Some (Next (s2\<lparr>v_sp := v_sp s, v_pc := v_pc s + 4 * w,
          v_trapsp := v_trapsp s, v_env := v_env s, v_extra_args := v_extra_args s\<rparr>))
     \<and> (cells = [] \<longrightarrow> exec_instr rt (Exn POPTRAP) s2 =
          Some (Next (s2\<lparr>v_sp := v_sp s, v_trapsp := v_trapsp s\<rparr>)))"
    if h: "v_sp s2 = cells @ v_sp ?s1" "v_trapsp s2 = v_trapsp ?s1" for s2 cells
  proof -
    have "unat ?t = 4 * (length (v_sp s) + 4)" using room
      by (simp add: unat_word_ariths unat_of_nat del: of_nat_add)
    then have "rt_sp_offset rt < v_trapsp s2" using off h(2) by (simp add: word_less_nat_alt)
    then have "raise_exception rt s2 = Some (Next (s2\<lparr>v_sp := v_sp s, v_pc := v_pc s + 4 * w,
        v_trapsp := v_trapsp s, v_env := v_env s, v_extra_args := Long_val (Val_long (v_extra_args s))\<rparr>))"
      using h room by (intro raise_exception_frame) simp_all
    moreover have "cells = [] \<Longrightarrow> exec_instr rt (Exn POPTRAP) s2 =
          Some (Next (s2\<lparr>v_sp := v_sp s, v_trapsp := v_trapsp s\<rparr>))"
      using h popn_Some[of 4 s2] by (simp add: sp_at_def rd_def)
    ultimately show ?thesis using x by (simp add: Long_Val_long)
  qed
  ultimately show ?thesis by (intro exI[of _ ?s1]) auto
qed

theorem trap_raise_witness:
  "\<exists>s1. exec_instr (rt0 [6]) (Exn PUSHTRAP) vm0 = Some (Next s1)
     \<and> exec_instr (rt0 [6]) (Exn RAISE) (s1\<lparr>v_accu := 77, v_sp := [3, 5] @ v_sp s1\<rparr>) =
         Some (Next (s1\<lparr>v_accu := 77, v_sp := [], v_pc := 24, v_trapsp := 0, v_env := 0x104, v_extra_args := 0\<rparr>))"
proof -
  obtain s1 where s1: "exec_instr (rt0 [6]) (Exn PUSHTRAP) vm0 = Some (Next s1)"
    "\<And>s2 cells. v_sp s2 = cells @ v_sp s1 \<Longrightarrow> v_trapsp s2 = v_trapsp s1 \<Longrightarrow>
       exec_instr (rt0 [6]) (Exn RAISE) s2 = Some (Next (s2\<lparr>v_sp := v_sp vm0, v_pc := v_pc vm0 + 4 * 6,
          v_trapsp := v_trapsp vm0, v_env := v_env vm0, v_extra_args := v_extra_args vm0\<rparr>))"
    using trap_raise[of vm0 "rt0 [6]" 6]
    by (auto simp: vm0_def rt0_def at_code_def rd_def small_def)
  then show ?thesis
    using s1(2)[of "s1\<lparr>v_accu := 77, v_sp := [3, 5] @ v_sp s1\<rparr>" "[3, 5]"]
    by (intro exI[of _ s1]) (simp add: vm0_def)
qed

section \<open>Partial application\<close>

definition mapped :: "mem \<Rightarrow> val \<Rightarrow> u32 \<Rightarrow> nat \<Rightarrow> bool" where
  "mapped m b i n \<longleftrightarrow> (\<forall>j < n. m (b + 4 * (i + word_of_nat j)) \<noteq> None)"

lemma mapped_Suc: "mapped m b i (Suc n) \<longleftrightarrow> m (b + 4 * i) \<noteq> None \<and> mapped m b (i + 1) n"
  by (auto simp: mapped_def less_Suc_eq_0_disj algebra_simps)

lemma mapped_upd: "mapped m b i n \<Longrightarrow> mapped (m(a \<mapsto> v)) b i n"
  by (auto simp: mapped_def)

lemma addr_distinct:
  assumes "j < 1073741824" "k < 1073741824" "(b::u32) + 4 * (i + word_of_nat j) = b + 4 * (i + word_of_nat k)"
  shows "j = k"
proof -
  have "4 * (word_of_nat j :: u32) = 4 * word_of_nat k" using assms(3) by (simp add: algebra_simps)
  then have "unat (4 * (word_of_nat j :: u32)) = unat (4 * (word_of_nat k :: u32))" by simp
  then show ?thesis using assms(1,2) by (simp add: unat_word_ariths unat_of_nat)
qed

lemma load_fields_cong:
  "(\<And>j. j < n \<Longrightarrow> h_mem s' (b + 4 * (i + word_of_nat j)) = h_mem s (b + 4 * (i + word_of_nat j))) \<Longrightarrow>
   load_fields s' b i n = load_fields s b i n"
proof (induction n arbitrary: i)
  case (Suc n)
  have "h_mem s' (b + 4 * i) = h_mem s (b + 4 * i)" using Suc.prems[of 0] by simp
  moreover have "load_fields s' b (i + 1) n = load_fields s b (i + 1) n"
    using Suc.prems[of "Suc j" for j] by (intro Suc.IH) (simp add: algebra_simps)
  ultimately show ?case by (simp add: Field_get_def load_def Field_addr_def)
qed simp

lemma load_store_fields:
  assumes "mapped (h_mem s) b i (length vs)" "length vs < 1073741824"
  shows "\<exists>m. store_fields b i vs s = Some (s\<lparr>h_mem := m\<rparr>)
     \<and> load_fields (s\<lparr>h_mem := m\<rparr>) b i (length vs) = Some vs
     \<and> (\<forall>a. (\<forall>j < length vs. a \<noteq> b + 4 * (i + word_of_nat j)) \<longrightarrow> m a = h_mem s a)
     \<and> dom m = dom (h_mem s)"
  using assms
proof (induction vs arbitrary: i s)
  case (Cons v vs)
  let ?s = "s\<lparr>h_mem := (h_mem s)(b + 4 * i \<mapsto> v)\<rparr>"
  from Cons.prems have m: "h_mem s (b + 4 * i) \<noteq> None" "mapped (h_mem ?s) b (i + 1) (length vs)"
    by (auto simp: mapped_Suc mapped_upd)
  have len: "length vs < 1073741824" using Cons.prems(2) by simp
  obtain m' where r: "store_fields b (i + 1) vs ?s = Some (?s\<lparr>h_mem := m'\<rparr>)"
    and l: "load_fields (?s\<lparr>h_mem := m'\<rparr>) b (i + 1) (length vs) = Some vs"
    and f: "\<And>a. \<forall>j < length vs. a \<noteq> b + 4 * (i + 1 + word_of_nat j) \<Longrightarrow> m' a = h_mem ?s a"
    and d: "dom m' = dom (h_mem ?s)"
    using Cons.IH[OF m(2) len] by blast
  have "b + 4 * i \<noteq> b + 4 * (i + 1 + word_of_nat j)" if "j < length vs" for j
    using addr_distinct[of 0 "Suc j" b i] that Cons.prems(2) by (auto simp: algebra_simps)
  then have v: "m' (b + 4 * i) = Some v" using f by simp
  have "store_fields b i (v # vs) s = Some (s\<lparr>h_mem := m'\<rparr>)"
    using m(1) r by (simp add: store_def Field_addr_def)
  moreover have "load_fields (s\<lparr>h_mem := m'\<rparr>) b i (length (v # vs)) = Some (v # vs)"
    using l v by (simp add: Field_get_def load_def Field_addr_def)
  moreover have "m' a = h_mem s a" if "\<forall>j < length (v # vs). a \<noteq> b + 4 * (i + word_of_nat j)" for a
  proof -
    have "a \<noteq> b + 4 * i" "\<forall>j < length vs. a \<noteq> b + 4 * (i + 1 + word_of_nat j)"
      using that by (auto simp: less_Suc_eq_0_disj algebra_simps)
    then show ?thesis using f by auto
  qed
  moreover have "dom m' = dom (h_mem s)" using d m(1) by auto
  ultimately show ?case by blast
next
  case Nil
  then show ?case by (intro exI[of _ "h_mem s"]) simp
qed

lemma Alloc_small_Some:
  assumes b: "b = young_ptr h - Bhsize_wosize wosize + 4"
    and young: "young_limit h \<le> b - 4" and mp: "h_mem h (b - 4) \<noteq> None"
  shows "Alloc_small gc wosize tag h =
     Some (b, h\<lparr>young_ptr := b - 4, h_mem := (h_mem h)(b - 4 \<mapsto> Make_header wosize tag Black)\<rparr>)"
proof -
  have e: "young_ptr h - Bhsize_wosize wosize = b - 4" by (simp add: b)
  have "\<not> b - 4 < young_limit h" using young by (simp add: not_less)
  then show ?thesis using mp by (simp add: Alloc_small_def store_def e Let_def)
qed

lemma field_distinct:
  "j < 1073741824 \<Longrightarrow> k < 1073741824 \<Longrightarrow> j \<noteq> k \<Longrightarrow>
   (b::u32) + 4 * word_of_nat j \<noteq> b + 4 * word_of_nat k"
  using addr_distinct[of j k b 0] by auto

lemma header_distinct: "j < 1073741823 \<Longrightarrow> (b::u32) - 4 \<noteq> b + 4 * word_of_nat j"
  using addr_distinct[of 0 "Suc j" "b - 4" 0] by (auto simp: algebra_simps)

text \<open>The block a partial application builds: code, environment and the arguments it has got.\<close>

definition closure_block :: "mem \<Rightarrow> val \<Rightarrow> u32 \<Rightarrow> val \<Rightarrow> val list \<Rightarrow> bool" where
  "closure_block m b c e args \<longleftrightarrow>
     m (b - 4) = Some (Make_header (word_of_nat (length args + 2)) Closure_tag Black)
   \<and> m b = Some c \<and> m (b + 4) = Some e
   \<and> (\<forall>j < length args. m (b + 4 * word_of_nat (j + 2)) = Some (args ! j))"

lemma load_fields_nth:
  "(\<And>j. j < length vs \<Longrightarrow> h_mem s (b + 4 * (i + word_of_nat j)) = Some (vs ! j)) \<Longrightarrow>
   load_fields s b i (length vs) = Some vs"
proof (induction vs arbitrary: i)
  case (Cons v vs)
  have "h_mem s (b + 4 * i) = Some v" using Cons.prems[of 0] by simp
  moreover have "load_fields s b (i + 1) (length vs) = Some vs"
    using Cons.prems[of "Suc j" for j] by (intro Cons.IH) (simp add: algebra_simps)
  ultimately show ?case by (simp add: Field_get_def load_def Field_addr_def)
qed simp

lemma load_fields_nth_iff:
  "load_fields s b i n = Some vs \<Longrightarrow>
   length vs = n \<and> (\<forall>j < n. h_mem s (b + 4 * (i + word_of_nat j)) = Some (vs ! j))"
proof (induction n arbitrary: i vs)
  case (Suc n)
  then obtain v vs' where v: "h_mem s (b + 4 * i) = Some v" "load_fields s b (i + 1) n = Some vs'" "vs = v # vs'"
    by (auto simp: Field_get_def load_def Field_addr_def split: bind_splits)
  from Suc.IH[OF v(2)] v show ?case by (auto simp: less_Suc_eq_0_disj algebra_simps)
qed simp

lemma restart_correct:
  assumes c: "closure_block (h_mem s) (v_env s) c e args" and k: "length args < 4194300"
  shows "exec_instr rt (Clo RESTART) s =
    Some (Next (s\<lparr>v_sp := args @ v_sp s, v_env := e, v_extra_args := v_extra_args s + word_of_nat (length args)\<rparr>))"
proof -
  let ?n = "word_of_nat (length args + 2) :: u32"
  have u: "unat ?n = length args + 2" using k by (intro unat_word32) simp
  have "Wosize_hd (Make_header ?n Closure_tag Black) = ?n"
    by (rule Make_header_parts(1)) (use k u in \<open>simp_all only: u, simp_all add: Closure_tag_def\<close>)
  then have w: "Wosize_val s (v_env s) = Some ?n"
    using c by (simp add: closure_block_def Wosize_val_def Hd_val_def load_def)
  have n: "?n - 2 = word_of_nat (length args)" by simp
  have ua: "unat (word_of_nat (length args) :: u32) = length args" using k by (simp add: unat_of_nat)
  then have si: "\<not> sint (word_of_nat (length args) :: u32) < 0"
    using sint32_small[of "word_of_nat (length args)"] k by simp
  have "load_fields s (v_env s) 2 (length args) = Some args"
    using c by (intro load_fields_nth) (simp add: closure_block_def algebra_simps)
  moreover have "pushes args s = Some (s\<lparr>v_sp := args @ v_sp s\<rparr>)" by simp
  moreover have "Field_get s (v_env s) 1 = Some e"
    using c by (simp add: closure_block_def Field_get_def load_def Field_addr_def)
  ultimately show ?thesis using w n ua si
    by (simp add: Field_get_def load_def)
qed

lemma grab_correct:
  fixes k r :: nat
  assumes code: "at_code rt s (word_of_nat r)" and kr: "k < r" "r < 4194000"
    and x: "v_extra_args s = word_of_nat k"
    and sp: "v_sp s = args @ [rpc, renv, rx] @ st" "length args = k + 1"
    and b: "b = young_ptr s - 4 * word_of_nat (k + 4) + 4"
    and young: "young_limit s \<le> b - 4" and mp: "mapped (h_mem s) (b - 4) 0 (k + 4)"
  shows "\<exists>s1. exec_instr rt (Clo GRAB) s = Some (Next s1) \<and> v_accu s1 = b \<and> v_sp s1 = st
     \<and> v_pc s1 = rpc \<and> v_env s1 = renv \<and> v_extra_args s1 = Long_val rx
     \<and> closure_block (h_mem s1) b (v_pc s - 8) (v_env s) args"
proof -
  let ?w = "word_of_nat (k + 3) :: u32"
  let ?m1 = "(h_mem s)(b - 4 \<mapsto> Make_header ?w Closure_tag Black)"
  let ?s0 = "skip s"
  let ?m2 = "?m1(b + 4 \<mapsto> v_env s)"
  have d: "sint (word_of_nat r :: u32) = int r" "sint (word_of_nat k :: u32) = int k"
    using sint32_small[of "word_of_nat r"] sint32_small[of "word_of_nat k"] kr by (simp_all add: unat_word32)
  have bh: "Bhsize_wosize ?w = 4 * word_of_nat (k + 4)"
    by (simp add: Bhsize_wosize_def Bsize_wsize_def Whsize_wosize_def)
  have mapd: "h_mem s (b - 4 + 4 * word_of_nat j) \<noteq> None" if "j < k + 4" for j
    using mp that by (auto simp: mapped_def)
  have al: "alloc_block rt ?w Closure_tag ?s0 =
      Some (b, ?s0\<lparr>young_ptr := b - 4, h_mem := ?m1\<rparr>)"
    unfolding alloc_block_def
    by (subst Alloc_small_Some[of b ?s0 ?w]) (use young b bh mapd[of 0] in \<open>simp_all add: skip_def\<close>)
  have st1: "store (Field_addr b 1) (v_env s) (?s0\<lparr>young_ptr := b - 4, h_mem := ?m1\<rparr>)
      = Some (?s0\<lparr>young_ptr := b - 4, h_mem := ?m2\<rparr>)"
    using mapd[of 2] by (simp add: store_def Field_addr_def add.commute)
  have tk: "sp_take (word_of_nat (k + 1)) (?s0\<lparr>young_ptr := b - 4, h_mem := ?m2\<rparr>)
      = Some (args, ?s0\<lparr>young_ptr := b - 4, h_mem := ?m2, v_sp := [rpc, renv, rx] @ st\<rparr>)"
    using sp_take_Some[of "k + 1"] sp kr by (simp add: skip_def)
  let ?s3 = "?s0\<lparr>young_ptr := b - 4, h_mem := ?m2, v_sp := [rpc, renv, rx] @ st\<rparr>"
  have "mapped ?m2 b 2 (length args)"
    using mapd[of "j + 3" for j] sp(2) by (auto simp: mapped_def algebra_simps)
  then obtain m3 where m3: "store_fields b 2 args ?s3 = Some (?s3\<lparr>h_mem := m3\<rparr>)"
    "load_fields (?s3\<lparr>h_mem := m3\<rparr>) b 2 (length args) = Some args"
    "\<And>a. \<forall>j < length args. a \<noteq> b + 4 * (2 + word_of_nat j) \<Longrightarrow> m3 a = ?m2 a" "dom m3 = dom ?m2"
    using load_store_fields[of ?s3 b 2 args] sp(2) kr by auto
  let ?s4 = "?s3\<lparr>h_mem := m3(b \<mapsto> v_pc s - 8)\<rparr>"
  have "m3 b \<noteq> None" using mapd[of 1] m3(4) by (auto simp: dom_def)
  then have st4: "store (Field_addr b 0) (v_pc s + 4 - 12) (?s3\<lparr>h_mem := m3\<rparr>) = Some ?s4"
    by (simp add: store_def Field_addr_def)
  have pf: "pop_frame (set_accu b ?s4) =
      Some ((set_accu b ?s4)\<lparr>v_sp := st, v_pc := rpc, v_env := renv, v_extra_args := Long_val rx\<rparr>)"
    by (rule pop_frame_Some) (simp add: set_accu_def)
  have w: "1 + word_of_nat k + 2 = ?w" "1 + word_of_nat k = (word_of_nat (k + 1) :: u32)" by simp_all
  let ?s5 = "(set_accu b ?s4)\<lparr>v_sp := st, v_pc := rpc, v_env := renv, v_extra_args := Long_val rx\<rparr>"
  have "exec_instr rt (Clo GRAB) s = Some (Next ?s5)"
    using fetch_Some[OF code] al st1 tk m3(1) st4 pf x d kr(1) w
    by (simp add: skip_def del: of_nat_add of_nat_Suc)
  moreover have "closure_block (h_mem ?s5) b (v_pc s - 8) (v_env s) args"
  proof -
    have f: "m3 a = ?m2 a" if "\<And>j. j < length args \<Longrightarrow> a \<noteq> b + 4 * word_of_nat (j + 2)" for a
      using m3(3)[of a] that by (simp add: algebra_simps)
    have "m3 (b - 4) = ?m2 (b - 4)" by (rule f, rule header_distinct) (use sp(2) kr in simp)
    moreover have "m3 (b + 4) = ?m2 (b + 4)"
    proof (rule f)
      fix j assume "j < length args"
      then show "b + 4 \<noteq> b + 4 * word_of_nat (j + 2)" using field_distinct[of 1 "j + 2" b] sp(2) kr by simp
    qed
    moreover have "b - 4 \<noteq> b + 4" "b - 4 \<noteq> b"
      using header_distinct[of 1 b] header_distinct[of 0 b] by simp_all
    moreover have "b + 4 * word_of_nat (j + 2) \<noteq> b" if "j < length args" for j
      using field_distinct[of "j + 2" 0 b] that sp(2) kr by simp
    moreover have "m3 (b + 4 * word_of_nat (j + 2)) = Some (args ! j)" if "j < length args" for j
      using load_fields_nth_iff[OF m3(2)] that by (simp add: algebra_simps)
    ultimately show ?thesis using sp(2)
      by (simp add: closure_block_def set_accu_def add.commute)
  qed
  ultimately show ?thesis by (intro exI[of _ ?s5]) (simp add: set_accu_def)
qed


text \<open>The code at \<open>p\<close> is the instruction \<open>i\<close>, or the instruction \<open>i\<close> with the operand \<open>w\<close>.\<close>

definition instr_at :: "runtime \<Rightarrow> u32 \<Rightarrow> instr \<Rightarrow> bool" where
  "instr_at rt p i \<longleftrightarrow> Option.bind (rt_code rt p) decode = Some i"

definition instr_arg_at :: "runtime \<Rightarrow> u32 \<Rightarrow> instr \<Rightarrow> u32 \<Rightarrow> bool" where
  "instr_arg_at rt p i w \<longleftrightarrow> instr_at rt p i \<and> rt_code rt (p + 4) = Some w"

lemma step_instr:
  assumes "instr_at rt (v_pc s) i" "i \<noteq> EVENT" "i \<noteq> BREAK"
  shows "step rt s = exec_instr rt i (skip s)"
proof -
  from assms(1) obtain w where "rt_code rt (v_pc s) = Some w" "decode w = Some i"
    by (auto simp: instr_at_def split: bind_splits)
  then show ?thesis using assms(2,3) by (simp add: step_def dispatch_def fetch_def skip_def)
qed

lemma run_step: "step rt s = Some (Next s') \<Longrightarrow> run rt (Suc n) s = run rt n s'"
  by simp

lemma step_arg:
  "instr_arg_at rt (v_pc s) i w \<Longrightarrow> i \<noteq> EVENT \<Longrightarrow> i \<noteq> BREAK \<Longrightarrow>
   step rt s = exec_instr rt i (skip s) \<and> at_code rt (skip s) w"
  using step_instr[of rt s i] by (simp add: instr_arg_at_def at_code_def skip_def)

text \<open>\<open>APPLY n\<close> enters the closure in the accumulator when the stack needs no growth and no signal waits.\<close>

lemma step_apply:
  assumes "instr_arg_at rt (v_pc s) (Cal APPLY) (word_of_nat n)" "Field_get s (v_accu s) 0 = Some c" "calm 0 s"
  shows "step rt s = Some (Next (s\<lparr>v_pc := c, v_env := v_accu s, v_extra_args := word_of_nat n - 1\<rparr>))"
proof -
  have s: "step rt s = exec_instr rt (Cal APPLY) (skip s)" "at_code rt (skip s) (word_of_nat n)"
    using step_arg[OF assms(1)] by simp_all
  have "check_stacks rt (s\<lparr>v_pc := c, v_env := v_accu s, v_extra_args := word_of_nat n - 1\<rparr>)
      = Some (Next (s\<lparr>v_pc := c, v_env := v_accu s, v_extra_args := word_of_nat n - 1\<rparr>))"
    using assms(3) by (intro check_stacks_idle) (simp_all add: calm_def)
  then show ?thesis using s fetch_Some[OF s(2)] assms(2)
    by (simp add: enter_def skip_def Field_get_def load_def)
qed

text \<open>\<open>GRAB r\<close> with enough arguments.\<close>

lemma step_grab_enough:
  assumes "instr_arg_at rt (v_pc s) (Clo GRAB) (word_of_nat r)" "v_extra_args s = word_of_nat x"
    "r \<le> x" "x < 2147483648"
  shows "step rt s = Some (Next (s\<lparr>v_pc := v_pc s + 8, v_extra_args := word_of_nat (x - r)\<rparr>))"
proof -
  have s: "step rt s = exec_instr rt (Clo GRAB) (skip s)" "at_code rt (skip s) (word_of_nat r)"
    using step_arg[OF assms(1)] by simp_all
  have "sint (word_of_nat r :: u32) = int r" "sint (word_of_nat x :: u32) = int x"
    using sint32_small[of "word_of_nat r"] sint32_small[of "word_of_nat x"] assms(3,4) by (simp_all add: unat_word32)
  moreover have "word_of_nat x - word_of_nat r = (word_of_nat (x - r) :: u32)" using assms(3) by (simp add: of_nat_diff)
  ultimately show ?thesis using s fetch_Some[OF s(2)] assms by (simp add: skip_def)
qed

text \<open>Entering a partial application: \<open>APPLY\<close>, \<open>RESTART\<close> and \<open>GRAB\<close>.\<close>

lemma enter_partial:
  assumes code: "instr_at rt (g - 4) (Clo RESTART)" "instr_arg_at rt g (Clo GRAB) (word_of_nat r)"
    "instr_arg_at rt (v_pc s) (Cal APPLY) (word_of_nat n2)"
    and n: "length args1 = n1" "0 < n2" "r < n1 + n2" "n1 + n2 < 4194000"
    and b: "closure_block (h_mem s) (v_accu s) (g - 4) f args1" and c: "calm 0 s"
  shows "run rt 3 s = Some (Next (s\<lparr>v_pc := g + 8, v_env := f, v_sp := args1 @ v_sp s,
           v_extra_args := word_of_nat (n1 + n2 - 1 - r)\<rparr>))"
proof -
  let ?s1 = "s\<lparr>v_pc := g - 4, v_env := v_accu s, v_extra_args := word_of_nat n2 - 1\<rparr>"
  let ?s2 = "s\<lparr>v_pc := g, v_env := f, v_sp := args1 @ v_sp s, v_extra_args := word_of_nat (n1 + n2 - 1)\<rparr>"
  have "Field_get s (v_accu s) 0 = Some (g - 4)"
    using b by (simp add: closure_block_def Field_get_def load_def Field_addr_def)
  then have 1: "step rt s = Some (Next ?s1)" by (rule step_apply[OF code(3) _ c])
  have w: "word_of_nat n2 - 1 + word_of_nat n1 = (word_of_nat (n1 + n2 - 1) :: u32)"
    using n(2) by (simp add: of_nat_diff)
  have "step rt ?s1 = exec_instr rt (Clo RESTART) (skip ?s1)"
    using code(1) by (intro step_instr) simp_all
  also have "\<dots> = Some (Next ((skip ?s1)\<lparr>v_sp := args1 @ v_sp (skip ?s1), v_env := f,
      v_extra_args := v_extra_args (skip ?s1) + word_of_nat (length args1)\<rparr>))"
    by (rule restart_correct[of _ "g - 4"]) (use b n in \<open>simp_all add: skip_def\<close>)
  also have "\<dots> = Some (Next ?s2)" using w n(1) by (simp add: skip_def)
  finally have 2: "step rt ?s1 = Some (Next ?s2)" .
  have 3: "step rt ?s2 = Some (Next (?s2\<lparr>v_pc := g + 8, v_extra_args := word_of_nat (n1 + n2 - 1 - r)\<rparr>))"
    using step_grab_enough[of rt ?s2 r "n1 + n2 - 1"] code(2) n by simp
  show ?thesis using 1 2 3 by (simp add: numeral_3_eq_3)
qed

text \<open>A call with all the arguments: \<open>APPLY\<close> and \<open>GRAB\<close>.\<close>

lemma enter_full:
  assumes code: "instr_arg_at rt g (Clo GRAB) (word_of_nat r)" "instr_arg_at rt (v_pc s) (Cal APPLY) (word_of_nat n)"
    and n: "r < n" "n < 4194000" and f: "Field_get s (v_accu s) 0 = Some g" and c: "calm 0 s"
  shows "run rt 2 s = Some (Next (s\<lparr>v_pc := g + 8, v_env := v_accu s, v_extra_args := word_of_nat (n - 1 - r)\<rparr>))"
proof -
  let ?s1 = "s\<lparr>v_pc := g, v_env := v_accu s, v_extra_args := word_of_nat (n - 1)\<rparr>"
  have "word_of_nat n - 1 = (word_of_nat (n - 1) :: u32)" using n(1) by (simp add: of_nat_diff)
  then have 1: "step rt s = Some (Next ?s1)" using step_apply[OF code(2) f c] by simp
  have "step rt ?s1 = Some (Next (?s1\<lparr>v_pc := g + 8, v_extra_args := word_of_nat (n - 1 - r)\<rparr>))"
    using step_grab_enough[of rt ?s1 r "n - 1"] code(1) n by simp
  with 1 show ?thesis by (simp add: numeral_2_eq_2)
qed

text \<open>A call with too few arguments: \<open>APPLY\<close>, and \<open>GRAB\<close> returns the partial application.\<close>

lemma call_partial:
  assumes code: "instr_arg_at rt g (Clo GRAB) (word_of_nat r)" "instr_arg_at rt (v_pc s) (Cal APPLY) (word_of_nat n1)"
    and n: "length args1 = n1" "0 < n1" "n1 \<le> r" "r < 4194000"
    and f: "v_accu s = f" "Field_get s f 0 = Some g" and sp: "v_sp s = args1 @ [rpc, renv, rx] @ st" and c: "calm 0 s"
    and b: "b = young_ptr s - 4 * word_of_nat (n1 + 3) + 4" "young_limit s \<le> b - 4"
      "mapped (h_mem s) (b - 4) 0 (n1 + 3)"
  shows "\<exists>s1. run rt 2 s = Some (Next s1) \<and> v_accu s1 = b \<and> v_sp s1 = st \<and> v_pc s1 = rpc \<and> v_env s1 = renv
     \<and> v_extra_args s1 = Long_val rx \<and> closure_block (h_mem s1) b (g - 4) f args1"
proof -
  let ?s1 = "s\<lparr>v_pc := g, v_env := f, v_extra_args := word_of_nat (n1 - 1)\<rparr>"
  have "word_of_nat n1 - 1 = (word_of_nat (n1 - 1) :: u32)" using n(2) by (simp add: of_nat_diff)
  then have 1: "step rt s = Some (Next ?s1)" using step_apply[OF code(2) _ c] f by simp
  have k: "n1 - 1 + 4 = n1 + 3" "n1 - 1 + 1 = n1" using n(2) by simp_all
  have 2: "step rt ?s1 = exec_instr rt (Clo GRAB) (skip ?s1)" "at_code rt (skip ?s1) (word_of_nat r)"
    using step_arg[of rt ?s1] code(1) by simp_all
  have "\<exists>s1. exec_instr rt (Clo GRAB) (skip ?s1) = Some (Next s1) \<and> v_accu s1 = b \<and> v_sp s1 = st
     \<and> v_pc s1 = rpc \<and> v_env s1 = renv \<and> v_extra_args s1 = Long_val rx
     \<and> closure_block (h_mem s1) b (v_pc (skip ?s1) - 8) (v_env (skip ?s1)) args1"
    by (rule grab_correct[OF 2(2), of "n1 - 1"]) (use n sp b k in \<open>simp_all add: skip_def add.commute[of 3 n1] del: of_nat_add\<close>)
  then show ?thesis using 1 2(1) by (auto simp: numeral_2_eq_2 skip_def simp del: exec_instr.simps)
qed

lemma closure_block_moved:
  assumes "closure_block m b c e args"
    and "\<forall>j < length args + 3. m' (b' - 4 + 4 * word_of_nat j) = m (b - 4 + 4 * word_of_nat j)"
  shows "closure_block m' b' c e args"
proof -
  have "m' (b' - 4) = m (b - 4)" "m' b' = m b" "m' (b' + 4) = m (b + 4)"
    using assms(2)[rule_format, of 0] assms(2)[rule_format, of 1] assms(2)[rule_format, of 2]
    by (simp_all add: add.commute)
  moreover have "m' (b' + 4 * word_of_nat (j + 2)) = m (b + 4 * word_of_nat (j + 2))" if "j < length args" for j
    using assms(2)[rule_format, of "j + 3"] that by (simp add: algebra_simps)
  ultimately show ?thesis using assms(1) by (simp add: closure_block_def del: of_nat_add)
qed

text \<open>
  C9. Partial application. The function \<open>f\<close> has its code at \<open>g\<close>, which begins with \<open>GRAB r\<close> after a
  \<open>RESTART\<close>: it takes \<open>r + 1\<close> arguments. Applied to \<open>n1 \<le> r\<close> arguments it returns to the frame below
  them, with a closure \<open>b\<close> in the accumulator. Later, in any state whose heap still has \<open>f\<close> and a
  copy \<open>b'\<close> of that closure, applying \<open>b'\<close> to \<open>n2\<close> further arguments reaches, when \<open>n1 + n2\<close> arguments
  are enough, the very state that applying \<open>f\<close> to all the \<open>n1 + n2\<close> arguments reaches: the body of the
  function, with \<open>f\<close> as environment, all the arguments on the stack and \<open>n1 + n2 - 1 - r\<close> extra
  arguments. Only the accumulator still holds the closure that was applied. The calls need no
  growth of the stack and find no pending signal (\<open>calm\<close>), and the young generation has room for
  the closure.
\<close>

theorem partial_application:
  fixes n1 n2 r :: nat
  assumes code: "instr_at rt (g - 4) (Clo RESTART)" "instr_arg_at rt g (Clo GRAB) (word_of_nat r)"
    and arity: "0 < n1" "n1 \<le> r" "r < n1 + n2" "n1 + n2 < 4194000"
    and call: "instr_arg_at rt (v_pc s) (Cal APPLY) (word_of_nat n1)" "v_accu s = f" "Field_get s f 0 = Some g"
      "v_sp s = args1 @ [rpc, renv, rx] @ st" "length args1 = n1" "calm 0 s"
    and young: "b = young_ptr s - 4 * word_of_nat (n1 + 3) + 4" "young_limit s \<le> b - 4"
      "mapped (h_mem s) (b - 4) 0 (n1 + 3)"
  shows "\<exists>s1. run rt 2 s = Some (Next s1) \<and> v_accu s1 = b \<and> v_sp s1 = st \<and> v_pc s1 = rpc \<and> v_env s1 = renv
     \<and> v_extra_args s1 = Long_val rx
     \<and> (\<forall>t b' p1 p2 args2 st'. instr_arg_at rt p1 (Cal APPLY) (word_of_nat n2)
          \<and> instr_arg_at rt p2 (Cal APPLY) (word_of_nat (n1 + n2))
          \<and> length args2 = n2 \<and> calm (n1 + n2) (t\<lparr>v_sp := st'\<rparr>) \<and> Field_get t f 0 = Some g
          \<and> (\<forall>j < n1 + 3. h_mem t (b' - 4 + 4 * word_of_nat j) = h_mem s1 (b - 4 + 4 * word_of_nat j)) \<longrightarrow>
        (\<exists>u. run rt 2 (t\<lparr>v_pc := p2, v_accu := f, v_sp := args1 @ args2 @ st'\<rparr>) = Some (Next u)
           \<and> run rt 3 (t\<lparr>v_pc := p1, v_accu := b', v_sp := args2 @ st'\<rparr>) = Some (Next (u\<lparr>v_accu := b'\<rparr>))
           \<and> v_pc u = g + 8 \<and> v_env u = f \<and> v_sp u = args1 @ args2 @ st'
           \<and> v_extra_args u = word_of_nat (n1 + n2 - 1 - r)))"
proof -
  obtain s1 where s1: "run rt 2 s = Some (Next s1)" "v_accu s1 = b" "v_sp s1 = st" "v_pc s1 = rpc" "v_env s1 = renv"
     "v_extra_args s1 = Long_val rx" and c: "closure_block (h_mem s1) b (g - 4) f args1"
    using call_partial[OF code(2) call(1,5) arity(1,2) _ call(2,3,4,6) young] arity by auto
  have "\<exists>u. run rt 2 (t\<lparr>v_pc := p2, v_accu := f, v_sp := args1 @ args2 @ st'\<rparr>) = Some (Next u)
           \<and> run rt 3 (t\<lparr>v_pc := p1, v_accu := b', v_sp := args2 @ st'\<rparr>) = Some (Next (u\<lparr>v_accu := b'\<rparr>))
           \<and> v_pc u = g + 8 \<and> v_env u = f \<and> v_sp u = args1 @ args2 @ st'
           \<and> v_extra_args u = word_of_nat (n1 + n2 - 1 - r)"
    if p: "instr_arg_at rt p1 (Cal APPLY) (word_of_nat n2)" "instr_arg_at rt p2 (Cal APPLY) (word_of_nat (n1 + n2))"
      and a: "length args2 = n2" "calm (n1 + n2) (t\<lparr>v_sp := st'\<rparr>)" "Field_get t f 0 = Some g"
      and m: "\<forall>j < n1 + 3. h_mem t (b' - 4 + 4 * word_of_nat j) = h_mem s1 (b - 4 + 4 * word_of_nat j)"
    for t b' p1 p2 args2 st'
  proof -
    let ?x = "word_of_nat (n1 + n2 - 1 - r) :: u32"
    let ?full = "t\<lparr>v_pc := p2, v_accu := f, v_sp := args1 @ args2 @ st'\<rparr>"
    let ?part = "t\<lparr>v_pc := p1, v_accu := b', v_sp := args2 @ st'\<rparr>"
    have "closure_block (h_mem ?part) (v_accu ?part) (g - 4) f args1"
      using closure_block_moved[OF c, of "h_mem t" b'] m call(5) by simp
    moreover have "calm 0 ?part" "calm 0 ?full" "Field_get ?full (v_accu ?full) 0 = Some g"
      using a call(5) by (simp_all add: calm_def Field_get_def load_def)
    ultimately have
      "run rt 3 ?part = Some (Next (?part\<lparr>v_pc := g + 8, v_env := f, v_sp := args1 @ v_sp ?part, v_extra_args := ?x\<rparr>))"
      "run rt 2 ?full = Some (Next (?full\<lparr>v_pc := g + 8, v_env := f, v_extra_args := ?x\<rparr>))"
      using enter_partial[OF code, of ?part n2 args1 n1 f] enter_full[OF code(2), of ?full "n1 + n2"]
        p arity call(5) by simp_all
    then show ?thesis by (intro exI[of _ "?full\<lparr>v_pc := g + 8, v_env := f, v_extra_args := ?x\<rparr>"]) simp
  qed
  then show ?thesis using s1 by blast
qed

text \<open>
  A function of two arguments at \<open>0x1c\<close>, called with one argument at 0, with the other at 8 and with
  both at 16.
\<close>

definition curried_code :: "u32 list" where
  "curried_code = [90, 1, 90, 1, 90, 2, 116, 117, 1]"

theorem partial_application_witness:
  "\<exists>s1 u. run (rt0 curried_code) 2 (vm0\<lparr>h_mem := (h_mem vm0)(0x204 \<mapsto> 0x1c), v_accu := 0x204,
        v_sp := [11, 0x40, 0x104, 1]\<rparr>) = Some (Next s1) \<and> v_accu s1 = 0x1f4 \<and> v_pc s1 = 0x40
     \<and> run (rt0 curried_code) 2 (s1\<lparr>v_pc := 16, v_accu := 0x204, v_sp := [11, 13, 0x44, 0x104, 1]\<rparr>) = Some (Next u)
     \<and> run (rt0 curried_code) 3 (s1\<lparr>v_pc := 8, v_accu := 0x1f4, v_sp := [13, 0x44, 0x104, 1]\<rparr>)
        = Some (Next (u\<lparr>v_accu := 0x1f4\<rparr>))
     \<and> v_pc u = 0x24 \<and> v_env u = 0x204 \<and> v_sp u = [11, 13, 0x44, 0x104, 1] \<and> v_extra_args u = 0"
proof -
  let ?rt = "rt0 curried_code"
  let ?s = "vm0\<lparr>h_mem := (h_mem vm0)(0x204 \<mapsto> 0x1c), v_accu := 0x204, v_sp := [11, 0x40, 0x104, 1]\<rparr>"
  have code: "instr_at ?rt (0x1c - 4) (Clo RESTART)" "instr_arg_at ?rt 0x1c (Clo GRAB) (word_of_nat 1)"
    "instr_arg_at ?rt 0 (Cal APPLY) (word_of_nat 1)" "instr_arg_at ?rt 8 (Cal APPLY) (word_of_nat 1)"
    "instr_arg_at ?rt 16 (Cal APPLY) (word_of_nat (1 + 1))"
    by code_simp+
  have young: "mapped (h_mem ?s) (0x1f4 - 4) 0 (1 + 3)" by code_simp
  have pre: "v_pc ?s = 0" "Field_get ?s 0x204 0 = Some 0x1c" "0x1f4 = young_ptr ?s - 4 * word_of_nat (1 + 3) + 4"
      "young_limit ?s \<le> 0x1f4 - 4" "calm 0 ?s"
    by code_simp+
  obtain s1 where s1: "run ?rt 2 ?s = Some (Next s1)" "v_accu s1 = 0x1f4" "v_pc s1 = 0x40"
    and later: "\<forall>t b' p1 p2 args2 st'. instr_arg_at ?rt p1 (Cal APPLY) (word_of_nat 1)
          \<and> instr_arg_at ?rt p2 (Cal APPLY) (word_of_nat (1 + 1))
          \<and> length args2 = 1 \<and> calm (1 + 1) (t\<lparr>v_sp := st'\<rparr>) \<and> Field_get t 0x204 0 = Some 0x1c
          \<and> (\<forall>j < 1 + 3. h_mem t (b' - 4 + 4 * word_of_nat j) = h_mem s1 (0x1f4 - 4 + 4 * word_of_nat j)) \<longrightarrow>
        (\<exists>u. run ?rt 2 (t\<lparr>v_pc := p2, v_accu := 0x204, v_sp := [11] @ args2 @ st'\<rparr>) = Some (Next u)
           \<and> run ?rt 3 (t\<lparr>v_pc := p1, v_accu := b', v_sp := args2 @ st'\<rparr>) = Some (Next (u\<lparr>v_accu := b'\<rparr>))
           \<and> v_pc u = 0x1c + 8 \<and> v_env u = 0x204 \<and> v_sp u = [11] @ args2 @ st'
           \<and> v_extra_args u = word_of_nat (1 + 1 - 1 - 1))"
    using partial_application[OF code(1,2) _ _ _ _ _ _ pre(2) _ _ pre(5) pre(3,4) young, of 1 "[11]" "0x40" "0x104" 1 "[]"]
      code(3) pre(1) by auto
  have "(case run ?rt 2 ?s of Some (Next u) \<Rightarrow>
      Field_get u 0x204 0 = Some 0x1c \<and> calm (1 + 1) (u\<lparr>v_sp := [0x44, 0x104, 1]\<rparr>) | _ \<Rightarrow> False)"
    by code_simp
  then have t: "Field_get s1 0x204 0 = Some 0x1c" "calm (1 + 1) (s1\<lparr>v_sp := [0x44, 0x104, 1]\<rparr>)"
    using s1(1) by simp_all
  obtain u where "run ?rt 2 (s1\<lparr>v_pc := 16, v_accu := 0x204, v_sp := [11] @ [13] @ [0x44, 0x104, 1]\<rparr>) = Some (Next u)"
     "run ?rt 3 (s1\<lparr>v_pc := 8, v_accu := 0x1f4, v_sp := [13] @ [0x44, 0x104, 1]\<rparr>) = Some (Next (u\<lparr>v_accu := 0x1f4\<rparr>))"
     "v_pc u = 0x1c + 8" "v_env u = 0x204" "v_sp u = [11] @ [13] @ [0x44, 0x104, 1]"
     "v_extra_args u = word_of_nat (1 + 1 - 1 - 1)"
    using later[rule_format, of 8 16 "[13]" "[0x44, 0x104, 1]" s1 "0x1f4"] t code(4,5) by auto
  then show ?thesis using s1 by (intro exI[of _ s1] exI[of _ u]) (simp del: run.simps)
qed

end
