(* ===== verification/Md5.thy ===== *)
theory Md5
  imports Mlvalues
begin

text \<open>
  The MD5 message digest of the runtime (\<open>Byterun/md5.c\<close>): the context with its bit counter and its
  partial block, the incremental \<open>MD5Update\<close>, the padding in \<open>MD5Final\<close> and the 64 steps of
  \<open>MD5Transform\<close>; and the digest of a whole message, padded and cut into blocks, which the
  incremental routines are shown to compute. The target is little-endian, so \<open>byteReverse\<close> does
  nothing.
\<close>

section \<open>The transformation of a block\<close>

type_synonym md5buf = "u32 \<times> u32 \<times> u32 \<times> u32"

definition F1 :: "u32 \<Rightarrow> u32 \<Rightarrow> u32 \<Rightarrow> u32" where "F1 x y z = z XOR (x AND (y XOR z))"
definition F2 :: "u32 \<Rightarrow> u32 \<Rightarrow> u32 \<Rightarrow> u32" where "F2 x y z = F1 z x y"
definition F3 :: "u32 \<Rightarrow> u32 \<Rightarrow> u32 \<Rightarrow> u32" where "F3 x y z = x XOR y XOR z"
definition F4 :: "u32 \<Rightarrow> u32 \<Rightarrow> u32 \<Rightarrow> u32" where "F4 x y z = y XOR (x OR NOT z)"

text \<open>
  One step updates the first register from the other three; the next one works on the registers
  rotated by one place.
\<close>

definition MD5STEP :: "u32 list \<Rightarrow> (u32 \<Rightarrow> u32 \<Rightarrow> u32 \<Rightarrow> u32) \<times> nat \<times> u32 \<times> nat \<Rightarrow> md5buf \<Rightarrow> md5buf" where
  "MD5STEP inw = (\<lambda>(f, k, t, s) (w, x, y, z).
     (let w = w + (f x y z + (inw ! k + t));
          w = push_bit s w OR drop_bit (32 - s) w;
          w = w + x
      in (z, w, x, y)))"

definition md5_steps :: "((u32 \<Rightarrow> u32 \<Rightarrow> u32 \<Rightarrow> u32) \<times> nat \<times> u32 \<times> nat) list" where
  "md5_steps =
    [
     (F1, 0, 0xd76aa478, 7), (F1, 1, 0xe8c7b756, 12), (F1, 2, 0x242070db, 17), (F1, 3, 0xc1bdceee, 22),
     (F1, 4, 0xf57c0faf, 7), (F1, 5, 0x4787c62a, 12), (F1, 6, 0xa8304613, 17), (F1, 7, 0xfd469501, 22),
     (F1, 8, 0x698098d8, 7), (F1, 9, 0x8b44f7af, 12), (F1, 10, 0xffff5bb1, 17), (F1, 11, 0x895cd7be, 22),
     (F1, 12, 0x6b901122, 7), (F1, 13, 0xfd987193, 12), (F1, 14, 0xa679438e, 17), (F1, 15, 0x49b40821, 22),
     (F2, 1, 0xf61e2562, 5), (F2, 6, 0xc040b340, 9), (F2, 11, 0x265e5a51, 14), (F2, 0, 0xe9b6c7aa, 20),
     (F2, 5, 0xd62f105d, 5), (F2, 10, 0x02441453, 9), (F2, 15, 0xd8a1e681, 14), (F2, 4, 0xe7d3fbc8, 20),
     (F2, 9, 0x21e1cde6, 5), (F2, 14, 0xc33707d6, 9), (F2, 3, 0xf4d50d87, 14), (F2, 8, 0x455a14ed, 20),
     (F2, 13, 0xa9e3e905, 5), (F2, 2, 0xfcefa3f8, 9), (F2, 7, 0x676f02d9, 14), (F2, 12, 0x8d2a4c8a, 20),
     (F3, 5, 0xfffa3942, 4), (F3, 8, 0x8771f681, 11), (F3, 11, 0x6d9d6122, 16), (F3, 14, 0xfde5380c, 23),
     (F3, 1, 0xa4beea44, 4), (F3, 4, 0x4bdecfa9, 11), (F3, 7, 0xf6bb4b60, 16), (F3, 10, 0xbebfbc70, 23),
     (F3, 13, 0x289b7ec6, 4), (F3, 0, 0xeaa127fa, 11), (F3, 3, 0xd4ef3085, 16), (F3, 6, 0x04881d05, 23),
     (F3, 9, 0xd9d4d039, 4), (F3, 12, 0xe6db99e5, 11), (F3, 15, 0x1fa27cf8, 16), (F3, 2, 0xc4ac5665, 23),
     (F4, 0, 0xf4292244, 6), (F4, 7, 0x432aff97, 10), (F4, 14, 0xab9423a7, 15), (F4, 5, 0xfc93a039, 21),
     (F4, 12, 0x655b59c3, 6), (F4, 3, 0x8f0ccc92, 10), (F4, 10, 0xffeff47d, 15), (F4, 1, 0x85845dd1, 21),
     (F4, 8, 0x6fa87e4f, 6), (F4, 15, 0xfe2ce6e0, 10), (F4, 6, 0xa3014314, 15), (F4, 13, 0x4e0811a1, 21),
     (F4, 4, 0xf7537e82, 6), (F4, 11, 0xbd3af235, 10), (F4, 2, 0x2ad7d2bb, 15), (F4, 9, 0xeb86d391, 21)]"

definition MD5Transform :: "md5buf \<Rightarrow> u32 list \<Rightarrow> md5buf" where
  "MD5Transform = (\<lambda>(a0, b0, c0, d0) inw.
     (let (a, b, c, d) = fold (MD5STEP inw) md5_steps (a0, b0, c0, d0)
      in (a0 + a, b0 + b, c0 + c, d0 + d)))"

section \<open>The incremental digest\<close>

text \<open>A little-endian machine word as bytes, and a byte array read as an array of words.\<close>

definition le_bytes :: "u32 \<Rightarrow> u8 list" where
  "le_bytes w = [ucast w, ucast (drop_bit 8 w), ucast (drop_bit 16 w), ucast (drop_bit 24 w)]"

fun le_words :: "u8 list \<Rightarrow> u32 list" where
  "le_words (a # b # c # d # bs) =
    (ucast a OR push_bit 8 (ucast b) OR push_bit 16 (ucast c) OR push_bit 24 (ucast d)) # le_words bs"
| "le_words _ = []"

record MD5Context =
  md_buf :: md5buf
  md_bits0 :: u32
  md_bits1 :: u32
  md_in :: "u8 list"

definition MD5Init :: "u8 list \<Rightarrow> MD5Context" where
  "MD5Init inb = \<lparr>md_buf = (0x67452301, 0xefcdab89, 0x98badcfe, 0x10325476), md_bits0 = 0, md_bits1 = 0,
     md_in = inb\<rparr>"

definition memcpy :: "u8 list \<Rightarrow> nat \<Rightarrow> u8 list \<Rightarrow> u8 list" where
  "memcpy b at src = take at b @ src @ drop (at + length src) b"

definition count_bits :: "MD5Context \<Rightarrow> u32 \<Rightarrow> MD5Context" where
  "count_bits ctx len =
    (let t = md_bits0 ctx;
         b0 = t + push_bit 3 len;
         b1 = (if b0 < t then md_bits1 ctx + 1 else md_bits1 ctx)
     in ctx\<lparr>md_bits0 := b0, md_bits1 := b1 + drop_bit 29 len\<rparr>)"

fun update_blocks :: "MD5Context \<Rightarrow> u8 list \<Rightarrow> MD5Context" where
  "update_blocks ctx buf =
    (if 64 \<le> length buf then
       let inb = memcpy (md_in ctx) 0 (take 64 buf) in
       update_blocks (ctx\<lparr>md_in := inb, md_buf := MD5Transform (md_buf ctx) (le_words inb)\<rparr>) (drop 64 buf)
     else ctx\<lparr>md_in := memcpy (md_in ctx) 0 buf\<rparr>)"

declare update_blocks.simps [simp del]

definition MD5Update :: "MD5Context \<Rightarrow> u8 list \<Rightarrow> MD5Context" where
  "MD5Update ctx buf =
    (let t = unat (drop_bit 3 (md_bits0 ctx) AND 0x3f);
         ctx = count_bits ctx (word_of_nat (length buf))
     in if t \<noteq> 0 then
          let r = 64 - t in
          if length buf < r then ctx\<lparr>md_in := memcpy (md_in ctx) t buf\<rparr>
          else
            let inb = memcpy (md_in ctx) t (take r buf);
                ctx = ctx\<lparr>md_in := inb, md_buf := MD5Transform (md_buf ctx) (le_words inb)\<rparr>
            in update_blocks ctx (drop r buf)
        else update_blocks ctx buf)"

definition MD5Final :: "MD5Context \<Rightarrow> u8 list" where
  "MD5Final ctx =
    (let count = unat (drop_bit 3 (md_bits0 ctx) AND 0x3F);
         inb = (md_in ctx)[count := 0x80];
         p = count + 1;
         rest = 64 - 1 - count;
         (st, inb) =
           (if rest < 8 then
              (let inb = memcpy inb p (replicate rest 0)
               in (MD5Transform (md_buf ctx) (le_words inb), memcpy inb 0 (replicate 56 0)))
            else (md_buf ctx, memcpy inb p (replicate (rest - 8) 0)));
         inb = memcpy inb 56 (le_bytes (md_bits0 ctx));
         inb = memcpy inb 60 (le_bytes (md_bits1 ctx));
         (a, b, c, d) = MD5Transform st (le_words inb)
     in concat (map le_bytes [a, b, c, d]))"

section \<open>The digest of a message\<close>

fun md5_blocks :: "md5buf \<Rightarrow> u8 list \<Rightarrow> md5buf" where
  "md5_blocks st m = (if length m < 64 then st else md5_blocks (MD5Transform st (le_words (take 64 m))) (drop 64 m))"

declare md5_blocks.simps [simp del]

definition md5_pad :: "u8 list \<Rightarrow> u8 list" where
  "md5_pad m = m @ [0x80] @ replicate ((119 - length m mod 64) mod 64) 0
     @ (let n = word_of_nat (8 * length m) :: u64 in le_bytes (ucast n) @ le_bytes (ucast (drop_bit 32 n)))"

definition md5_start :: md5buf where
  "md5_start = (0x67452301, 0xefcdab89, 0x98badcfe, 0x10325476)"

definition md5_digest :: "u8 list \<Rightarrow> u8 list" where
  "md5_digest m =
    (let (a, b, c, d) = md5_blocks md5_start (md5_pad m)
     in concat (map le_bytes [a, b, c, d]))"

section \<open>The incremental routines compute the digest\<close>

lemma md5_blocks_append:
  "length m mod 64 = 0 \<Longrightarrow> md5_blocks st (m @ x) = md5_blocks (md5_blocks st m) x"
proof (induction st m rule: md5_blocks.induct)
  case (1 st m)
  show ?case
  proof (cases "length m < 64")
    case True
    then have "m = []" using 1(2) by simp
    then show ?thesis by (simp add: md5_blocks.simps[of st "[]"])
  next
    case False
    then have "length (drop 64 m) mod 64 = 0" using 1(2) by (simp add: le_mod_geq)
    from 1(1)[OF False this] show ?thesis using False
      by (simp add: md5_blocks.simps[of st m] md5_blocks.simps[of st "m @ x"])
  qed
qed

lemma md5_blocks_one: "length b = 64 \<Longrightarrow> md5_blocks st (b @ x) = md5_blocks (MD5Transform st (le_words b)) x"
  by (simp add: md5_blocks.simps[of st "b @ x"])

lemma md5_blocks_short: "length m < 64 \<Longrightarrow> md5_blocks st m = st"
  by (simp add: md5_blocks.simps)

text \<open>The context after a message: its counter, its full blocks, and its last partial block.\<close>

definition full :: "u8 list \<Rightarrow> nat" where "full m = 64 * (length m div 64)"

definition md5_rep :: "MD5Context \<Rightarrow> u8 list \<Rightarrow> bool" where
  "md5_rep ctx m \<longleftrightarrow> length (md_in ctx) = 64
     \<and> wcat (md_bits1 ctx) (md_bits0 ctx) = word_of_nat (8 * length m)
     \<and> md_buf ctx = md5_blocks md5_start m
     \<and> take (length m mod 64) (md_in ctx) = drop (full m) m"

lemma update_blocks_rep:
  assumes "length (md_in ctx) = 64"
  shows "update_blocks ctx buf =
    ctx\<lparr>md_buf := md5_blocks (md_buf ctx) buf, md_in := md_in (update_blocks ctx buf)\<rparr>
   \<and> length (md_in (update_blocks ctx buf)) = 64
   \<and> take (length buf mod 64) (md_in (update_blocks ctx buf)) = drop (full buf) buf"
  using assms
proof (induction ctx buf rule: update_blocks.induct)
  case (1 ctx buf)
  show ?case
  proof (cases "64 \<le> length buf")
    case True
    let ?inb = "memcpy (md_in ctx) 0 (take 64 buf)"
    let ?c = "ctx\<lparr>md_in := ?inb, md_buf := MD5Transform (md_buf ctx) (le_words ?inb)\<rparr>"
    have inb: "?inb = take 64 buf" using 1(2) True by (simp add: memcpy_def)
    have u: "update_blocks ctx buf = update_blocks ?c (drop 64 buf)"
      using True by (simp add: update_blocks.simps[of ctx buf] Let_def)
    have ih: "update_blocks ?c (drop 64 buf) = ?c\<lparr>md_buf := md5_blocks (md_buf ?c) (drop 64 buf),
        md_in := md_in (update_blocks ?c (drop 64 buf))\<rparr>"
      "length (md_in (update_blocks ?c (drop 64 buf))) = 64"
      "take (length (drop 64 buf) mod 64) (md_in (update_blocks ?c (drop 64 buf))) = drop (full (drop 64 buf)) (drop 64 buf)"
      using 1(1)[OF True refl] True by (simp_all add: inb)
    have f: "full buf = 64 + full (drop 64 buf)" "length buf mod 64 = (length buf - 64) mod 64"
      using True by (simp_all add: full_def le_div_geq le_mod_geq)
    have "md5_blocks (md_buf ctx) buf = md5_blocks (md_buf ?c) (drop 64 buf)"
      using True by (simp add: md5_blocks.simps[of "md_buf ctx" buf] inb)
    then show ?thesis using ih unfolding u by (simp add: f add.commute)
  next
    case False
    then show ?thesis using 1(2)
      by (simp add: update_blocks.simps[of ctx buf] md5_blocks_short memcpy_def full_def)
  qed
qed

lemma count_bits_wcat:
  assumes n: "wcat (md_bits1 ctx) (md_bits0 ctx) = word_of_nat (8 * n)" and k: "k < 4294967296"
  shows "wcat (md_bits1 (count_bits ctx (word_of_nat k))) (md_bits0 (count_bits ctx (word_of_nat k)))
     = word_of_nat (8 * (n + k))"
proof -
  let ?l = "word_of_nat k :: u32"
  have u: "unat ?l = k" using k by (rule unat_word32)
  have "unat (wcat (drop_bit 29 ?l) (push_bit 3 ?l)) = 8 * k"
  proof -
    have a: "unat (push_bit 3 ?l) = 8 * k mod 4294967296"
      by (simp add: push_bit_eq_mult unat_word_ariths u mult.commute)
    have b: "unat (drop_bit 29 ?l) = 8 * k div 4294967296"
      using unat_drop_bit32[of 29 ?l] u by (simp add: div_mult2_eq[symmetric])
    show ?thesis unfolding unat_wcat a b using div_mult_mod_eq[of "8 * k" 4294967296] by simp
  qed
  then have w: "wcat (drop_bit 29 ?l) (push_bit 3 ?l) = word_of_nat (8 * k)"
  proof -
    have "unat (word_of_nat (8 * k) :: u64) = 8 * k" by (subst unat_of_nat) (use k in simp)
    with \<open>unat (wcat (drop_bit 29 ?l) (push_bit 3 ?l)) = 8 * k\<close> show ?thesis
      by (simp only: word_unat_eq_iff)
  qed
  have "wcat (md_bits1 (count_bits ctx ?l)) (md_bits0 (count_bits ctx ?l))
      = wcat (md_bits1 ctx) (md_bits0 ctx) + wcat (drop_bit 29 ?l) (push_bit 3 ?l)"
    using wcat_add[of "md_bits0 ctx" "push_bit 3 ?l" "md_bits1 ctx" "drop_bit 29 ?l"]
    by (simp add: count_bits_def Let_def add.assoc add.commute[of 1] split: if_splits)
  then show ?thesis by (simp add: n w distrib_left)
qed

lemma mult_mod_div: "8 * n mod 4294967296 div 8 mod 64 = n mod (64::nat)"
proof -
  have "8 * n mod 4294967296 = 8 * (n mod 536870912)" using mult_mod_right[of 8 n 536870912] by simp
  then show ?thesis by (simp add: mod_mod_cancel)
qed

lemma rep_count: "md5_rep ctx m \<Longrightarrow> unat (drop_bit 3 (md_bits0 ctx) AND 0x3f) = length m mod 64"
proof -
  assume "md5_rep ctx m"
  then have "unat (wcat (md_bits1 ctx) (md_bits0 ctx)) = 8 * length m mod 18446744073709551616"
    by (simp add: md5_rep_def unat_word_ariths unat_of_nat mod_simps)
  then have "unat (md_bits0 ctx) = 8 * length m mod 18446744073709551616 mod 4294967296"
    using unat32_less[of "md_bits0 ctx"] by (simp add: unat_wcat) (metis mod_mult_self3 mod_less)
  then have b: "unat (md_bits0 ctx) = 8 * length m mod 4294967296" by (simp add: mod_mod_cancel)
  have m: "(0x3f::u32) = mask 6" by code_simp
  have "unat (drop_bit 3 (md_bits0 ctx) AND 0x3f) = unat (md_bits0 ctx) div 8 mod 64" unfolding m
    by (simp only: take_bit_eq_mask[symmetric] unat_take_bit32 unat_drop_bit32) simp
  also have "\<dots> = length m mod 64" unfolding b by (rule mult_mod_div)
  finally show ?thesis .
qed

lemma full_le: "full m \<le> length m" "length m - full m = length m mod 64" "full m mod 64 = 0"
  by (simp_all add: full_def minus_mult_div_eq_mod)

lemma full_append: "length m mod 64 = 0 \<Longrightarrow> full (m @ x) = length m + full x"
  by (auto simp: full_def mod_0_imp_dvd dvd_def)

lemma md5_blocks_tail:
  "md5_blocks st (m @ x) = md5_blocks (md5_blocks st m) (drop (full m) m @ x)"
proof -
  have l: "length (take (full m) m) mod 64 = 0" using full_le[of m] by simp
  have "md5_blocks st m = md5_blocks st (take (full m) m)"
    using md5_blocks_append[OF l, of st "drop (full m) m"] md5_blocks_short[of "drop (full m) m"] full_le[of m]
    by simp
  moreover have "md5_blocks st (m @ x) = md5_blocks (md5_blocks st (take (full m) m)) (drop (full m) m @ x)"
    using md5_blocks_append[OF l, of st "drop (full m) m @ x"] by (metis append_assoc append_take_drop_id)
  ultimately show ?thesis by simp
qed

lemma update_blocks_aligned:
  assumes "length m mod 64 = 0" "md_buf ctx = md5_blocks st m" "length (md_in ctx) = 64"
  shows "\<exists>inb. update_blocks ctx x = ctx\<lparr>md_buf := md5_blocks st (m @ x), md_in := inb\<rparr> \<and> length inb = 64
     \<and> take (length (m @ x) mod 64) inb = drop (full (m @ x)) (m @ x)"
proof -
  have "length (m @ x) mod 64 = length x mod 64" using assms(1) by (simp add: mod_add_left_eq[symmetric])
  moreover have "drop (full (m @ x)) (m @ x) = drop (full x) x" by (simp add: full_append[OF assms(1)])
  ultimately show ?thesis
    using update_blocks_rep[OF assms(3), of x] assms(2) md5_blocks_append[OF assms(1), of st x] by auto
qed

lemma chunk_arith:
  "n mod 64 + k < 64 \<Longrightarrow> (n + k) div 64 = n div 64 \<and> (n + k) mod 64 = n mod 64 + (k::nat)"
  "(n + (64 - n mod 64)) mod 64 = (0::nat)"
proof -
  define q t where d: "q = n div 64" "t = n mod 64"
  have n: "n = t + 64 * q" and t: "t < 64" by (simp_all add: d)
  show "n mod 64 + k < 64 \<Longrightarrow> (n + k) div 64 = n div 64 \<and> (n + k) mod 64 = n mod 64 + (k::nat)"
  proof -
    assume "n mod 64 + k < 64"
    then have k: "t + k < 64" by (simp add: d)
    have nk: "n + k = (t + k) + q * 64" using n by simp
    have "(n + k) div 64 = q" unfolding nk by (subst div_mult_self1) (use k in simp_all)
    moreover have "(n + k) mod 64 = t + k" unfolding nk by (subst mod_mult_self1) (use k in simp)
    ultimately show ?thesis by (simp add: d)
  qed
  have "n + (64 - t) = 64 * Suc q" using n t by simp
  then show "(n + (64 - n mod 64)) mod 64 = (0::nat)" unfolding d(2)[symmetric] by simp
qed

lemma MD5Update_rep:
  assumes r: "md5_rep ctx m" and l: "length x < 4294967296"
  shows "md5_rep (MD5Update ctx x) (m @ x)"
proof -
  let ?c = "count_bits ctx (word_of_nat (length x))" and ?t = "length m mod 64"
  let ?p = "drop (full m) m"
  have c: "wcat (md_bits1 ?c) (md_bits0 ?c) = word_of_nat (8 * length (m @ x))"
    "md_buf ?c = md5_blocks md5_start m" "md_in ?c = md_in ctx" "length (md_in ctx) = 64"
    "take ?t (md_in ctx) = ?p"
    using count_bits_wcat[of ctx "length m" "length x"] r l by (auto simp: md5_rep_def count_bits_def Let_def)
  have t: "unat (drop_bit 3 (md_bits0 ctx) AND 0x3f) = ?t" by (rule rep_count[OF r])
  have p: "length ?p = ?t" using full_le[of m] by simp
  consider "?t = 0" | "?t \<noteq> 0" "length x < 64 - ?t" | "?t \<noteq> 0" "64 - ?t \<le> length x" by linarith
  then show ?thesis
  proof cases
    case 1
    then obtain inb where "update_blocks ?c x = ?c\<lparr>md_buf := md5_blocks md5_start (m @ x), md_in := inb\<rparr>"
      "length inb = 64" "take (length (m @ x) mod 64) inb = drop (full (m @ x)) (m @ x)"
      using update_blocks_aligned[of m ?c md5_start x] c by auto
    then show ?thesis using 1 c(1) by (simp add: MD5Update_def t md5_rep_def)
  next
    case 2
    then have f: "full (m @ x) = full m" "length (m @ x) mod 64 = ?t + length x"
      using chunk_arith(1)[of "length m" "length x"] by (simp_all add: full_def)
    have "md5_blocks md5_start (m @ x) = md5_blocks md5_start m"
      using md5_blocks_tail[of md5_start m x] 2 p by (simp add: md5_blocks_short)
    then show ?thesis using 2 c p f full_le(1)[of m]
      by (simp add: MD5Update_def t md5_rep_def memcpy_def Let_def)
  next
    case 3
    let ?r = "64 - ?t" and ?b = "?p @ take (64 - ?t) x"
    let ?inb = "memcpy (md_in ctx) ?t (take ?r x)"
    have b: "?inb = ?b" "length ?b = 64" using 3 c(4,5) p by (simp_all add: memcpy_def min_def)
    let ?d = "?c\<lparr>md_in := ?inb, md_buf := MD5Transform (md_buf ?c) (le_words ?inb)\<rparr>"
    have al: "length (m @ take ?r x) mod 64 = 0"
      using 3 chunk_arith(2)[of "length m"] by (simp add: min_absorb2)
    have "md5_blocks md5_start (m @ take ?r x) = MD5Transform (md5_blocks md5_start m) (le_words ?b)"
      using md5_blocks_tail[of md5_start m "take ?r x"] md5_blocks_one[OF b(2), of _ "[]"]
      by (simp add: md5_blocks_short)
    then obtain inb where "update_blocks ?d (drop ?r x) = ?d\<lparr>md_buf := md5_blocks md5_start (m @ x), md_in := inb\<rparr>"
      "length inb = 64" "take (length (m @ x) mod 64) inb = drop (full (m @ x)) (m @ x)"
      using update_blocks_aligned[OF al, of ?d md5_start "drop ?r x"] b c(2) by auto
    then show ?thesis using 3 c(1) by (simp add: MD5Update_def t md5_rep_def Let_def c(3))
  qed
qed

lemma MD5Init_rep: "length inb = 64 \<Longrightarrow> md5_rep (MD5Init inb) []"
  by (simp add: md5_rep_def MD5Init_def md5_start_def md5_blocks_short full_def) 

lemma wcat_halves: "ucast (wcat h l) = l" "ucast (drop_bit 32 (wcat h l)) = h"
proof -
  show "ucast (wcat h l) = l"
    using unat32_less[of l] by (simp add: word_unat_eq_iff unsigned_ucast_eq take_bit_eq_mod unat_wcat)
  have "unat (drop_bit 32 (wcat h l)) = unat h"
    using unat32_less[of l] by (simp only: unat_drop_bit_eq unat_wcat) (simp add: drop_bit_eq_div)
  then show "ucast (drop_bit 32 (wcat h l)) = h"
    using unat32_less[of h] by (simp only: word_unat_eq_iff unsigned_ucast_eq take_bit_eq_mod) simp
qed

lemma length_le_bytes [simp]: "length (le_bytes w) = 4"
  by (simp add: le_bytes_def)

lemma memcpy_at: "memcpy (a @ r) (length a) x = a @ x @ drop (length x) r"
  by (simp add: memcpy_def)

lemma memcpy_tail:
  assumes "length x = 4" "length y = 4"
  shows "length b = 64 \<Longrightarrow> memcpy (memcpy (memcpy b 0 (replicate 56 0)) 56 x) 60 y = replicate 56 0 @ x @ y"
    and "length a = 56 \<Longrightarrow> length r = 8 \<Longrightarrow> memcpy (memcpy (a @ r) 56 x) 60 y = a @ x @ y"
  using assms by (simp_all add: memcpy_def)

lemma MD5Final_rep:
  assumes r: "md5_rep ctx m"
  shows "MD5Final ctx = md5_digest m"
proof -
  let ?t = "length m mod 64" and ?p = "drop (full m) m"
  let ?n = "le_bytes (md_bits0 ctx) @ le_bytes (md_bits1 ctx)"
  have c: "wcat (md_bits1 ctx) (md_bits0 ctx) = word_of_nat (8 * length m)"
    "md_buf ctx = md5_blocks md5_start m" "length (md_in ctx) = 64" "take ?t (md_in ctx) = ?p"
    using r by (auto simp: md5_rep_def)
  have p: "length ?p = ?t" using full_le[of m] by simp
  have t: "unat (drop_bit 3 (md_bits0 ctx) AND 0x3F) = ?t" by (rule rep_count[OF r])
  have t64: "?t < 64" by simp
  have pad: "md5_pad m = m @ [0x80] @ replicate ((119 - ?t) mod 64) 0 @ ?n"
    unfolding md5_pad_def Let_def c(1)[symmetric] wcat_halves by simp
  have in80: "(md_in ctx)[?t := 0x80] = ?p @ [0x80] @ drop (?t + 1) (md_in ctx)"
    using c(3,4) by (simp add: upd_conv_take_nth_drop)
  show ?thesis
  proof (cases "64 - 1 - ?t < 8")
    case True
    let ?k = "64 - 1 - ?t"
    let ?b1 = "?p @ [0x80] @ replicate ?k 0" and ?b2 = "replicate 56 0 @ ?n"
    have k: "(119 - ?t) mod 64 = ?k + 56" 
    proof -
      have "119 - ?t < 64" "119 - ?t = ?k + 56" using True t64 by linarith+
      then show ?thesis by (simp only: mod_less)
    qed
    have i1: "memcpy ((md_in ctx)[?t := 0x80]) (?t + 1) (replicate ?k 0) = ?b1"
      using c(3) p by (simp add: memcpy_def in80)
    have l1: "length ?b1 = 64" using p True t64 by simp
    have i2: "memcpy (memcpy (memcpy ?b1 0 (replicate 56 0)) 56 (le_bytes (md_bits0 ctx))) 60 (le_bytes (md_bits1 ctx)) = ?b2"
      using memcpy_tail(1)[OF _ _ l1] by simp
    have "md5_pad m = m @ [0x80] @ replicate ?k 0 @ ?b2" unfolding pad k replicate_add by (simp only: append_assoc)
    then have "md5_blocks md5_start (md5_pad m) = md5_blocks (md_buf ctx) (?b1 @ ?b2)"
      using md5_blocks_tail[of md5_start m "[0x80] @ replicate ?k 0 @ ?b2"] c(2) by simp
    also have "\<dots> = MD5Transform (MD5Transform (md_buf ctx) (le_words ?b1)) (le_words ?b2)"
      using md5_blocks_one[OF l1, of _ ?b2] md5_blocks_one[of ?b2 _ "[]"] by (simp add: md5_blocks_short)
    finally have f: "md5_blocks md5_start (md5_pad m) = MD5Transform (MD5Transform (md_buf ctx) (le_words ?b1)) (le_words ?b2)" .
    show ?thesis using True unfolding MD5Final_def Let_def t md5_digest_def f
      by (simp only: i1 i2 if_True prod.case) 
  next
    case False
    let ?k = "64 - 1 - ?t - 8"
    let ?b = "?p @ [0x80] @ replicate ?k 0 @ ?n"
    have k: "(119 - ?t) mod 64 = ?k" 
    proof -
      have "119 - ?t = ?k + 64" "?k < 64" using False t64 by linarith+
      then show ?thesis by (simp only: mod_add_self2 mod_less)
    qed
    have i1: "memcpy ((md_in ctx)[?t := 0x80]) (?t + 1) (replicate ?k 0) = ?p @ [0x80] @ replicate ?k 0 @ drop 56 (md_in ctx)"
    proof -
      have e: "length (?p @ [0x80]) = ?t + 1" "?k + (?t + 1) = 56" using p False by simp_all
      have "memcpy ((?p @ [0x80]) @ drop (?t + 1) (md_in ctx)) (?t + 1) (replicate ?k 0)
          = (?p @ [0x80]) @ replicate ?k 0 @ drop ?k (drop (?t + 1) (md_in ctx))"
        using memcpy_at[of "?p @ [0x80]" "drop (?t + 1) (md_in ctx)" "replicate ?k 0"] by (simp only: e length_replicate)
      then show ?thesis unfolding in80 drop_drop e(2) by (simp only: append_assoc)
    qed
    have i2: "memcpy (memcpy (?p @ [0x80] @ replicate ?k 0 @ drop 56 (md_in ctx)) 56 (le_bytes (md_bits0 ctx))) 60 (le_bytes (md_bits1 ctx)) = ?b"
      using memcpy_tail(2)[of "le_bytes (md_bits0 ctx)" "le_bytes (md_bits1 ctx)"
          "?p @ [0x80] @ replicate ?k 0" "drop 56 (md_in ctx)"] p False c(3) by simp
    have l: "length ?b = 64" using p False by simp
    have "md5_blocks md5_start (md5_pad m) = md5_blocks (md_buf ctx) ?b"
      using md5_blocks_tail[of md5_start m "[0x80] @ replicate ?k 0 @ ?n"] c(2) unfolding pad k by simp
    also have "\<dots> = MD5Transform (md_buf ctx) (le_words ?b)"
      using md5_blocks_one[OF l, of _ "[]"] by (simp add: md5_blocks_short)
    finally have f: "md5_blocks md5_start (md5_pad m) = MD5Transform (md_buf ctx) (le_words ?b)" .
    show ?thesis using False unfolding MD5Final_def Let_def t md5_digest_def f
      by (simp only: i1 i2 if_False prod.case)
  qed
qed

lemma MD5_stream_rep:
  "\<forall>x \<in> set xs. length x < 4294967296 \<Longrightarrow> md5_rep ctx m \<Longrightarrow>
   md5_rep (fold (\<lambda>x ctx. MD5Update ctx x) xs ctx) (m @ concat xs)"
proof (induction xs arbitrary: ctx m)
  case (Cons x xs)
  then have "md5_rep (MD5Update ctx x) (m @ x)" by (intro MD5Update_rep) auto
  from Cons.IH[OF _ this] Cons.prems(1) show ?case by simp
qed simp

text \<open>
  C27. The incremental digest. However a message is cut into pieces, feeding them to \<open>MD5Update\<close> in
  turn after \<open>MD5Init\<close> and finishing with \<open>MD5Final\<close> gives the digest of the whole message: the
  message with its padding byte, the zeros that fill the last block and its length in bits as 64
  bits, transformed block by block. Whatever the block buffer contained at the start does not matter.
\<close>

theorem md5_incremental:
  assumes "\<forall>x \<in> set xs. length x < 4294967296" "length inb = 64"
  shows "MD5Final (fold (\<lambda>x ctx. MD5Update ctx x) xs (MD5Init inb)) = md5_digest (concat xs)"
  using MD5Final_rep[OF MD5_stream_rep[OF assms(1) MD5Init_rep[OF assms(2)]]] by simp

theorem md5_incremental_witness:
  "MD5Final (MD5Update (MD5Update (MD5Init (replicate 64 7)) [97]) [98, 99]) = md5_digest [97, 98, 99]"
  using md5_incremental[of "[[97], [98, 99]]" "replicate 64 7"] by simp

end
