(* ===== verification/Portclock.thy ===== *)
theory Portclock
  imports Tod
begin

text \<open>
  The timer queues of the kernel (\<open>Port/portclock.c\<close>): each processor has a list of timers ordered
  by the moment they are due; adding, modifying and deleting a timer, and the clock interrupt that
  takes the due timers off the queue, calls their functions and puts the periodic ones back.

  A timer is known by its address, the queue of a processor is the list of the timers linked through
  \<open>tnext\<close>. The calls of \<open>arch_timerset\<close>, which programs the hardware, are recorded with the last
  one first; the functions called by the timers are an argument of the interrupt. A failed assertion
  and a panic are \<open>None\<close>. Locks are not modelled: each operation holds the lock of the queue.
\<close>

section \<open>State\<close>

definition Trelative :: nat where "Trelative = 0"
definition Tperiodic :: nat where "Tperiodic = 1"

record Timer =
  tmode :: nat
  tns :: u64
  tf :: "nat option"
  twhen :: u64
  tt :: "nat option"

record clockstate =
  tm :: "nat \<Rightarrow> Timer"
  queue :: "nat \<Rightarrow> nat list"
  tod :: TOD
  armed :: "u64 list"
  ticks :: "nat \<Rightarrow> u32"
  flushmmu :: "nat \<Rightarrow> bool"
  sigvtalrm :: nat
  intrcount :: "nat \<Rightarrow> u32"
  fcallcount :: "nat \<Rightarrow> u32"

section \<open>Operations\<close>

fun find_period :: "(nat \<Rightarrow> Timer) \<Rightarrow> u64 \<Rightarrow> nat list \<Rightarrow> nat option" where
  "find_period st ns [] = None"
| "find_period st ns (t # ts) =
    (if tmode (st t) = Tperiodic \<and> tns (st t) = ns then Some t else find_period st ns ts)"

fun insert_timer :: "(nat \<Rightarrow> Timer) \<Rightarrow> nat \<Rightarrow> nat list \<Rightarrow> nat list" where
  "insert_timer st n [] = [n]"
| "insert_timer st n (t # ts) =
    (if sint (twhen (st n)) < sint (twhen (st t)) then n # t # ts else t # insert_timer st n ts)"

text \<open>The first part of \<open>tadd\<close>: when is the timer due.\<close>

definition timer_due :: "clock \<Rightarrow> nat \<Rightarrow> nat \<Rightarrow> clockstate \<Rightarrow> clockstate option" where
  "timer_due ck c n s =
    (let nt = tm s n in
     if tmode nt = Trelative then
       let ns = (if sint (tns nt) \<le> 0 then 1 else tns nt) in do {
         (d, td) \<leftarrow> ns2fastticks ck ns (tod s);
         Some (s\<lparr>tod := td, tm := (tm s)(n := nt\<lparr>tns := ns, twhen := ck_fast ck + d\<rparr>)\<rparr>) }
     else if tmode nt = Tperiodic then
       if sint (tns nt) < 100000 then None
       else
         let w = (if twhen nt = 0 then
                    (case find_period (tm s) (tns nt) (queue s c) of
                       Some t \<Rightarrow> twhen (tm s t)
                     | None \<Rightarrow> ck_fast ck)
                  else twhen nt) in do {
           (d, td) \<leftarrow> ns2fastticks ck (tns nt) (tod s);
           Some (s\<lparr>tod := td, tm := (tm s)(n := nt\<lparr>twhen := w + d\<rparr>)\<rparr>) }
     else None)"

definition tadd :: "clock \<Rightarrow> nat \<Rightarrow> nat \<Rightarrow> clockstate \<Rightarrow> (u64 \<times> clockstate) option" where
  "tadd ck c n s =
    (if tt (tm s n) \<noteq> None then None
     else do {
       s \<leftarrow> timer_due ck c n s;
       let q = insert_timer (tm s) n (queue s c);
       let s = s\<lparr>queue := (queue s)(c := q), tm := (tm s)(n := (tm s n)\<lparr>tt := Some c\<rparr>)\<rparr>;
       Some (if hd q = n then twhen (tm s n) else 0, s)
     })"

definition tdel :: "nat \<Rightarrow> clockstate \<Rightarrow> u64 \<times> clockstate" where
  "tdel n s =
    (case tt (tm s n) of
       None \<Rightarrow> (0, s)
     | Some c \<Rightarrow>
         let q = queue s c in
         if n \<in> set q then
           let s = s\<lparr>queue := (queue s)(c := remove1 n q), tm := (tm s)(n := (tm s n)\<lparr>tt := None\<rparr>)\<rparr>
           in (if hd q = n \<and> remove1 n q \<noteq> [] then twhen (tm s (hd (remove1 n q))) else 0, s)
         else (0, s))"

definition arm :: "u64 \<Rightarrow> clockstate \<Rightarrow> clockstate" where
  "arm w s = s\<lparr>armed := w # armed s\<rparr>"

definition timeradd :: "clock \<Rightarrow> nat \<Rightarrow> nat \<Rightarrow> clockstate \<Rightarrow> clockstate option" where
  "timeradd ck cpuno n s = do {
     let s = (if tt (tm s n) \<noteq> None then snd (tdel n s) else s);
     (w, s) \<leftarrow> tadd ck cpuno n s;
     Some (if w \<noteq> 0 then arm w s else s)
   }"

definition timerdel :: "nat \<Rightarrow> nat \<Rightarrow> clockstate \<Rightarrow> clockstate" where
  "timerdel cpuno n s =
    (case tt (tm s n) of
       None \<Rightarrow> s
     | Some c \<Rightarrow>
         let (w, s) = tdel n s
         in if w \<noteq> 0 \<and> c = cpuno then arm (twhen (tm s (hd (queue s c)))) s else s)"

definition hzclock :: "nat \<Rightarrow> clockstate \<Rightarrow> clockstate" where
  "hzclock c s = s\<lparr>ticks := (ticks s)(c := ticks s c + 1), flushmmu := (flushmmu s)(c := False), sigvtalrm := sigvtalrm s + 1\<rparr>"

text \<open>
  The body of the loop of the interrupt takes the due timer \<open>t\<close> off the queue, calls its function, if
  it has one, and puts a periodic timer back.
\<close>

definition fire_timer ::
  "(nat \<Rightarrow> nat \<Rightarrow> clockstate \<Rightarrow> clockstate) \<Rightarrow> clock \<Rightarrow> nat \<Rightarrow> nat \<Rightarrow> clockstate \<Rightarrow> clockstate option" where
  "fire_timer call ck c t s =
    (if tt (tm s t) \<noteq> Some c then None
     else
       let s = s\<lparr>queue := (queue s)(c := tl (queue s c)), tm := (tm s)(t := (tm s t)\<lparr>tt := None\<rparr>),
                 fcallcount := (fcallcount s)(c := fcallcount s c + 1)\<rparr>;
           s = (case tf (tm s t) of Some f \<Rightarrow> call f t s | None \<Rightarrow> s)
       in if tmode (tm s t) = Tperiodic then map_option snd (tadd ck c t s) else Some s)"

text \<open>
  The loop: \<open>now\<close> is read once; \<open>hz\<close> counts the due timers without a function, for which \<open>hzclock\<close>
  is called when the loop ends at a timer that is not due yet.
\<close>

partial_function (option) timer_loop ::
  "(nat \<Rightarrow> nat \<Rightarrow> clockstate \<Rightarrow> clockstate) \<Rightarrow> clock \<Rightarrow> u64 \<Rightarrow> nat \<Rightarrow> nat \<Rightarrow> clockstate \<Rightarrow> clockstate option" where
  "timer_loop call ck now c hz s =
    (case queue s c of
       [] \<Rightarrow> Some s
     | t # ts \<Rightarrow>
         if now < twhen (tm s t) then
           let s = arm (twhen (tm s t)) s in Some (if hz \<noteq> 0 then hzclock c s else s)
         else do {
           let hz = (if tf (tm s t) = None then hz + 1 else hz);
           s \<leftarrow> fire_timer call ck c t s;
           timer_loop call ck now c hz s
         })"

definition timerintr ::
  "(nat \<Rightarrow> nat \<Rightarrow> clockstate \<Rightarrow> clockstate) \<Rightarrow> clock \<Rightarrow> nat \<Rightarrow> clockstate \<Rightarrow> clockstate option" where
  "timerintr call ck cpuno s =
    (let s = s\<lparr>intrcount := (intrcount s)(cpuno := intrcount s cpuno + 1)\<rparr>;
         now = ck_fast ck
     in if now = 0 then None else timer_loop call ck now cpuno 0 s)"

text \<open>\<open>timersinit\<close> installs the clock timer at the address \<open>n\<close> the allocator returned.\<close>

definition timersinit :: "clock \<Rightarrow> nat \<Rightarrow> nat \<Rightarrow> clockstate \<Rightarrow> clockstate option" where
  "timersinit ck cpuno n s = do {
     td \<leftarrow> todinit ck (tod s);
     let s = s\<lparr>tod := td, tm := (tm s)(n := (tm s n)\<lparr>tmode := Tperiodic, tt := None, tns := 3000000000 div ucast Arch_HZ, tf := None\<rparr>)\<rparr>;
     timeradd ck cpuno n s
   }"

definition tk2ms :: "u32 \<Rightarrow> u32" where
  "tk2ms tk = (let t = ucast tk :: u64; hz = ucast Arch_HZ; t = t * 1000; t = t div hz in ucast t)"

definition ms2tk :: "u32 \<Rightarrow> u32" where
  "ms2tk ms =
    (if 1000000000 div Arch_HZ \<le> ms then (ms div 1000) * Arch_HZ
     else (ms * Arch_HZ + 500) div 1000)"

section \<open>The queues stay ordered\<close>

text \<open>
  The invariant of the queues: each is ordered by due time, no timer is in a queue twice, and a
  timer knows the queue it is in.
\<close>

definition queues_ok :: "clockstate \<Rightarrow> bool" where
  "queues_ok s \<longleftrightarrow> (\<forall>c. sorted (map (\<lambda>t. sint (twhen (tm s t))) (queue s c)) \<and> distinct (queue s c)
     \<and> (\<forall>t. t \<in> set (queue s c) \<longleftrightarrow> tt (tm s t) = Some c))"

lemma set_insert_timer: "set (insert_timer st n q) = insert n (set q)"
  by (induction q) auto

lemma distinct_insert_timer: "n \<notin> set q \<Longrightarrow> distinct q \<Longrightarrow> distinct (insert_timer st n q)"
  by (induction q) (auto simp: set_insert_timer)

lemma sorted_insert_timer:
  "sorted (map (\<lambda>t. sint (twhen (st t))) q) \<Longrightarrow> sorted (map (\<lambda>t. sint (twhen (st t))) (insert_timer st n q))"
  by (induction q) (auto simp: set_insert_timer)

lemma queues_okD:
  assumes "queues_ok s"
  shows "sorted (map (\<lambda>t. sint (twhen (tm s t))) (queue s c))" "distinct (queue s c)"
    "t \<in> set (queue s c) \<longleftrightarrow> tt (tm s t) = Some c"
  using assms by (simp_all add: queues_ok_def)

text \<open>A timer that is in no queue may be changed at will; what matters is what the others are.\<close>

lemma queues_ok_upd:
  assumes "queues_ok s" "tt (tm s n) = None" "tt x = None"
  shows "queues_ok (s\<lparr>tm := (tm s)(n := x)\<rparr>)" (is "queues_ok ?s")
proof -
  have nq: "n \<notin> set (queue s c)" for c using queues_okD(3)[OF assms(1)] assms(2) by simp
  have k: "map (\<lambda>t. sint (twhen (tm ?s t))) (queue ?s c) = map (\<lambda>t. sint (twhen (tm s t))) (queue s c)" for c
    using nq by auto
  show ?thesis unfolding queues_ok_def k using assms by (auto simp: queues_ok_def)
qed

lemma queues_ok_cong:
  "tm s' = tm s \<Longrightarrow> queue s' = queue s \<Longrightarrow> queues_ok s' = queues_ok s"
  by (simp add: queues_ok_def)

lemma timer_due_Some:
  assumes "timer_due ck c n s = Some s'" "tt (tm s n) = None"
  shows "tt (tm s' n) = None \<and> s' = s\<lparr>tod := tod s', tm := (tm s)(n := tm s' n)\<rparr>"
  using assms by (auto simp: timer_due_def Let_def split: if_splits bind_splits)

lemma insert_ok:
  assumes ok: "queues_ok s" and n: "tt (tm s n) = None"
  shows "queues_ok (s\<lparr>queue := (queue s)(c := insert_timer (tm s) n (queue s c)),
      tm := (tm s)(n := (tm s n)\<lparr>tt := Some c\<rparr>)\<rparr>)" (is "queues_ok ?s")
proof -
  have nq: "n \<notin> set (queue s c')" for c' using queues_okD(3)[OF ok] n by simp
  have k: "(\<lambda>t. sint (twhen (tm ?s t))) = (\<lambda>t. sint (twhen (tm s t)))" by auto
  have "sorted (map (\<lambda>t. sint (twhen (tm ?s t))) (queue ?s c')) \<and> distinct (queue ?s c')" for c'
    unfolding k using queues_okD(1,2)[OF ok] nq
    by (auto intro!: sorted_insert_timer distinct_insert_timer)
  moreover have "t \<in> set (queue ?s c') \<longleftrightarrow> tt (tm ?s t) = Some c'" for t c'
    using queues_okD(3)[OF ok] nq by (auto simp: set_insert_timer)
  ultimately show ?thesis unfolding queues_ok_def by blast
qed

lemma tadd_ok:
  assumes "queues_ok s" "tadd ck c n s = Some (w, s')"
  shows "queues_ok s'"
proof -
  from assms(2) obtain s1 where t: "tt (tm s n) = None" and s1: "timer_due ck c n s = Some s1"
    and s': "s' = s1\<lparr>queue := (queue s1)(c := insert_timer (tm s1) n (queue s1 c)),
      tm := (tm s1)(n := (tm s1 n)\<lparr>tt := Some c\<rparr>)\<rparr>"
    by (auto simp: tadd_def Let_def split: if_splits bind_splits)
  have x: "tt (tm s1 n) = None" "s1 = s\<lparr>tod := tod s1, tm := (tm s)(n := tm s1 n)\<rparr>"
    using timer_due_Some[OF s1 t] by blast+
  have "queues_ok (s\<lparr>tm := (tm s)(n := tm s1 n)\<rparr>)" by (rule queues_ok_upd[OF assms(1) t x(1)])
  then have "queues_ok s1" by (subst x(2)) (simp add: queues_ok_def)
  then show ?thesis unfolding s' using x(1) by (rule insert_ok)
qed

lemma tdel_ok:
  assumes ok: "queues_ok s"
  shows "queues_ok (snd (tdel n s)) \<and> tt (tm (snd (tdel n s)) n) = None"
proof (cases "tt (tm s n)")
  case None
  then show ?thesis using ok by (simp add: tdel_def)
next
  case (Some c)
  then have n: "n \<in> set (queue s c)" using queues_okD(3)[OF ok] by simp
  let ?s = "s\<lparr>queue := (queue s)(c := remove1 n (queue s c)), tm := (tm s)(n := (tm s n)\<lparr>tt := None\<rparr>)\<rparr>"
  have e: "snd (tdel n s) = ?s" using Some n by (simp add: tdel_def Let_def)
  have k: "(\<lambda>t. sint (twhen (tm ?s t))) = (\<lambda>t. sint (twhen (tm s t)))" by auto
  have "sorted (map (\<lambda>t. sint (twhen (tm ?s t))) (queue ?s c')) \<and> distinct (queue ?s c')" for c'
    unfolding k using queues_okD(1,2)[OF ok] by (auto intro!: sorted_map_remove1)
  moreover have "t \<in> set (queue ?s c') \<longleftrightarrow> tt (tm ?s t) = Some c'" for t c'
    using queues_okD(2,3)[OF ok] Some by (auto simp: set_remove1_eq)
  ultimately show ?thesis unfolding e queues_ok_def by simp
qed

lemma arm_ok: "queues_ok (arm w s) = queues_ok s" "queues_ok (hzclock c s) = queues_ok s"
  by (simp_all add: arm_def hzclock_def queues_ok_def)

lemma timeradd_ok: "queues_ok s \<Longrightarrow> timeradd ck c n s = Some s' \<Longrightarrow> queues_ok s'"
  using tdel_ok[of s n] by (auto simp: timeradd_def Let_def arm_ok dest: tadd_ok split: bind_splits if_splits)

lemma timerdel_ok: "queues_ok s \<Longrightarrow> queues_ok (timerdel c n s)"
  using tdel_ok[of s n] by (auto simp: timerdel_def Let_def arm_ok split: option.splits prod.splits)

text \<open>Taking the first timer off a queue.\<close>

lemma take_head_ok:
  assumes ok: "queues_ok s" and q: "queue s c = t # ts"
  shows "queues_ok (s\<lparr>queue := (queue s)(c := ts), tm := (tm s)(t := (tm s t)\<lparr>tt := None\<rparr>), fcallcount := k\<rparr>)"
proof -
  have "tt (tm s t) = Some c" using queues_okD(3)[OF ok, of t c] q by simp
  then have "snd (tdel t s) = s\<lparr>queue := (queue s)(c := ts), tm := (tm s)(t := (tm s t)\<lparr>tt := None\<rparr>)\<rparr>"
    using q by (simp add: tdel_def Let_def)
  then show ?thesis using tdel_ok[OF ok, of t] by (simp add: queues_ok_def)
qed

lemma fire_timer_ok:
  assumes call: "\<And>f t s. queues_ok s \<Longrightarrow> queues_ok (call f t s)"
    and ok: "queues_ok s" and q: "queue s c = t # ts" and f: "fire_timer call ck c t s = Some s'"
  shows "queues_ok s'"
proof -
  have "queues_ok (s\<lparr>queue := (queue s)(c := tl (queue s c)), tm := (tm s)(t := (tm s t)\<lparr>tt := None\<rparr>),
      fcallcount := (fcallcount s)(c := fcallcount s c + 1)\<rparr>)" (is "queues_ok ?s")
    using take_head_ok[OF ok q] q by simp
  moreover from this have "queues_ok (case tf (tm ?s t) of Some f \<Rightarrow> call f t ?s | None \<Rightarrow> ?s)"
    using call by (auto split: option.splits)
  ultimately show ?thesis
    using f by (auto simp: fire_timer_def Let_def dest: tadd_ok split: if_splits)
qed

lemma timer_loop_ok:
  assumes call: "\<And>f t s. queues_ok s \<Longrightarrow> queues_ok (call f t s)"
    and r: "timer_loop call ck now c hz s = Some s'" and ok: "queues_ok s"
  shows "queues_ok s'"
proof -
  have "(\<forall>f t s. queues_ok s \<longrightarrow> queues_ok (call f t s)) \<longrightarrow> queues_ok s \<longrightarrow> queues_ok s'"
  proof (rule timer_loop.raw_induct[OF _ r, of "\<lambda>call ck now c hz s s'.
      (\<forall>f t s. queues_ok s \<longrightarrow> queues_ok (call f t s)) \<longrightarrow> queues_ok s \<longrightarrow> queues_ok s'"], intro impI)
    fix rec :: "(nat \<Rightarrow> nat \<Rightarrow> clockstate \<Rightarrow> clockstate) \<Rightarrow> clock \<Rightarrow> u64 \<Rightarrow> nat \<Rightarrow> nat \<Rightarrow> clockstate \<Rightarrow> clockstate option"
      and call ck now c hz s s'
    assume ih: "\<And>call ck now c hz s s'. rec call ck now c hz s = Some s' \<Longrightarrow>
        (\<forall>f t s. queues_ok s \<longrightarrow> queues_ok (call f t s)) \<longrightarrow> queues_ok s \<longrightarrow> queues_ok s'"
      and b: "(case queue s c of [] \<Rightarrow> Some s
         | t # ts \<Rightarrow> if now < twhen (tm s t) then
             let s = arm (twhen (tm s t)) s in Some (if hz \<noteq> 0 then hzclock c s else s)
           else let hz = if tf (tm s t) = None then hz + 1 else hz in
             fire_timer call ck c t s \<bind> rec call ck now c hz) = Some s'"
      and call: "\<forall>f t s. queues_ok s \<longrightarrow> queues_ok (call f t s)" and ok: "queues_ok s"
    show "queues_ok s'"
    proof (cases "queue s c")
      case Nil
      then show ?thesis using b ok by simp
    next
      case (Cons t ts)
      show ?thesis
      proof (cases "now < twhen (tm s t)")
        case True
        then show ?thesis using b ok Cons by (auto simp: Let_def arm_ok)
      next
        case False
        then obtain s1 hz' where s1: "fire_timer call ck c t s = Some s1" "rec call ck now c hz' s1 = Some s'"
          using b Cons by (auto simp: Let_def split: bind_splits if_splits)
        have "queues_ok s1" by (rule fire_timer_ok[OF _ ok Cons s1(1)]) (use call in blast)
        then show ?thesis using ih[OF s1(2)] call by blast
      qed
    qed
  qed
  then show ?thesis using call ok by blast
qed

lemma timerintr_ok:
  assumes "\<And>f t s. queues_ok s \<Longrightarrow> queues_ok (call f t s)" "timerintr call ck c s = Some s'" "queues_ok s"
  shows "queues_ok s'"
  using assms timer_loop_ok[of call ck "ck_fast ck" c 0 "s\<lparr>intrcount := (intrcount s)(c := intrcount s c + 1)\<rparr>" s']
  by (auto simp: timerintr_def Let_def queues_ok_def split: if_splits)

lemma timersinit_ok:
  assumes ok: "queues_ok s" and n: "tt (tm s n) = None" and r: "timersinit ck c n s = Some s'"
  shows "queues_ok s'"
proof -
  let ?x = "(tm s n)\<lparr>tmode := Tperiodic, tt := None, tns := 3000000000 div ucast Arch_HZ, tf := None\<rparr>"
  have "queues_ok (s\<lparr>tm := (tm s)(n := ?x)\<rparr>)" by (rule queues_ok_upd[OF ok n]) simp
  then have "queues_ok (s\<lparr>tod := td, tm := (tm s)(n := ?x)\<rparr>)" for td by (simp add: queues_ok_def)
  then show ?thesis using r by (auto simp: timersinit_def Let_def dest: timeradd_ok split: bind_splits)
qed

text \<open>
  The steps of the kernel on its timers: a client changes the public fields of a timer that is in no
  queue, adds, modifies or deletes a timer, and the clock interrupts.
\<close>

inductive timer_step :: "(nat \<Rightarrow> nat \<Rightarrow> clockstate \<Rightarrow> clockstate) \<Rightarrow> clockstate \<Rightarrow> clockstate \<Rightarrow> bool"
  for call where
  set: "tt (tm s n) = None \<Longrightarrow>
    timer_step call s (s\<lparr>tm := (tm s)(n := (tm s n)\<lparr>tmode := m, tns := ns, tf := f, twhen := w\<rparr>)\<rparr>)"
| init: "tt (tm s n) = None \<Longrightarrow> timersinit ck c n s = Some s' \<Longrightarrow> timer_step call s s'"
| add: "timeradd ck c n s = Some s' \<Longrightarrow> timer_step call s s'"
| del: "timer_step call s (timerdel c n s)"
| intr: "timerintr call ck c s = Some s' \<Longrightarrow> timer_step call s s'"

inductive_cases timer_stepE: "timer_step call s s'"

lemma timer_step_ok:
  "timer_step call s s' \<Longrightarrow> (\<And>f t s. queues_ok s \<Longrightarrow> queues_ok (call f t s)) \<Longrightarrow> queues_ok s \<Longrightarrow> queues_ok s'"
  by (induction rule: timer_step.induct)
    (auto intro: queues_ok_upd timersinit_ok timeradd_ok timerdel_ok timerintr_ok)

text \<open>
  C28. The timer queues. In every state the kernel reaches from one without timers, by any sequence
  of timer operations on any processors and any clock interrupts, every queue is ordered by due
  time, contains no timer twice, and a timer points to a queue exactly when it is in it; the
  functions called by the timers are assumed to respect this.
\<close>

theorem timer_queues_ordered:
  assumes "(timer_step call)\<^sup>*\<^sup>* s s'"
    and "\<And>c. queue s c = []" "\<And>t. tt (tm s t) = None"
    and "\<And>f t s. queues_ok s \<Longrightarrow> queues_ok (call f t s)"
  shows "sorted (map (\<lambda>t. sint (twhen (tm s' t))) (queue s' c)) \<and> distinct (queue s' c)
     \<and> (t \<in> set (queue s' c) \<longleftrightarrow> tt (tm s' t) = Some c)"
proof -
  have "queues_ok s" using assms(2,3) by (simp add: queues_ok_def)
  from assms(1) this have "queues_ok s'"
    by (induction rule: rtranclp_induct) (auto intro: timer_step_ok[OF _ assms(4)])
  then show ?thesis using queues_okD by blast
qed

text \<open>No timers: the state at boot, with a clock of 1 MHz read at 5 seconds (\<open>clock0\<close>).\<close>

definition clockstate0 :: clockstate where
  "clockstate0 = \<lparr>tm = \<lambda>_. \<lparr>tmode = Trelative, tns = 0, tf = None, twhen = 0, tt = None\<rparr>, queue = \<lambda>_. [],
     tod = tod0\<lparr>t_init := False\<rparr>, armed = [], ticks = \<lambda>_. 0, flushmmu = \<lambda>_. False, sigvtalrm = 0,
     intrcount = \<lambda>_. 0, fcallcount = \<lambda>_. 0\<rparr>"

lemma clockstate0_ok: "queue clockstate0 c = []" "tt (tm clockstate0 t) = None" "queues_ok clockstate0"
  by (simp_all add: clockstate0_def queues_ok_def)


lemma clockstate0_run:
  "map_option (\<lambda>s. (queue s 0, map (\<lambda>t. (twhen (tm s t), tns (tm s t), tmode (tm s t))) [7, 3], armed s,
       t_init (tod s), t_divider (tod s)))
     (Option.bind (timersinit clock0 0 7 clockstate0) (timeradd clock0 0 3))
   = Some ([3, 7], [(8000000, 3000000000, 1), (5000000, 1, 0)], [5000000, 8000000], True, 4294968)"
  by code_simp

theorem timer_queues_ordered_witness:
  "\<exists>s'. Option.bind (timersinit clock0 0 7 clockstate0) (timeradd clock0 0 3) = Some s'
     \<and> distinct (queue s' 0) \<and> tt (tm s' 3) = Some 0"
proof -
  obtain s1 s' where s: "timersinit clock0 0 7 clockstate0 = Some s1" "timeradd clock0 0 3 s1 = Some s'"
    and q: "queue s' 0 = [3, 7]"
    using clockstate0_run unfolding map_option_eq_Some bind_eq_Some_conv by auto
  have "(timer_step (\<lambda>f t s. s))\<^sup>*\<^sup>* clockstate0 s'"
    by (rule converse_rtranclp_into_rtranclp[OF timer_step.init[OF clockstate0_ok(2) s(1)]
        r_into_rtranclp[of "timer_step _", OF timer_step.add[OF s(2)]]])
  note t = timer_queues_ordered[OF this clockstate0_ok(1,2)]
  show ?thesis using s t[of 0 3] q by simp
qed

section \<open>The interrupt calls every due timer and returns\<close>

definition period :: "clockstate \<Rightarrow> nat \<Rightarrow> u64" where
  "period s t = arch_mul64fract (tns (tm s t)) (t_divider (tod s))"

text \<open>
  What the interrupt relies on: the clock is initialised, due times and periods are far from the end
  of the 63-bit range, and a periodic timer has a period of at least one tick (\<open>tadd\<close> checks that it
  is at least 100 microseconds).
\<close>

definition timer_ok :: "u64 \<Rightarrow> clockstate \<Rightarrow> nat \<Rightarrow> bool" where
  "timer_ok now s t \<longleftrightarrow> 0 < unat (twhen (tm s t)) \<and> unat (twhen (tm s t)) < 9223372036854775808
     \<and> (tmode (tm s t) = Trelative \<or>
        tmode (tm s t) = Tperiodic \<and> 100000 \<le> sint (tns (tm s t)) \<and> 0 < unat (period s t)
        \<and> unat now + unat (period s t) < 9223372036854775808)"

definition due_ok :: "u64 \<Rightarrow> nat \<Rightarrow> clockstate \<Rightarrow> bool" where
  "due_ok now c s \<longleftrightarrow> queues_ok s \<and> t_init (tod s) \<and> (\<forall>t \<in> set (queue s c). timer_ok now s t)"

definition fired :: "u64 \<Rightarrow> nat \<Rightarrow> clockstate \<Rightarrow> clockstate \<Rightarrow> nat \<Rightarrow> bool" where
  "fired now c s s' t \<longleftrightarrow>
    (let w = unat (twhen (tm s t)); w' = unat (twhen (tm s' t)); d = unat (period s t) in
     if unat now < w then t \<in> set (queue s' c) \<and> w' = w
     else if tmode (tm s t) = Trelative then tt (tm s' t) = None
     else t \<in> set (queue s' c) \<and> unat now < w' \<and> w' \<le> unat now + d \<and> (\<exists>k. w' = w + Suc k * d))"

lemma sint64_nat: "unat (w::u64) < 9223372036854775808 \<Longrightarrow> sint w = int (unat w)"
proof -
  assume a: "unat w < 9223372036854775808"
  have "int (unat w) < 9223372036854775808" using a by linarith
  then have "uint w < 9223372036854775808" by simp
  then show ?thesis by (simp add: sint64_uint)
qed

text \<open>Functions of timers that leave the timers alone.\<close>

definition quiet :: "(nat \<Rightarrow> nat \<Rightarrow> clockstate \<Rightarrow> clockstate) \<Rightarrow> bool" where
  "quiet call \<longleftrightarrow> (\<forall>f t s. tm (call f t s) = tm s \<and> queue (call f t s) = queue s \<and> tod (call f t s) = tod s)"

lemma periodic_neq: "Tperiodic \<noteq> Trelative"
  by (simp add: Tperiodic_def Trelative_def)

lemma unat_add64: "unat (a::u64) + unat b < 18446744073709551616 \<Longrightarrow> unat (a + b) = unat a + unat b"
  by (simp add: unat64_add)

lemma fire_timer_due:
  assumes call: "quiet call"
    and ok: "due_ok now c s" and q: "queue s c = t # ts" and w: "\<not> now < twhen (tm s t)"
  shows "\<exists>s1. fire_timer call ck c t s = Some s1 \<and> tod s1 = tod s
     \<and> (if tmode (tm s t) = Trelative then queue s1 c = ts \<and> tm s1 = (tm s)(t := (tm s t)\<lparr>tt := None\<rparr>)
        else set (queue s1 c) = set (queue s c)
          \<and> tm s1 = (tm s)(t := (tm s t)\<lparr>twhen := twhen (tm s t) + period s t\<rparr>))"
proof -
  have qok: "queues_ok s" and init: "t_init (tod s)" and tok: "timer_ok now s t"
    using ok q by (auto simp: due_ok_def)
  have tt: "tt (tm s t) = Some c" using queues_okD(3)[OF qok, of t c] q by simp
  let ?x = "(tm s t)\<lparr>tt := None\<rparr>"
  let ?s0 = "s\<lparr>queue := (queue s)(c := tl (queue s c)), tm := (tm s)(t := ?x), fcallcount := (fcallcount s)(c := fcallcount s c + 1)\<rparr>"
  define s0 where "s0 = (case tf (tm ?s0 t) of Some f \<Rightarrow> call f t ?s0 | None \<Rightarrow> ?s0)"
  have s0: "tm s0 = (tm s)(t := ?x)" "queue s0 = (queue s)(c := ts)" "tod s0 = tod s"
    using call q by (auto simp: s0_def quiet_def split: option.splits)
  have f: "fire_timer call ck c t s = (if tmode (tm s0 t) = Tperiodic then map_option snd (tadd ck c t s0) else Some s0)"
    using tt by (simp add: fire_timer_def Let_def s0_def)
  show ?thesis
  proof (cases "tmode (tm s t) = Trelative")
    case True
    then show ?thesis using f s0 periodic_neq by simp
  next
    case False
    then have p: "tmode (tm s t) = Tperiodic" "\<not> sint (tns (tm s t)) < 100000" "twhen (tm s t) \<noteq> 0"
      using tok by (auto simp: timer_ok_def)
    let ?y = "?x\<lparr>twhen := twhen (tm s t) + period s t\<rparr>"
    have due: "timer_due ck c t s0 = Some (s0\<lparr>tm := (tm s)(t := ?y)\<rparr>)"
      using p s0 init periodic_neq
      by (simp add: timer_due_def ns2fastticks_def todinit_def period_def Let_def)
    let ?q = "insert_timer ((tm s)(t := ?y)) t ts"
    have "tadd ck c t s0 = Some (if hd ?q = t then twhen ?y else 0,
        s0\<lparr>queue := (queue s)(c := ?q), tm := (tm s)(t := (tm s t)\<lparr>twhen := twhen (tm s t) + period s t\<rparr>)\<rparr>)"
    proof -
      have "(tm s t)\<lparr>twhen := v, tt := Some c\<rparr> = (tm s t)\<lparr>twhen := v\<rparr>" for v
        using tt by (cases "tm s t") simp
      then show ?thesis using due s0 by (simp add: tadd_def Let_def)
    qed
    then show ?thesis using f s0 p False q by (simp add: set_insert_timer)
  qed
qed

lemma due_ok_cong:
  "tm s' = tm s \<Longrightarrow> queue s' = queue s \<Longrightarrow> tod s' = tod s \<Longrightarrow> due_ok now c s' = due_ok now c s"
  by (simp add: due_ok_def timer_ok_def period_def queues_ok_def)

lemma fired_cong: "tm s2 t = tm s t \<Longrightarrow> tod s2 = tod s \<Longrightarrow> fired now c s2 s' t = fired now c s s' t"
  by (simp add: fired_def period_def)

definition lag :: "u64 \<Rightarrow> clockstate \<Rightarrow> nat \<Rightarrow> nat" where
  "lag now s t = unat now + 1 - unat (twhen (tm s t))"

lemma due_sum:
  assumes t: "t \<in> set q" and eq: "\<And>u. u \<noteq> t \<Longrightarrow> lag now s1 u = lag now s u"
    and less: "lag now s1 t < lag now s t"
  shows "sum (lag now s1) (set q) < sum (lag now s) (set q)"
proof (rule sum_strict_mono_ex1)
  show "\<forall>u \<in> set q. lag now s1 u \<le> lag now s u" using eq less by (metis le_less order_refl)
  show "\<exists>u \<in> set q. lag now s1 u < lag now s u" using t less by blast
qed simp

lemma fire_step:
  assumes call: "quiet call"
    and ok: "due_ok now c s" and q: "queue s c = t # ts" and w: "\<not> now < twhen (tm s t)"
  shows "\<exists>s1. fire_timer call ck c t s = Some s1 \<and> due_ok now c s1 \<and> tod s1 = tod s
     \<and> sum (lag now s1) (set (queue s1 c)) < sum (lag now s) (set (queue s c))
     \<and> (\<forall>u. u \<noteq> t \<longrightarrow> tm s1 u = tm s u \<and> (u \<in> set (queue s1 c) \<longleftrightarrow> u \<in> set (queue s c)))
     \<and> (if tmode (tm s t) = Trelative then t \<notin> set (queue s1 c) \<and> tt (tm s1 t) = None
        else t \<in> set (queue s1 c) \<and> unat (twhen (tm s1 t)) = unat (twhen (tm s t)) + unat (period s t)
          \<and> tmode (tm s1 t) = tmode (tm s t) \<and> tns (tm s1 t) = tns (tm s t))"
proof -
  have qok: "queues_ok s" and init: "t_init (tod s)" and tok: "timer_ok now s t"
    and all: "\<And>u. u \<in> set (queue s c) \<Longrightarrow> timer_ok now s u"
    using ok q by (auto simp: due_ok_def)
  have le: "unat (twhen (tm s t)) \<le> unat now" using w by (simp add: word_less_nat_alt)
  obtain s1 where f: "fire_timer call ck c t s = Some s1" and td: "tod s1 = tod s"
    and r: "if tmode (tm s t) = Trelative then queue s1 c = ts \<and> tm s1 = (tm s)(t := (tm s t)\<lparr>tt := None\<rparr>)
        else set (queue s1 c) = set (queue s c)
          \<and> tm s1 = (tm s)(t := (tm s t)\<lparr>twhen := twhen (tm s t) + period s t\<rparr>)"
    using fire_timer_due[OF call ok q w] by blast
  have qok1: "queues_ok s1"
    by (rule fire_timer_ok[OF _ qok q f]) (use call in \<open>simp add: quiet_def queues_ok_def\<close>)
  have d: "t \<notin> set ts" using queues_okD(2)[OF qok, of c] q by simp
  have other: "tm s1 u = tm s u" if "u \<noteq> t" for u using r that by (auto split: if_splits)
  have tok1: "timer_ok now s1 u" if "u \<noteq> t" "u \<in> set (queue s c)" for u
    using all[OF that(2)] other[OF that(1)] td by (simp add: timer_ok_def period_def)
  show ?thesis
  proof (cases "tmode (tm s t) = Trelative")
    case True
    then have r1: "queue s1 c = ts" "tm s1 = (tm s)(t := (tm s t)\<lparr>tt := None\<rparr>)" using r by auto
    have lag: "lag now s1 u = lag now s u" for u using r1(2) by (simp add: lag_def)
    have "sum (lag now s1) (set (queue s1 c)) < sum (lag now s) (set (queue s c))"
      using d le by (simp add: r1(1) q lag) (simp add: lag_def)
    moreover have "timer_ok now s1 u" if "u \<in> set ts" for u
      using tok1[of u] that d q by (cases "u = t") auto
    then have "due_ok now c s1" using qok1 init td r1(1) by (simp add: due_ok_def)
    ultimately show ?thesis using f td other r1 d q True by auto
  next
    case False
    then have r1: "set (queue s1 c) = set (queue s c)"
      "tm s1 = (tm s)(t := (tm s t)\<lparr>twhen := twhen (tm s t) + period s t\<rparr>)" using r by auto
    have p: "0 < unat (period s t)" "unat now + unat (period s t) < 9223372036854775808"
      using tok False by (auto simp: timer_ok_def)
    have w1: "unat (twhen (tm s1 t)) = unat (twhen (tm s t)) + unat (period s t)"
      using r1(2) p le by (simp add: unat_add64)
    have "lag now s1 t < lag now s t" using w1 p le by (simp add: lag_def)
    then have "sum (lag now s1) (set (queue s c)) < sum (lag now s) (set (queue s c))"
      using other q by (intro due_sum) (auto simp: lag_def)
    moreover have "timer_ok now s1 t"
      using tok w1 p le r1(2) td by (auto simp: timer_ok_def period_def)
    then have "due_ok now c s1"
      using qok1 init td tok1 r1(1) unfolding due_ok_def by metis
    ultimately show ?thesis using f td other r1 w1 q False by auto
  qed
qed

lemma sorted_due:
  assumes ok: "due_ok now c s" and q: "queue s c = t # ts" and w: "now < twhen (tm s t)"
  shows "\<forall>u \<in> set (queue s c). now < twhen (tm s u)"
proof
  fix u assume u: "u \<in> set (queue s c)"
  have s: "sint (twhen (tm s v)) = int (unat (twhen (tm s v)))" if "v \<in> set (queue s c)" for v
  proof -
    have "unat (twhen (tm s v)) < 9223372036854775808" using ok that by (simp add: due_ok_def timer_ok_def)
    then show ?thesis by (simp add: sint64_nat)
  qed
  have "sorted (map (\<lambda>t. sint (twhen (tm s t))) (queue s c))" using ok by (simp add: due_ok_def queues_ok_def)
  then have "sint (twhen (tm s t)) \<le> sint (twhen (tm s u))" using u q by auto
  then have "int (unat (twhen (tm s t))) \<le> int (unat (twhen (tm s u)))" using s[OF u] s[of t] q by simp
  then have "unat (twhen (tm s t)) \<le> unat (twhen (tm s u))" by (simp only: of_nat_le_iff)
  then show "now < twhen (tm s u)" using w by (simp add: word_less_nat_alt)
qed

lemma timer_loop_fires:
  assumes call: "quiet call"
  shows "due_ok now c s \<Longrightarrow> \<exists>s'. timer_loop call ck now c hz s = Some s' \<and> due_ok now c s' \<and> tod s' = tod s
     \<and> (\<forall>u. u \<notin> set (queue s c) \<longrightarrow> tm s' u = tm s u)
     \<and> (\<forall>u \<in> set (queue s' c). now < twhen (tm s' u))
     \<and> (\<forall>u \<in> set (queue s c). fired now c s s' u)"
proof (induction "sum (lag now s) (set (queue s c))" arbitrary: s hz rule: less_induct)
  case less
  show ?case
  proof (cases "queue s c")
    case Nil
    then show ?thesis using less.prems by (simp add: timer_loop.simps[of call ck now c hz s])
  next
    case (Cons t ts)
    show ?thesis
    proof (cases "now < twhen (tm s t)")
      case True
      define s' where "s' = (if hz \<noteq> 0 then hzclock c (arm (twhen (tm s t)) s) else arm (twhen (tm s t)) s)"
      have e: "tm s' = tm s" "queue s' = queue s" "tod s' = tod s" by (simp_all add: s'_def hzclock_def arm_def)
      have l: "timer_loop call ck now c hz s = Some s'"
        using Cons True by (simp add: timer_loop.simps[of call ck now c hz s] Let_def s'_def)
      have a: "\<forall>u \<in> set (queue s c). now < twhen (tm s u)" by (rule sorted_due[OF less.prems Cons True])
      have "due_ok now c s'" using less.prems due_ok_cong[OF e] by blast
      moreover have "\<forall>u \<in> set (queue s c). fired now c s s' u"
        using a by (simp add: fired_def Let_def e word_less_nat_alt)
      ultimately show ?thesis using l e a by (intro exI[of _ s']) simp
    next
      case False
      let ?hz = "if tf (tm s t) = None then hz + 1 else hz"
      obtain s1 where f: "fire_timer call ck c t s = Some s1" and ok1: "due_ok now c s1" and td: "tod s1 = tod s"
        and m: "sum (lag now s1) (set (queue s1 c)) < sum (lag now s) (set (queue s c))"
        and o: "\<And>u. u \<noteq> t \<Longrightarrow> tm s1 u = tm s u \<and> (u \<in> set (queue s1 c) \<longleftrightarrow> u \<in> set (queue s c))"
        and r: "if tmode (tm s t) = Trelative then t \<notin> set (queue s1 c) \<and> tt (tm s1 t) = None
        else t \<in> set (queue s1 c) \<and> unat (twhen (tm s1 t)) = unat (twhen (tm s t)) + unat (period s t)
          \<and> tmode (tm s1 t) = tmode (tm s t) \<and> tns (tm s1 t) = tns (tm s t)"
        using fire_step[OF call less.prems Cons False, of ck] by blast
      obtain s' where s': "timer_loop call ck now c ?hz s1 = Some s'" "due_ok now c s'" "tod s' = tod s1"
        "\<And>u. u \<notin> set (queue s1 c) \<Longrightarrow> tm s' u = tm s1 u"
        "\<forall>u \<in> set (queue s' c). now < twhen (tm s' u)" "\<And>u. u \<in> set (queue s1 c) \<Longrightarrow> fired now c s1 s' u"
        using less.hyps[OF m ok1, of ?hz] by blast
      have l: "timer_loop call ck now c hz s = Some s'"
        using Cons False f s'(1) by (simp add: timer_loop.simps[of call ck now c hz s])
      have le: "\<not> unat now < unat (twhen (tm s t))" using False by (simp add: word_less_nat_alt)
      have "fired now c s s' u" if u: "u \<in> set (queue s c)" for u
      proof (cases "u = t")
        case False
        then have "fired now c s1 s' u" "tm s1 u = tm s u" using s'(6) o u by auto
        then show ?thesis using td fired_cong[of s1 u s] by simp
      next
        case True
        show ?thesis
        proof (cases "tmode (tm s t) = Trelative")
          case rel: True
          then show ?thesis using r s'(4)[of t] le True by (simp add: fired_def Let_def)
        next
          case per: False
          then have r1: "t \<in> set (queue s1 c)" "unat (twhen (tm s1 t)) = unat (twhen (tm s t)) + unat (period s t)"
            "tmode (tm s1 t) = tmode (tm s t)" "period s1 t = period s t"
            using r td by (auto simp: period_def)
          show ?thesis
          proof (cases "unat now < unat (twhen (tm s1 t))")
            case lt: True
            then have "t \<in> set (queue s' c)" "unat (twhen (tm s' t)) = unat (twhen (tm s t)) + Suc 0 * unat (period s t)"
              using s'(6)[OF r1(1)] r1(2) by (simp_all add: fired_def Let_def)
            then show ?thesis using le lt r1(2) per True unfolding fired_def Let_def
              by (metis (no_types, lifting) add_le_mono1 linorder_not_less mult_1 One_nat_def)
          next
            case nlt: False
            then obtain k where k: "t \<in> set (queue s' c)" "unat now < unat (twhen (tm s' t))"
              "unat (twhen (tm s' t)) \<le> unat now + unat (period s t)"
              "unat (twhen (tm s' t)) = unat (twhen (tm s1 t)) + Suc k * unat (period s t)"
              using s'(6)[OF r1(1)] per r1 by (auto simp: fired_def Let_def)
            have "unat (twhen (tm s' t)) = unat (twhen (tm s t)) + Suc (Suc k) * unat (period s t)"
              using k(4) r1(2) by simp
            then have "\<exists>k. unat (twhen (tm s' t)) = unat (twhen (tm s t)) + Suc k * unat (period s t)" by blast
            then show ?thesis using k(1-3) le per True unfolding fired_def Let_def by simp
          qed
        qed
      qed
      moreover have "tm s' u = tm s u" if "u \<notin> set (queue s c)" for u
        using that o[of u] s'(4)[of u] Cons by (cases "u = t") auto
      ultimately show ?thesis using l s'(2,3,5) td by auto
    qed
  qed
qed

text \<open>
  C29. The clock interrupt. When the functions of the timers leave the timers alone and times are in
  range, \<open>timerintr\<close> returns, and then no timer of the queue is due any more. Every timer that was
  in the queue has been treated as its kind requires: one that was not due yet is still there with
  the same due time, a one-shot timer that was due is in no queue, and a periodic timer that was due
  is in the queue with the first due time after now that is a whole number of periods later, so that
  it neither drifts nor fires twice for the same period.
\<close>

theorem timerintr_fires:
  assumes "quiet call" "due_ok (ck_fast ck) c s" "ck_fast ck \<noteq> 0"
  shows "\<exists>s'. timerintr call ck c s = Some s'
     \<and> (\<forall>u \<in> set (queue s' c). ck_fast ck < twhen (tm s' u))
     \<and> (\<forall>u \<in> set (queue s c). fired (ck_fast ck) c s s' u)"
proof -
  let ?s = "s\<lparr>intrcount := (intrcount s)(c := intrcount s c + 1)\<rparr>"
  have "due_ok (ck_fast ck) c ?s"
    using assms(2) due_ok_cong[of ?s s] by simp
  from timer_loop_fires[OF assms(1) this, of ck 0] show ?thesis
    using assms(3) fired_cong[of ?s _ s] by (auto simp: timerintr_def Let_def)
qed

theorem timerintr_fires_witness:
  "\<exists>s s'. Option.bind (timersinit clock0 0 7 clockstate0) (timeradd clock0 0 3) = Some s
     \<and> timerintr (\<lambda>f t s. s) (clock0\<lparr>ck_fast := 12000000\<rparr>) 0 s = Some s'
     \<and> tt (tm s' 3) = None \<and> 12000000 < twhen (tm s' 7)"
proof -
  obtain s1 s where s: "timersinit clock0 0 7 clockstate0 = Some s1" "timeradd clock0 0 3 s1 = Some s"
    and q: "queue s 0 = [3, 7]" and t: "t_init (tod s)" "t_divider (tod s) = 4294968"
    "twhen (tm s 7) = 8000000" "tns (tm s 7) = 3000000000" "tmode (tm s 7) = Tperiodic"
    "twhen (tm s 3) = 5000000" "tmode (tm s 3) = Trelative"
    using clockstate0_run unfolding map_option_eq_Some bind_eq_Some_conv by (auto simp: Tperiodic_def Trelative_def)
  have "queues_ok s"
    by (rule timeradd_ok[OF timersinit_ok[OF clockstate0_ok(3,2) s(1)] s(2)])
  moreover have "arch_mul64fract 3000000000 4294968 = 3000000" by code_simp
  ultimately have "due_ok 12000000 0 s" using q t by (auto simp: due_ok_def timer_ok_def period_def)
  then show ?thesis
    using timerintr_fires[of "\<lambda>f t s. s" "clock0\<lparr>ck_fast := 12000000\<rparr>" 0 s] s q t
    by (auto simp: quiet_def clock0_def fired_def Tperiodic_def Trelative_def)
qed

end
