(* ===== verification/Mltree.thy ===== *)
theory Mltree
  imports Mlvalues
begin

text \<open>
  Values of the language as trees. The polymorphic primitives of the runtime (comparison, hashing)
  walk the blocks a value points to; \<open>repr\<close> says which data a word stands for in a given memory:
  an integer, a string, a floating-point number, or a constructor block with its fields. The facts
  of this theory let a proof about such a primitive proceed on the data.

  \<open>string_length\<close> and the bytes of strings are here, as \<open>compare.c\<close> and \<open>hash.c\<close> share them with
  \<open>str.c\<close>. A primitive that raises an exception of the language answers \<open>Inl\<close> with the exception;
  \<open>None\<close> is an access outside the mapped memory, or a recursion deeper than the fuel.
\<close>

datatype ml_error = Invalid_argument string | Failure string | Out_of_memory

text \<open>Sequencing of computations that may raise an exception.\<close>

fun andthen :: "('e + 'a) option \<Rightarrow> ('a \<Rightarrow> ('e + 'b) option) \<Rightarrow> ('e + 'b) option" where
  "andthen None f = None"
| "andthen (Some (Inl e)) f = Some (Inl e)"
| "andthen (Some (Inr x)) f = f x"

lemma andthen_Inr: "andthen m f = Some (Inr y) \<longleftrightarrow> (\<exists>x. m = Some (Inr x) \<and> f x = Some (Inr y))"
  by (cases "(m, f)" rule: andthen.cases) auto

definition Object_tag :: u32 where "Object_tag = 248"

definition Oid_val :: "'a mlheap_scheme \<Rightarrow> val \<Rightarrow> u32 option" where
  "Oid_val h v = map_option Long_val (Field_get h v 1)"

text \<open>\<open>at\<close> is the address of \<open>atom_table\<close>; the comparison is the one of the signed type \<open>value\<close>.\<close>

definition Is_atom :: "u32 \<Rightarrow> val \<Rightarrow> bool" where
  "Is_atom at v \<longleftrightarrow> sint (at + 4) \<le> sint v \<and> sint v \<le> sint (at + 4 * 255 + 4)"

definition in_memory :: "u32 \<Rightarrow> 'a mlheap_scheme \<Rightarrow> val \<Rightarrow> bool" where
  "in_memory at h v \<longleftrightarrow> Is_atom at v \<or> Is_young h v \<or> in_heap h v"

section \<open>Strings and floating-point numbers\<close>

definition Bosize_val :: "'a mlheap_scheme \<Rightarrow> val \<Rightarrow> u32 option" where
  "Bosize_val h v = map_option Bsize_wsize (Wosize_val h v)"

definition string_length :: "'a mlheap_scheme \<Rightarrow> val \<Rightarrow> u32 option" where
  "string_length h s = do {
     b \<leftarrow> Bosize_val h s;
     let temp = b - 1;
     c \<leftarrow> Byte_u h s temp;
     Some (temp - scast c)
   }"

fun bytes_of :: "'a mlheap_scheme \<Rightarrow> val \<Rightarrow> u32 \<Rightarrow> nat \<Rightarrow> u8 list option" where
  "bytes_of h v i 0 = Some []"
| "bytes_of h v i (Suc n) = do { b \<leftarrow> Byte_u h v i; bs \<leftarrow> bytes_of h v (i + 1) n; Some (b # bs) }"

text \<open>
  A floating-point number is its pattern of bits, the low word at the lower address. The comparison
  of IEEE numbers: nothing is less than or greater than a NaN, and the two zeros are equal.
\<close>

definition Double_val :: "'a mlheap_scheme \<Rightarrow> val \<Rightarrow> u64 option" where
  "Double_val h v = do { lo \<leftarrow> load h v; hi \<leftarrow> load h (v + 4); Some (wcat hi lo) }"

definition dbl_mag :: "u64 \<Rightarrow> u64" where "dbl_mag d = d AND 0x7FFFFFFFFFFFFFFF"
definition dbl_nan :: "u64 \<Rightarrow> bool" where "dbl_nan d \<longleftrightarrow> 0x7FF0000000000000 < dbl_mag d"

definition dbl_key :: "u64 \<Rightarrow> int" where
  "dbl_key d = (if bit d 63 then - uint (dbl_mag d) else uint (dbl_mag d))"

definition dbl_less :: "u64 \<Rightarrow> u64 \<Rightarrow> bool" where
  "dbl_less a b \<longleftrightarrow> \<not> dbl_nan a \<and> \<not> dbl_nan b \<and> dbl_key a < dbl_key b"

section \<open>Data\<close>

datatype mltree = TInt int | TStr "u8 list" | TDbl u64 | TBlock u32 "mltree list"

text \<open>The block \<open>v\<close> is one the primitives look into, with the given header.\<close>

definition block_with :: "u32 \<Rightarrow> 'a mlheap_scheme \<Rightarrow> val \<Rightarrow> u32 \<Rightarrow> nat \<Rightarrow> bool" where
  "block_with at h v tag sz \<longleftrightarrow> Is_block v \<and> in_memory at h v \<and> Tag_val h v = Some tag
     \<and> map_option unat (Wosize_val h v) = Some sz"

fun repr :: "u32 \<Rightarrow> 'a mlheap_scheme \<Rightarrow> val \<Rightarrow> mltree \<Rightarrow> bool"
and repr_fields :: "u32 \<Rightarrow> 'a mlheap_scheme \<Rightarrow> u32 \<Rightarrow> mltree list \<Rightarrow> bool" where
  "repr at h v (TInt n) \<longleftrightarrow> Is_long v \<and> sint (Long_val v) = n"
| "repr at h v (TStr bs) \<longleftrightarrow> block_with at h v String_tag (length bs div 4 + 1)
     \<and> string_length h v = Some (word_of_nat (length bs)) \<and> int (length bs) < 16777212
     \<and> bytes_of h v 0 (length bs) = Some bs"
| "repr at h v (TDbl d) \<longleftrightarrow> block_with at h v Double_tag 2 \<and> Double_val h v = Some d"
| "repr at h v (TBlock tag ts) \<longleftrightarrow> tag < Object_tag \<and> block_with at h v tag (length ts)
     \<and> repr_fields at h v ts"
| "repr_fields at h a [] \<longleftrightarrow> True"
| "repr_fields at h a (t # ts) \<longleftrightarrow>
     (case load h a of None \<Rightarrow> False | Some v \<Rightarrow> repr at h v t) \<and> repr_fields at h (a + 4) ts"

fun tdepth :: "mltree \<Rightarrow> nat" and tdepths :: "mltree list \<Rightarrow> nat" where
  "tdepth (TBlock tag ts) = Suc (tdepths ts)"
| "tdepth t = 0"
| "tdepths [] = 0"
| "tdepths (t # ts) = max (tdepth t) (tdepths ts)"

text \<open>Data without floating-point numbers.\<close>

fun no_float :: "mltree \<Rightarrow> bool" where
  "no_float (TBlock tag ts) \<longleftrightarrow> (\<forall>t \<in> set ts. no_float t)"
| "no_float (TDbl d) \<longleftrightarrow> False"
| "no_float t \<longleftrightarrow> True"

lemma block_not_long: "Is_block v \<Longrightarrow> \<not> Is_long v" "Is_long v \<Longrightarrow> \<not> Is_block v"
  by (simp_all add: Is_block_def Is_long_def)

lemma tags_distinct [simp]:
  "String_tag \<noteq> Double_tag" "Double_tag \<noteq> String_tag" "\<not> String_tag < Object_tag" "\<not> Double_tag < Object_tag"
  by (simp_all add: String_tag_def Double_tag_def Object_tag_def)

lemma tag_other:
  "tag < Object_tag \<Longrightarrow> tag \<notin> {String_tag, Double_tag, Double_array_tag, Abstract_tag, Final_tag, Closure_tag,
    Infix_tag, Object_tag}"
  by (auto simp: String_tag_def Double_tag_def Object_tag_def Double_array_tag_def Abstract_tag_def
      Final_tag_def Closure_tag_def Infix_tag_def)

lemma string_length_inj:
  "a < 16777212 \<Longrightarrow> b < 16777212 \<Longrightarrow> (word_of_nat a :: u32) = word_of_nat b \<longleftrightarrow> a = b"
proof -
  assume "a < 16777212" "b < 16777212"
  then have "unat (word_of_nat a :: u32) = a" "unat (word_of_nat b :: u32) = b" by (simp_all add: unat_word32)
  then show ?thesis by metis
qed

text \<open>Constructor blocks have tags below the special ones.\<close>

fun wf_tree :: "mltree \<Rightarrow> bool" where
  "wf_tree (TBlock tag ts) \<longleftrightarrow> tag < Object_tag \<and> (\<forall>t \<in> set ts. wf_tree t)"
| "wf_tree t \<longleftrightarrow> True"

lemma repr_wf:
  "repr at h v t \<Longrightarrow> wf_tree t"
  "repr_fields at h a ts \<Longrightarrow> \<forall>t \<in> set ts. wf_tree t"
  by (induction at h v t and at h a ts rule: repr_repr_fields.induct) (auto split: option.splits)

text \<open>A word stands for one piece of data only.\<close>

lemma repr_unique:
  "repr at h v t \<Longrightarrow> repr at h v u \<Longrightarrow> t = u"
  "repr_fields at h a ts \<Longrightarrow> repr_fields at h a us \<Longrightarrow> length ts = length us \<Longrightarrow> ts = us"
proof (induction at h v t and at h a ts arbitrary: u and us rule: repr_repr_fields.induct)
  case (1 at h v n)
  then show ?case by (cases u) (auto simp: block_with_def dest: block_not_long)
next
  case (2 at h v bs)
  then show ?case
    by (cases u) (auto simp: block_with_def string_length_inj dest: block_not_long)
next
  case (3 at h v d)
  then show ?case by (cases u) (auto simp: block_with_def dest: block_not_long)
next
  case (4 at h v tag ts)
  then show ?case by (cases u) (auto simp: block_with_def dest: block_not_long)
next
  case (6 at h a t ts)
  then show ?case by (cases us) (auto split: option.splits)
qed simp_all

section \<open>An example memory\<close>

text \<open>
  A heap of 256 bytes at \<open>0x1000\<close>: two tuples \<open>(5, "ab")\<close> at \<open>0x1004\<close> and \<open>0x1018\<close>, the tuple
  \<open>(5, "b")\<close> at \<open>0x102C\<close>, and at \<open>0x1044\<close> a list whose tail is the list itself.
\<close>

definition words_at :: "u32 \<Rightarrow> u32 list \<Rightarrow> mem" where
  "words_at a ws = (\<lambda>x. if x AND 3 = 0 \<and> a \<le> x then rd ws (unat (x - a) div 4) else None)"

definition heap_with :: "mem \<Rightarrow> (u32 \<Rightarrow> bool) \<Rightarrow> mlheap" where
  "heap_with m inh = \<lparr>h_mem = m, young_start = 0, young_end = 0, young_ptr = 0, young_limit = 0, in_heap = inh,
     h_phase = Phase_idle, gray_vals = [], gray_vals_size = 2048, heap_is_pure = True, stat_heap_size = 4096,
     heap_room = True, ref_table = [], ref_table_size = 32, ref_table_reserve = 256, ref_table_limit = 32,
     force_major_slice = False, something_to_do = False, pending_signal = 0, local_roots = [], global_data = 0\<rparr>"

definition heap0 :: mlheap where
  "heap0 = heap_with
     (words_at 0x1000
       [Make_header 2 0 White, Val_int 5, 0x1010, Make_header 1 String_tag White, 0x01006261,
        Make_header 2 0 White, Val_int 5, 0x1024, Make_header 1 String_tag White, 0x01006261,
        Make_header 2 0 White, Val_int 5, 0x1038, Make_header 1 String_tag White, 0x02000062,
        0, Make_header 2 0 White, Val_int 7, 0x1044])
     (\<lambda>a. 0x1000 \<le> a \<and> a < 0x1100)"

lemma heap0_repr:
  "repr 0 heap0 0x1004 (TBlock 0 [TInt 5, TStr [97, 98]])"
  "repr 0 heap0 0x1018 (TBlock 0 [TInt 5, TStr [97, 98]])"
  "repr 0 heap0 0x102C (TBlock 0 [TInt 5, TStr [98]])"
  by code_simp+

end
