(* ===== verification/Compare.thy ===== *)
theory Compare
  imports Mltree
begin

text \<open>
  Structural comparison (\<open>Byterun/compare.c\<close>) and the order it defines on data. The fuel of
  \<open>compare_val\<close> bounds the depth of the recursion: the comparison of data of depth \<open>d\<close> needs \<open>d + 1\<close>;
  on cyclic values the code does not return and every fuel is too little.
\<close>

section \<open>The code\<close>

fun compare_bytes :: "'a mlheap_scheme \<Rightarrow> val \<Rightarrow> val \<Rightarrow> u32 \<Rightarrow> nat \<Rightarrow> u32 option" where
  "compare_bytes h v1 v2 i 0 = Some 0"
| "compare_bytes h v1 v2 i (Suc len) = do {
     c1 \<leftarrow> Byte_u h v1 i;
     c2 \<leftarrow> Byte_u h v2 i;
     if c1 \<noteq> c2 then Some (ucast c1 - ucast c2) else compare_bytes h v1 v2 (i + 1) len
   }"

definition compare_strings :: "'a mlheap_scheme \<Rightarrow> val \<Rightarrow> val \<Rightarrow> u32 option" where
  "compare_strings h v1 v2 = do {
     len1 \<leftarrow> string_length h v1;
     len2 \<leftarrow> string_length h v2;
     r \<leftarrow> compare_bytes h v1 v2 0 (unat (if len1 \<le> len2 then len1 else len2));
     Some (if r \<noteq> 0 then r else len1 - len2)
   }"

definition compare_doubles :: "u64 \<Rightarrow> u64 \<Rightarrow> u32" where
  "compare_doubles d1 d2 = (if dbl_less d1 d2 then - 1 else if dbl_less d2 d1 then 1 else 0)"

fun compare_double_array :: "'a mlheap_scheme \<Rightarrow> u32 \<Rightarrow> u32 \<Rightarrow> nat \<Rightarrow> u32 option" where
  "compare_double_array h p1 p2 0 = Some 0"
| "compare_double_array h p1 p2 (Suc n) = do {
     d1 \<leftarrow> Double_val h p1;
     d2 \<leftarrow> Double_val h p2;
     if compare_doubles d1 d2 \<noteq> 0 then Some (compare_doubles d1 d2)
     else compare_double_array h (p1 + 8) (p2 + 8) n
   }"

fun compare_val :: "nat \<Rightarrow> u32 \<Rightarrow> 'a mlheap_scheme \<Rightarrow> val \<Rightarrow> val \<Rightarrow> (ml_error + u32) option"
and compare_fields :: "nat \<Rightarrow> u32 \<Rightarrow> 'a mlheap_scheme \<Rightarrow> u32 \<Rightarrow> u32 \<Rightarrow> nat \<Rightarrow> (ml_error + u32) option" where
  "compare_val 0 at h v1 v2 = None"
| "compare_val (Suc n) at h v1 v2 =
    (if v1 = v2 then Some (Inr 0)
     else if Is_long v1 then
       Some (Inr (if Is_long v2 then Long_val v1 - Long_val v2 else - 1))
     else if Is_long v2 then Some (Inr 1)
     else if \<not> in_memory at h v1 \<or> \<not> in_memory at h v2 then
       Some (Inr (signed_drop_bit 1 v1 - signed_drop_bit 1 v2))
     else do {
       t1 \<leftarrow> Tag_val h v1;
       t2 \<leftarrow> Tag_val h v2;
       if t1 \<noteq> t2 then Some (Inr (t1 - t2))
       else if t1 = String_tag then map_option Inr (compare_strings h v1 v2)
       else if t1 = Double_tag then do {
         d1 \<leftarrow> Double_val h v1;
         d2 \<leftarrow> Double_val h v2;
         Some (Inr (compare_doubles d1 d2)) }
       else if t1 = Double_array_tag then do {
         w1 \<leftarrow> Wosize_val h v1;
         w2 \<leftarrow> Wosize_val h v2;
         if w1 div 2 \<noteq> w2 div 2 then Some (Inr (w1 div 2 - w2 div 2))
         else map_option Inr (compare_double_array h v1 v2 (unat (w1 div 2))) }
       else if t1 = Abstract_tag \<or> t1 = Final_tag then Some (Inl (Invalid_argument ''equal: abstract value''))
       else if t1 = Closure_tag \<or> t1 = Infix_tag then
         Some (Inl (Invalid_argument ''equal: functional value''))
       else if t1 = Object_tag then do {
         o1 \<leftarrow> Oid_val h v1;
         o2 \<leftarrow> Oid_val h v2;
         Some (Inr (o1 - o2)) }
       else do {
         sz1 \<leftarrow> Wosize_val h v1;
         sz2 \<leftarrow> Wosize_val h v2;
         if sz1 \<noteq> sz2 then Some (Inr (sz1 - sz2)) else compare_fields n at h v1 v2 (unat sz1) }
     })"
| "compare_fields n at h p1 p2 0 = Some (Inr 0)"
| "compare_fields n at h p1 p2 (Suc sz) = do {
     a \<leftarrow> load h p1;
     b \<leftarrow> load h p2;
     if sz = 0 then compare_val n at h a b
     else do {
       r \<leftarrow> compare_val n at h a b;
       if r = Inr 0 then compare_fields n at h (p1 + 4) (p2 + 4) sz else Some r }
   }"

text \<open>The primitives of the language.\<close>

definition cmp_prim ::
  "(int \<Rightarrow> val) \<Rightarrow> nat \<Rightarrow> u32 \<Rightarrow> 'a mlheap_scheme \<Rightarrow> val \<Rightarrow> val \<Rightarrow> (ml_error + val) option" where
  "cmp_prim f n at h v1 v2 = map_option (map_sum id (\<lambda>r. f (sint r))) (compare_val n at h v1 v2)"

definition compare where
  "compare = cmp_prim (\<lambda>res. if res < 0 then Val_int (- 1) else if res > 0 then Val_int 1 else Val_int 0)"
definition equal where "equal = cmp_prim (\<lambda>res. Val_bool (res = 0))"
definition notequal where "notequal = cmp_prim (\<lambda>res. Val_bool (res \<noteq> 0))"
definition lessthan where "lessthan = cmp_prim (\<lambda>res. Val_bool (res < 0))"
definition lessequal where "lessequal = cmp_prim (\<lambda>res. Val_bool (res \<le> 0))"
definition greaterthan where "greaterthan = cmp_prim (\<lambda>res. Val_bool (res > 0))"
definition greaterequal where "greaterequal = cmp_prim (\<lambda>res. Val_bool (res \<ge> 0))"

section \<open>The order on data\<close>

text \<open>
  Integers come first, then blocks by tag; strings are compared byte by byte, a prefix before its
  extensions; blocks of the same tag by size and then field by field from the left; numbers as
  IEEE does, with numbers that are not ordered counting as equal.
\<close>

fun bcmp :: "u8 list \<Rightarrow> u8 list \<Rightarrow> int" where
  "bcmp [] [] = 0"
| "bcmp [] (y # ys) = - 1"
| "bcmp (x # xs) [] = 1"
| "bcmp (x # xs) (y # ys) = (if x = y then bcmp xs ys else sgn (uint x - uint y))"

fun ttag :: "mltree \<Rightarrow> u32" where
  "ttag (TInt n) = 0"
| "ttag (TStr bs) = String_tag"
| "ttag (TDbl d) = Double_tag"
| "ttag (TBlock tag ts) = tag"

fun tcmp :: "mltree \<Rightarrow> mltree \<Rightarrow> int" and tcmps :: "mltree list \<Rightarrow> mltree list \<Rightarrow> int" where
  "tcmp (TInt a) (TInt b) = sgn (a - b)"
| "tcmp (TInt a) t = - 1"
| "tcmp t (TInt b) = 1"
| "tcmp (TStr x) (TStr y) = bcmp x y"
| "tcmp (TDbl x) (TDbl y) = (if dbl_less x y then - 1 else if dbl_less y x then 1 else 0)"
| "tcmp (TBlock tag xs) (TBlock tag' ys) =
    (if tag \<noteq> tag' then sgn (uint tag - uint tag')
     else if length xs \<noteq> length ys then sgn (int (length xs) - int (length ys))
     else tcmps xs ys)"
| "tcmp t u = sgn (uint (ttag t) - uint (ttag u))"
| "tcmps [] [] = 0"
| "tcmps (t # ts) (u # us) = (if tcmp t u \<noteq> 0 then tcmp t u else tcmps ts us)"
| "tcmps [] (u # us) = - 1"
| "tcmps (t # ts) [] = 1"

section \<open>The code computes the order\<close>

lemma sint_sub:
  "- 2147483648 \<le> sint (a::u32) - sint b \<Longrightarrow> sint a - sint b < 2147483648 \<Longrightarrow> sint (a - b) = sint a - sint b"
proof -
  assume a: "- 2147483648 \<le> sint a - sint b" "sint a - sint b < 2147483648"
  have "sint (a - b) = i32 (sint a - sint b)" by (simp add: i32_sint)
  then show ?thesis using a by (simp add: i32_id)
qed

lemma sint_diff:
  assumes "unat (a::u32) < 2147483648" "unat b < 2147483648"
  shows "sint (a - b) = int (unat a) - int (unat b)"
proof -
  have "sint a = int (unat a)" "sint b = int (unat b)" using assms by (simp_all only: sint32_small)
  then show ?thesis using sint_sub[of a b] assms by linarith
qed

lemma sgn_diff:
  assumes "unat (a::u32) < 2147483648" "unat b < 2147483648"
  shows "sgn (sint (a - b)) = sgn (int (unat a) - int (unat b))"
  using sint_diff[OF assms] by simp

lemma byte_diff: "sgn (sint (ucast (a::u8) - ucast (b::u8) :: u32)) = sgn (uint a - uint b)"
proof -
  have "unat (ucast a :: u32) = unat a" "unat (ucast b :: u32) = unat b" by (rule unat_ucast8)+
  then show ?thesis
    using sgn_diff[of "ucast a" "ucast b"] unat8_less[of a] unat8_less[of b] by simp
qed

lemma Long_val_range: "- 1073741824 \<le> sint (Long_val v)" "sint (Long_val v) < 1073741824"
  using sint32_bounds[of v] by (simp_all add: sint_Long_val)

lemma compare_bytes_bcmp:
  "bytes_of h v1 i n1 = Some xs \<Longrightarrow> bytes_of h v2 i n2 = Some ys \<Longrightarrow>
   \<exists>r. compare_bytes h v1 v2 i (min n1 n2) = Some r
     \<and> bcmp xs ys = (if r \<noteq> 0 then sgn (sint r) else sgn (int n1 - int n2))"
proof (induction n1 arbitrary: n2 i xs ys)
  case 0
  then show ?case by (cases n2) (auto split: bind_splits)
next
  case (Suc n1)
  show ?case
  proof (cases n2)
    case 0
    then show ?thesis using Suc.prems by (auto split: bind_splits)
  next
    case (Suc m)
    obtain b bs c cs where b: "Byte_u h v1 i = Some b" "bytes_of h v1 (i + 1) n1 = Some bs" "xs = b # bs"
      and c: "Byte_u h v2 i = Some c" "bytes_of h v2 (i + 1) m = Some cs" "ys = c # cs"
      using Suc.prems Suc by (auto split: bind_splits)
    obtain r where "compare_bytes h v1 v2 (i + 1) (min n1 m) = Some r"
      "bcmp bs cs = (if r \<noteq> 0 then sgn (sint r) else sgn (int n1 - int m))"
      using Suc.IH[OF b(2) c(2)] by blast
    moreover have "ucast b - ucast c \<noteq> (0::u32)" if "b \<noteq> c"
      using that by (simp add: word_unat_eq_iff[of b c] word_unat_eq_iff[of "ucast b"] unat_ucast8)
    ultimately show ?thesis using b c Suc byte_diff[of b c] by simp
  qed
qed

lemma sgn_sgn_int [simp]: "sgn (if P then a else b :: int) = (if P then sgn a else sgn b)"
  by simp

lemma compare_strings_bcmp:
  assumes "repr at h v1 (TStr xs)" "repr at h v2 (TStr ys)"
  shows "\<exists>r. compare_strings h v1 v2 = Some r \<and> sgn (sint r) = bcmp xs ys"
proof -
  let ?a = "word_of_nat (length xs) :: u32" and ?b = "word_of_nat (length ys) :: u32"
  have l: "unat ?a = length xs" "unat ?b = length ys" "string_length h v1 = Some ?a" "string_length h v2 = Some ?b"
    and s: "length xs < 16777212" "length ys < 16777212"
    and bs: "bytes_of h v1 0 (length xs) = Some xs" "bytes_of h v2 0 (length ys) = Some ys"
    using assms by (simp_all add: unat_of_nat)
  have m: "unat (if ?a \<le> ?b then ?a else ?b) = min (length xs) (length ys)"
    using l(1,2) by (simp add: word_le_nat_alt)
  obtain r where "compare_bytes h v1 v2 0 (min (length xs) (length ys)) = Some r"
    "bcmp xs ys = (if r \<noteq> 0 then sgn (sint r) else sgn (int (length xs) - int (length ys)))"
    using compare_bytes_bcmp[OF bs] by blast
  moreover have "sgn (sint (?a - ?b)) = sgn (int (length xs) - int (length ys))"
    using sgn_diff[of ?a ?b] s unfolding l(1,2) by simp
  ultimately show ?thesis using l(3,4) unfolding compare_strings_def m[symmetric] by auto
qed

lemma bcmp_refl [simp]: "bcmp xs xs = 0" by (induction xs) auto

lemma dbl_less_irrefl [simp]: "\<not> dbl_less d d" by (simp add: dbl_less_def)

lemma tcmp_refl [simp]: "tcmp t t = 0" "tcmps ts ts = 0"
  by (induction t and ts rule: tdepth_tdepths.induct) auto

lemma tag_range: "tag < Object_tag \<Longrightarrow> unat tag < 248"
  by (simp add: Object_tag_def word_less_nat_alt)

lemma leaf_tag: "repr at h v t \<Longrightarrow> \<not> Is_long v \<Longrightarrow> Tag_val h v = Some (ttag t) \<and> unat (ttag t) < 256
    \<and> in_memory at h v"
  using tag_range[of "ttag t"]
  by (cases t) (auto simp: block_with_def String_tag_def Double_tag_def)

lemma tcmp_tags: "repr at h v t \<Longrightarrow> repr at h w u \<Longrightarrow> \<not> Is_long v \<Longrightarrow> \<not> Is_long w \<Longrightarrow> ttag t \<noteq> ttag u \<Longrightarrow>
    tcmp t u = sgn (uint (ttag t) - uint (ttag u))"
  by (cases t; cases u) auto

lemma repr_int: "repr at h v t \<Longrightarrow> Is_long v \<longleftrightarrow> (\<exists>n. t = TInt n)"
  by (cases t) (auto simp: block_with_def block_not_long)

lemma compare_unlike:
  assumes v: "repr at h v t" and w: "repr at h w u" and d: "Is_long v \<or> Is_long w \<or> ttag t \<noteq> ttag u"
  shows "\<exists>r. compare_val (Suc n) at h v w = Some (Inr r) \<and> sgn (sint r) = tcmp t u"
proof (cases "v = w")
  case True
  then show ?thesis using repr_unique(1)[OF v] w by simp
next
  case False
  consider "Is_long v" "Is_long w" | "Is_long v" "\<not> Is_long w" | "\<not> Is_long v" "Is_long w"
    | "\<not> Is_long v" "\<not> Is_long w" "ttag t \<noteq> ttag u" using d by blast
  then show ?thesis
  proof cases
    case 1
    then obtain x y where "t = TInt x" "u = TInt y" using repr_int[OF v] repr_int[OF w] by blast
    moreover from this have "sint (Long_val v - Long_val w) = x - y"
      using v w Long_val_range[of v] Long_val_range[of w] by (subst sint_sub) auto
    ultimately show ?thesis using 1 False by simp
  next
    case 2
    then obtain x where "t = TInt x" using repr_int[OF v] by blast
    moreover have "\<nexists>y. u = TInt y" using 2 repr_int[OF w] by blast
    ultimately show ?thesis using 2 False by (cases u) auto
  next
    case 3
    then obtain x where "u = TInt x" using repr_int[OF w] by blast
    moreover have "\<nexists>y. t = TInt y" using 3 repr_int[OF v] by blast
    ultimately show ?thesis using 3 False by (cases t) auto
  next
    case 4
    note l = leaf_tag[OF v 4(1)] leaf_tag[OF w 4(2)]
    have "sgn (sint (ttag t - ttag u)) = sgn (int (unat (ttag t)) - int (unat (ttag u)))"
      using l by (intro sgn_diff) simp_all
    then show ?thesis using 4 False l tcmp_tags[OF v w 4] by simp
  qed
qed

lemma compare_same_tag:
  assumes "v \<noteq> w" "\<not> Is_long v" "\<not> Is_long w" "in_memory at h v" "in_memory at h w"
    and "Tag_val h v = Some tag" "Tag_val h w = Some tag"
  shows "tag = String_tag \<Longrightarrow> compare_val (Suc n) at h v w = map_option Inr (compare_strings h v w)"
    and "tag = Double_tag \<Longrightarrow> Double_val h v = Some d \<Longrightarrow> Double_val h w = Some e \<Longrightarrow>
      compare_val (Suc n) at h v w = Some (Inr (compare_doubles d e))"
    and "tag < Object_tag \<Longrightarrow> Wosize_val h v = Some a \<Longrightarrow> Wosize_val h w = Some b \<Longrightarrow>
      compare_val (Suc n) at h v w =
        (if a \<noteq> b then Some (Inr (a - b)) else compare_fields n at h v w (unat a))"
  using assms tag_other[of tag] by simp_all

lemma Wosize_val_less: "Wosize_val h v = Some a \<Longrightarrow> unat a < 4194304"
proof -
  assume "Wosize_val h v = Some a"
  then have "\<exists>w. a = drop_bit 10 w" by (auto simp: Wosize_val_def Wosize_hd_def)
  then obtain w :: u32 where "unat a = unat w div 1024"
    by (auto simp: Wosize_val_def Wosize_hd_def unat_drop_bit32)
  then show ?thesis using unat32_less[of w] by simp
qed

theorem compare_val_tcmp:
  "repr at h v t \<Longrightarrow> repr at h w u \<Longrightarrow> tdepth t < n \<Longrightarrow>
     \<exists>r. compare_val n at h v w = Some (Inr r) \<and> sgn (sint r) = tcmp t u"
  "repr_fields at h a ts \<Longrightarrow> repr_fields at h b us \<Longrightarrow> length ts = length us \<Longrightarrow> ts = [] \<or> tdepths ts < n \<Longrightarrow>
     \<exists>r. compare_fields n at h a b (length ts) = Some (Inr r) \<and> sgn (sint r) = tcmps ts us"
proof (induction at h v t and at h a ts arbitrary: w u n and b us n rule: repr_repr_fields.induct)
  case (1 at h v x)
  then show ?case using compare_unlike[OF 1(1,2)] by (cases n) auto
next
  case (2 at h v x)
  obtain m where n: "n = Suc m" using "2.prems"(3) by (cases n) auto
  show ?case
  proof (cases "Is_long v \<or> Is_long w \<or> ttag (TStr x) \<noteq> ttag u \<or> v = w")
    case True
    then show ?thesis using compare_unlike[OF 2(1,2)] repr_unique(1)[OF 2(1)] "2.prems"(2) n by auto
  next
    case False
    then obtain y where u: "u = TStr y" using 2(2) repr_int[OF 2(2)] by (cases u) (auto dest: leaf_tag)
    have "compare_val n at h v w = map_option Inr (compare_strings h v w)"
      unfolding n using False "2.prems" u by (intro compare_same_tag(1)) (auto simp: block_with_def)
    then show ?thesis using compare_strings_bcmp "2.prems"(1,2) unfolding u by fastforce
  qed
next
  case (3 at h v d)
  obtain m where n: "n = Suc m" using "3.prems"(3) by (cases n) auto
  show ?case
  proof (cases "Is_long v \<or> Is_long w \<or> ttag (TDbl d) \<noteq> ttag u \<or> v = w")
    case True
    then show ?thesis using compare_unlike[OF 3(1,2)] repr_unique(1)[OF 3(1)] "3.prems"(2) n by auto
  next
    case False
    then obtain e where u: "u = TDbl e" using 3(2) repr_int[OF 3(2)] by (cases u) (auto dest: leaf_tag)
    have "compare_val n at h v w = Some (Inr (compare_doubles d e))"
      unfolding n using False "3.prems" u by (intro compare_same_tag(2)) (auto simp: block_with_def)
    then show ?thesis unfolding u by (simp add: compare_doubles_def)
  qed
next
  case (4 at h v tag ts)
  obtain m where n: "n = Suc m" using "4.prems"(3) by (cases n) auto
  show ?case
  proof (cases "Is_long v \<or> Is_long w \<or> ttag (TBlock tag ts) \<noteq> ttag u \<or> v = w")
    case True
    then show ?thesis using compare_unlike[OF "4.prems"(1,2)] repr_unique(1)[OF "4.prems"(1)] "4.prems"(2) n by auto
  next
    case False
    have tag: "tag < Object_tag" using "4.prems"(1) by simp
    obtain us where u: "u = TBlock tag us"
      using False "4.prems"(2) repr_int[OF "4.prems"(2)] tag by (cases u) auto
    obtain x y where x: "Wosize_val h v = Some x" "unat x = length ts" and y: "Wosize_val h w = Some y" "unat y = length us"
      using "4.prems"(1,2) u by (auto simp: block_with_def)
    have c: "compare_val n at h v w = (if x \<noteq> y then Some (Inr (x - y)) else compare_fields m at h v w (unat x))"
      unfolding n using False "4.prems" u x y tag by (intro compare_same_tag(3)) (auto simp: block_with_def)
    show ?thesis
    proof (cases "x = y")
      case True
      then have "length ts = length us" using x y by simp
      then have "\<exists>r. compare_fields m at h v w (length ts) = Some (Inr r) \<and> sgn (sint r) = tcmps ts us"
        using "4.IH"[of w us m] "4.prems" u n tag by auto
      then show ?thesis using c True x y u by simp
    next
      case ne: False
      then have "sgn (sint (x - y)) = sgn (int (length ts) - int (length us))"
        using sgn_diff[of x y] Wosize_val_less[OF x(1)] Wosize_val_less[OF y(1)] x y by simp
      then show ?thesis using c ne x y u by (auto simp: word_unat_eq_iff)
    qed
  qed
next
  case (5 at h a)
  then show ?case by simp
next
  case (6 at h a t ts)
  then obtain u us' where us: "us = u # us'" by (cases us) auto
  obtain v w where v: "load h a = Some v" "repr at h v t" and w: "load h b = Some w" "repr at h w u"
    using "6.prems" us by (auto split: option.splits)
  obtain r where r: "compare_val n at h v w = Some (Inr r)" "sgn (sint r) = tcmp t u"
    using "6.IH"(1)[OF v(1) v(2) w(2)] "6.prems" by auto
  obtain r' where "compare_fields n at h (a + 4) (b + 4) (length ts) = Some (Inr r')" "sgn (sint r') = tcmps ts us'"
    using "6.IH"(2)[of "b + 4" us' n] "6.prems" us by auto
  then show ?case using r v w us "6.prems"(3) by (cases "ts = []") (auto simp: sgn_0_0 signed_eq_0_iff)
qed

section \<open>The order is total\<close>

lemma uint_eq_iff: "uint (x::'a::len word) = uint y \<longleftrightarrow> x = y"
  by (simp add: word_uint_eq_iff)

lemma bcmp_antisym: "bcmp ys xs = - bcmp xs ys"
  by (induction xs ys rule: bcmp.induct) (auto simp: sgn_if)

lemma bcmp_eq: "bcmp xs ys = 0 \<longleftrightarrow> xs = ys"
  by (induction xs ys rule: bcmp.induct) (auto simp: sgn_0_0 uint_eq_iff)

lemma bcmp_trans: "bcmp xs ys \<le> 0 \<Longrightarrow> bcmp ys zs \<le> 0 \<Longrightarrow> bcmp xs zs \<le> 0"
proof (induction xs ys arbitrary: zs rule: bcmp.induct)
  case 1 then show ?case by simp
next
  case (2 y ys) then show ?case by (cases zs) auto
next
  case (3 x xs) then show ?case by simp
next
  case (4 x xs y ys)
  then show ?case by (cases zs) (auto simp: sgn_if uint_eq_iff split: if_splits)
qed

lemma dbl_less_asym: "dbl_less d e \<Longrightarrow> \<not> dbl_less e d"
  by (simp add: dbl_less_def)

lemma tcmp_antisym: "tcmp u t = - tcmp t u" "tcmps us ts = - tcmps ts us"
  by (induction t u and ts us rule: tcmp_tcmps.induct)
    (auto simp: sgn_if intro: bcmp_antisym dest: dbl_less_asym)

lemma tcmp_eq:
  "no_float t \<Longrightarrow> no_float u \<Longrightarrow> wf_tree t \<Longrightarrow> wf_tree u \<Longrightarrow> tcmp t u = 0 \<longleftrightarrow> t = u"
  "\<forall>t \<in> set ts. no_float t \<Longrightarrow> \<forall>u \<in> set us. no_float u \<Longrightarrow> \<forall>t \<in> set ts. wf_tree t \<Longrightarrow>
    \<forall>u \<in> set us. wf_tree u \<Longrightarrow> tcmps ts us = 0 \<longleftrightarrow> ts = us"
  by (induction t u and ts us rule: tcmp_tcmps.induct) (auto simp: sgn_0_0 bcmp_eq uint_eq_iff)

lemma tcmps_trans:
  assumes "\<And>t u s. t \<in> set ts \<Longrightarrow> u \<in> set us \<Longrightarrow> s \<in> set ss \<Longrightarrow> tcmp t u \<le> 0 \<Longrightarrow> tcmp u s \<le> 0 \<Longrightarrow> tcmp t s \<le> 0"
    and "\<forall>t \<in> set ts \<union> set us \<union> set ss. no_float t \<and> wf_tree t"
    and "length ts = length us" "length us = length ss" "tcmps ts us \<le> 0" "tcmps us ss \<le> 0"
  shows "tcmps ts ss \<le> 0"
  using assms
proof (induction ts arbitrary: us ss)
  case Nil
  then show ?case by simp
next
  case (Cons t ts)
  obtain u us' s ss' where e: "us = u # us'" "ss = s # ss'"
    using Cons.prems(3,4) by (cases us; cases ss) auto
  have le: "tcmp t u \<le> 0" "tcmp u s \<le> 0" using Cons.prems(5,6) e by (auto split: if_splits)
  have ts: "tcmp t s \<le> 0" using Cons.prems(1)[of t u s] le e by simp
  have eq: "tcmp t s = 0 \<longleftrightarrow> t = s" "tcmp t u = 0 \<longleftrightarrow> t = u" "tcmp u s = 0 \<longleftrightarrow> u = s"
    using tcmp_eq(1)[of t s] tcmp_eq(1)[of t u] tcmp_eq(1)[of u s] Cons.prems(2) e by simp_all
  show ?case
  proof (cases "tcmp t s = 0")
    case False
    then show ?thesis using ts e by simp
  next
    case True
    then have "tcmp u t \<le> 0" using eq le by simp
    then have "tcmp t u = 0" using tcmp_antisym(1)[of t u] le by linarith
    then have tu: "t = u" "u = s" using eq True by auto
    have "tcmps ts ss' \<le> 0"
    proof (rule Cons.IH[of us' ss'])
      show "tcmp x z \<le> 0" if "x \<in> set ts" "y \<in> set us'" "z \<in> set ss'" "tcmp x y \<le> 0" "tcmp y z \<le> 0" for x y z
        using Cons.prems(1)[of x y z] that e by simp
    qed (use Cons.prems(2-6) e tu in \<open>auto split: if_splits\<close>)
    then show ?thesis using True e tu by simp
  qed
qed

lemma tcmp_trans:
  "no_float t \<and> wf_tree t \<Longrightarrow> no_float u \<and> wf_tree u \<Longrightarrow> no_float s \<and> wf_tree s \<Longrightarrow>
    tcmp t u \<le> 0 \<Longrightarrow> tcmp u s \<le> 0 \<Longrightarrow> tcmp t s \<le> 0"
proof (induction t arbitrary: u s)
  case (TInt x)
  then show ?case by (cases u; cases s) (auto simp: sgn_if split: if_splits)
next
  case (TStr x)
  then show ?case
    by (cases u; cases s) (auto simp: sgn_if uint_eq_iff word_less_def Object_tag_def String_tag_def intro: bcmp_trans split: if_splits)
next
  case (TDbl d)
  then show ?case by simp
next
  case (TBlock tag ts)
  have i: "tcmp t s \<le> 0" if "t \<in> set ts" "u \<in> set us" "s \<in> set ss" "tcmp t u \<le> 0" "tcmp u s \<le> 0"
    "\<forall>x \<in> set us \<union> set ss. no_float x \<and> wf_tree x" for t u s us ss
    using TBlock.IH[OF that(1), of u s] TBlock.prems(1) that by auto
  show ?case
  proof (cases "(\<exists>us. u = TBlock tag us \<and> length us = length ts) \<and> (\<exists>ss. s = TBlock tag ss \<and> length ss = length ts)")
    case True
    then obtain us ss where e: "u = TBlock tag us" "length us = length ts" "s = TBlock tag ss" "length ss = length ts"
      by blast
    have "tcmps ts ss \<le> 0"
    proof (rule tcmps_trans[of ts us ss])
      show "tcmp x z \<le> 0" if "x \<in> set ts" "y \<in> set us" "z \<in> set ss" "tcmp x y \<le> 0" "tcmp y z \<le> 0" for x y z
        using i[OF that] TBlock.prems(2,3) e by auto
    qed (use TBlock.prems e in auto)
    then show ?thesis using e by simp
  next
    case False
    then show ?thesis using TBlock.prems
      by (cases u; cases s)
        (auto simp: sgn_if uint_eq_iff word_less_def Object_tag_def String_tag_def split: if_splits)
  qed
qed

section \<open>The primitives\<close>

lemma structural_comparison_equal:
  assumes "repr at h v t" "repr at h w u" "tdepth t < n"
  shows "equal n at h v w = Some (Inr (Val_bool (tcmp t u = 0)))"
proof -
  obtain r where r: "compare_val n at h v w = Some (Inr r)" "sgn (sint r) = tcmp t u"
    using compare_val_tcmp(1)[OF assms] by blast
  have "sint r = 0 \<longleftrightarrow> tcmp t u = 0" using r(2) by (metis sgn_0_0)
  then show ?thesis using r(1) by (simp add: equal_def cmp_prim_def)
qed

text \<open>
  C30. Structural comparison. On words that stand for data made of integers, strings, floating-point
  numbers and constructor blocks, wherever these are in memory, \<open>compare_val\<close> returns and the seven
  primitives of the language answer according to the order \<open>tcmp\<close> on the data. On data without
  floating-point numbers this is a total order whose equality is equality of the data: \<open>equal\<close>
  answers true exactly for equal data, the order is antisymmetric and transitive.
\<close>

theorem structural_comparison:
  assumes v: "repr at h v t" and w: "repr at h w u" and x: "repr at h x s" and n: "tdepth t < n"
  shows "compare n at h v w = Some (Inr (Val_int (tcmp t u)))
     \<and> equal n at h v w = Some (Inr (Val_bool (tcmp t u = 0)))
     \<and> notequal n at h v w = Some (Inr (Val_bool (tcmp t u \<noteq> 0)))
     \<and> lessthan n at h v w = Some (Inr (Val_bool (tcmp t u < 0)))
     \<and> lessequal n at h v w = Some (Inr (Val_bool (tcmp t u \<le> 0)))
     \<and> greaterthan n at h v w = Some (Inr (Val_bool (tcmp t u > 0)))
     \<and> greaterequal n at h v w = Some (Inr (Val_bool (tcmp t u \<ge> 0)))
     \<and> tcmp u t = - tcmp t u
     \<and> (no_float t \<and> no_float u \<and> no_float s \<longrightarrow>
          (tcmp t u = 0 \<longleftrightarrow> t = u) \<and> (tcmp t u \<le> 0 \<longrightarrow> tcmp u s \<le> 0 \<longrightarrow> tcmp t s \<le> 0))"
proof -
  obtain r where r: "compare_val n at h v w = Some (Inr r)" "sgn (sint r) = tcmp t u"
    using compare_val_tcmp(1)[OF v w n] by blast
  have s: "tcmp t u = (if sint r = 0 then 0 else if 0 < sint r then 1 else - 1)"
    using r(2) by (simp add: sgn_if)
  have p: "cmp_prim f n at h v w = Some (Inr (f (sint r)))" for f by (simp add: cmp_prim_def r)
  have 1: "compare n at h v w = Some (Inr (Val_int (tcmp t u)))"
    unfolding compare_def p s by auto
  have 2: "equal n at h v w = Some (Inr (Val_bool (tcmp t u = 0)))"
    "notequal n at h v w = Some (Inr (Val_bool (tcmp t u \<noteq> 0)))"
    "lessthan n at h v w = Some (Inr (Val_bool (tcmp t u < 0)))"
    "lessequal n at h v w = Some (Inr (Val_bool (tcmp t u \<le> 0)))"
    "greaterthan n at h v w = Some (Inr (Val_bool (tcmp t u > 0)))"
    "greaterequal n at h v w = Some (Inr (Val_bool (tcmp t u \<ge> 0)))"
    unfolding equal_def notequal_def lessthan_def lessequal_def greaterthan_def greaterequal_def p s by auto
  have "no_float t \<and> no_float u \<and> no_float s \<longrightarrow>
      (tcmp t u = 0 \<longleftrightarrow> t = u) \<and> (tcmp t u \<le> 0 \<longrightarrow> tcmp u s \<le> 0 \<longrightarrow> tcmp t s \<le> 0)"
    using tcmp_eq(1)[of t u] tcmp_trans[of t u s] repr_wf(1)[OF v] repr_wf(1)[OF w] repr_wf(1)[OF x] by blast
  then show ?thesis using 1 2 tcmp_antisym(1) by blast
qed

theorem structural_comparison_witness:
  "compare 3 0 heap0 0x1004 0x1018 = Some (Inr (Val_int 0))
   \<and> lessthan 3 0 heap0 0x1004 0x102C = Some (Inr (Val_bool True))
   \<and> greaterthan 3 0 heap0 0x102C 0x1018 = Some (Inr (Val_bool True))"
  using structural_comparison[OF heap0_repr, of 3]
    structural_comparison[OF heap0_repr(1,3,2), of 3]
    structural_comparison[OF heap0_repr(3,2,1), of 3]
  by simp

end
