(* ===== verification/Hash.thy ===== *)
theory Hash
  imports Compare
begin

text \<open>
  The polymorphic hash function (\<open>Byterun/hash.c\<close>). The three static variables of the file are the
  record \<open>hash_state\<close>; the fuel bounds the depth of the recursion. Two results: words that stand for
  the same data have the same hash, and hashing returns on every well-formed memory, cyclic values
  included, as soon as the fuel exceeds the limit on visited nodes.
\<close>

section \<open>The code\<close>

record hash_state =
  hash_accu :: u32
  hash_univ_limit :: u32
  hash_univ_count :: u32

definition Combine :: "u32 \<Rightarrow> hash_state \<Rightarrow> hash_state" where
  "Combine x st = st\<lparr>hash_accu := hash_accu st * 65599 + x\<rparr>"

definition Combine_small :: "u32 \<Rightarrow> hash_state \<Rightarrow> hash_state" where
  "Combine_small x st = st\<lparr>hash_accu := hash_accu st * 19 + x\<rparr>"

definition count_node :: "hash_state \<Rightarrow> hash_state" where
  "count_node st = st\<lparr>hash_univ_count := hash_univ_count st - 1\<rparr>"

fun hash_bytes :: "'a mlheap_scheme \<Rightarrow> val \<Rightarrow> u32 \<Rightarrow> nat \<Rightarrow> hash_state \<Rightarrow> hash_state option" where
  "hash_bytes h v p 0 st = Some st"
| "hash_bytes h v p (Suc i) st = do { b \<leftarrow> Byte_u h v p; hash_bytes h v (p + 1) i (Combine_small (ucast b) st) }"

fun hash_doubles :: "'a mlheap_scheme \<Rightarrow> val \<Rightarrow> u32 \<Rightarrow> nat \<Rightarrow> hash_state \<Rightarrow> hash_state option" where
  "hash_doubles h v j 0 st = Some st"
| "hash_doubles h v j (Suc n) st = do { st \<leftarrow> hash_bytes h v j 8 st; hash_doubles h v (j + 8) n st }"

fun hash_aux :: "nat \<Rightarrow> u32 \<Rightarrow> 'a mlheap_scheme \<Rightarrow> val \<Rightarrow> hash_state \<Rightarrow> hash_state option"
and hash_fields :: "nat \<Rightarrow> u32 \<Rightarrow> 'a mlheap_scheme \<Rightarrow> val \<Rightarrow> nat \<Rightarrow> hash_state \<Rightarrow> hash_state option" where
  "hash_aux 0 at h obj st = None"
| "hash_aux (Suc n) at h obj st =
    (let st = st\<lparr>hash_univ_limit := hash_univ_limit st - 1\<rparr> in
     if sint (hash_univ_count st) < 0 \<or> sint (hash_univ_limit st) < 0 then Some st
     else if Is_long obj then Some (Combine (Long_val obj) (count_node st))
     else if in_memory at h obj then do {
       tag \<leftarrow> Tag_val h obj;
       if tag = String_tag then do {
         i \<leftarrow> string_length h obj;
         hash_bytes h obj 0 (unat i) (count_node st) }
       else if tag = Double_tag then hash_bytes h obj 0 8 (count_node st)
       else if tag = Double_array_tag then do {
         sz \<leftarrow> Bosize_val h obj;
         hash_doubles h obj 0 ((unat sz + 7) div 8) (count_node st) }
       else if tag = Abstract_tag \<or> tag = Final_tag then Some st
       else if tag = Infix_tag then do {
         hdr \<leftarrow> Hd_val h obj;
         hash_aux n at h (obj - Infix_offset_hd hdr) st }
       else if tag = Object_tag then do {
         oid \<leftarrow> Oid_val h obj;
         Some (Combine oid (count_node st)) }
       else do {
         sz \<leftarrow> Wosize_val h obj;
         hash_fields n at h obj (unat sz) (Combine_small tag (count_node st)) }
     } else Some (Combine obj st))"
| "hash_fields n at h obj 0 st = Some st"
| "hash_fields n at h obj (Suc i) st = do {
     v \<leftarrow> Field_get h obj (word_of_nat i);
     st \<leftarrow> hash_aux n at h v st;
     hash_fields n at h obj i st
   }"

definition hash_univ_param :: "nat \<Rightarrow> u32 \<Rightarrow> val \<Rightarrow> val \<Rightarrow> val \<Rightarrow> 'a mlheap_scheme \<Rightarrow> val option" where
  "hash_univ_param n at cnt lim obj h = do {
     st \<leftarrow> hash_aux n at h obj
             \<lparr>hash_accu = 0, hash_univ_limit = Long_val lim, hash_univ_count = Long_val cnt\<rparr>;
     Some (Val_long (hash_accu st AND 0x3FFFFFFF))
   }"

section \<open>The hash of data\<close>

fun thash :: "mltree \<Rightarrow> hash_state \<Rightarrow> hash_state" and thashs :: "mltree list \<Rightarrow> hash_state \<Rightarrow> hash_state" where
  "thash t st =
    (let st = st\<lparr>hash_univ_limit := hash_univ_limit st - 1\<rparr> in
     if sint (hash_univ_count st) < 0 \<or> sint (hash_univ_limit st) < 0 then st
     else case t of
       TInt n \<Rightarrow> Combine (word_of_int n) (count_node st)
     | TStr bs \<Rightarrow> fold (\<lambda>b. Combine_small (ucast b)) bs (count_node st)
     | TDbl d \<Rightarrow> st
     | TBlock tag ts \<Rightarrow> thashs ts (Combine_small tag (count_node st)))"
| "thashs [] st = st"
| "thashs (t # ts) st = thash t (thashs ts st)"

lemma hash_bytes_fold:
  "bytes_of h v p n = Some bs \<Longrightarrow> hash_bytes h v p n st = Some (fold (\<lambda>b. Combine_small (ucast b)) bs st)"
  by (induction n arbitrary: p bs st) (auto split: bind_splits)

declare thash.simps [simp del]

lemma repr_fields_nth:
  "repr_fields at h a ts \<Longrightarrow> i < length ts \<Longrightarrow> \<exists>v. load h (a + 4 * word_of_nat i) = Some v \<and> repr at h v (ts ! i)"
proof (induction ts arbitrary: a i)
  case (Cons t ts)
  show ?case
  proof (cases i)
    case 0
    then show ?thesis using Cons.prems by (auto split: option.splits)
  next
    case (Suc j)
    then show ?thesis using Cons.IH[of "a + 4" j] Cons.prems by (simp add: algebra_simps)
  qed
qed simp

lemma thashs_snoc: "thashs (ts @ [t]) st = thashs ts (thash t st)"
  by (induction ts) simp_all

lemma hash_fields_thashs:
  assumes "\<And>t v st. t \<in> set ts \<Longrightarrow> repr at h v t \<Longrightarrow> hash_aux n at h v st = Some (thash t st)"
    and "repr_fields at h v ts" "i \<le> length ts"
  shows "hash_fields n at h v i st = Some (thashs (take i ts) st)"
  using assms(3)
proof (induction i arbitrary: st)
  case (Suc i)
  obtain w where "load h (v + 4 * word_of_nat i) = Some w" "repr at h w (ts ! i)"
    using repr_fields_nth[OF assms(2), of i] Suc.prems by auto
  then show ?case
    using Suc assms(1)[of "ts ! i" w st]
    by (simp add: Field_get_def Field_addr_def take_Suc_conv_app_nth thashs_snoc)
qed simp

lemma tdepths_less: "t \<in> set ts \<Longrightarrow> tdepth t \<le> tdepths ts"
  by (induction ts) auto

lemma hash_aux_thash:
  "repr at h v t \<Longrightarrow> no_float t \<Longrightarrow> tdepth t < n \<Longrightarrow> hash_aux n at h v st = Some (thash t st)"
proof (induction t arbitrary: v n st)
  case (TInt x)
  then obtain m where n: "n = Suc m" by (cases n) auto
  have "word_of_int x = Long_val v" using TInt by auto
  then show ?case using TInt n by (simp add: thash.simps Let_def)
next
  case (TStr bs)
  then obtain m where n: "n = Suc m" by (cases n) auto
  have b: "hash_bytes h v 0 (length bs) st = Some (fold (\<lambda>b. Combine_small (ucast b)) bs st)" for st
    using TStr by (intro hash_bytes_fold) simp
  have "\<not> Is_long v" "unat (word_of_nat (length bs) :: u32) = length bs"
    using TStr by (auto simp: block_with_def block_not_long unat_of_nat)
  then show ?case using TStr n by (simp add: thash.simps Let_def block_with_def b)
next
  case (TDbl d)
  then show ?case by simp
next
  case (TBlock tag ts)
  then obtain m where n: "n = Suc m" by (cases n) auto
  have tag: "tag < Object_tag" using TBlock by simp
  obtain sz where sz: "Wosize_val h v = Some sz" "unat sz = length ts"
    using TBlock.prems by (auto simp: block_with_def)
  have f: "hash_fields m at h v (length ts) st = Some (thashs ts st)" for st
  proof -
    have "hash_aux m at h w s = Some (thash t s)" if "t \<in> set ts" "repr at h w t" for t w s
      using TBlock.IH[OF that(1,2), of m s] TBlock.prems(2,3) n tdepths_less[OF that(1)] that by simp
    then show ?thesis using hash_fields_thashs[of ts at h m v "length ts" st] TBlock.prems(1) by simp
  qed
  have "\<not> Is_long v" using TBlock by (auto simp: block_with_def block_not_long)
  then show ?case using TBlock.prems(1) n sz f tag_other[OF tag]
    by (simp add: thash.simps Let_def block_with_def)
qed

text \<open>
  C31. Hashing agrees with equality. If \<open>equal\<close> answers true on two words that stand for data without
  floating-point numbers, \<open>hash_univ_param\<close> returns the same hash for both, whatever its two limits
  and wherever the data are in memory; the hash is an integer between 0 and 2^30.
\<close>

theorem hash_respects_equal:
  assumes "repr at h v t" "repr at h w u" "no_float t" "no_float u" "tdepth t < n"
    and "equal n at h v w = Some (Inr (Val_bool True))"
  shows "\<exists>r. hash_univ_param n at cnt lim v h = Some (Val_int r)
     \<and> hash_univ_param n at cnt lim w h = Some (Val_int r) \<and> 0 \<le> r \<and> r < 1073741824"
proof -
  have "Val_bool (tcmp t u = 0) = Val_bool True"
    using structural_comparison_equal[OF assms(1,2,5)] assms(6) by simp
  then have "tcmp t u = 0" by (cases "tcmp t u = 0") (simp_all add: Val_bool_def Val_long_def)
  then have u: "u = t" using tcmp_eq(1)[OF assms(3,4)] repr_wf(1)[OF assms(1)] repr_wf(1)[OF assms(2)] by simp
  define st where "st = thash t \<lparr>hash_accu = 0, hash_univ_limit = Long_val lim, hash_univ_count = Long_val cnt\<rparr>"
  let ?r = "hash_accu st AND 0x3FFFFFFF"
  have "hash_univ_param n at cnt lim v h = Some (Val_long ?r)" "hash_univ_param n at cnt lim w h = Some (Val_long ?r)"
    using hash_aux_thash[OF assms(1,3,5)] hash_aux_thash[of at h w t n] assms u
    by (simp_all add: hash_univ_param_def st_def)
  moreover have m: "(0x3FFFFFFF::u32) = mask 30" by code_simp
  have "?r = take_bit 30 (hash_accu st)" unfolding m by (simp only: take_bit_eq_mask[symmetric])
  then have "unat ?r = unat (hash_accu st) mod 2 ^ 30" by (simp only: unat_take_bit32)
  then have "0 \<le> int (unat ?r) \<and> int (unat ?r) < 1073741824" by simp
  moreover have "Val_long ?r = Val_int (int (unat ?r))" by (simp add: Val_int_def)
  ultimately show ?thesis by metis
qed

theorem hash_respects_equal_witness:
  "\<exists>r. hash_univ_param 3 0 (Val_int 10) (Val_int 100) 0x1004 heap0 = Some (Val_int r)
     \<and> hash_univ_param 3 0 (Val_int 10) (Val_int 100) 0x1018 heap0 = Some (Val_int r)"
proof -
  have "equal 3 0 heap0 0x1004 0x1018 = Some (Inr (Val_bool True))"
    using structural_comparison_equal[OF heap0_repr(1,2), of 3] by simp
  then show ?thesis
    using hash_respects_equal[OF heap0_repr(1,2), of 3 "Val_int 10" "Val_int 100"] by auto
qed

text \<open>
  With floating-point numbers it does not: the two zeros are equal, but the hash is computed on their
  bits (the block at \<open>0x1004\<close> is 0.0, the one at \<open>0x1010\<close> is -0.0).
\<close>

definition heap_zeros :: mlheap where
  "heap_zeros = heap_with
     (words_at 0x1000 [Make_header 2 Double_tag White, 0, 0, Make_header 2 Double_tag White, 0, 0x80000000])
     (\<lambda>a. 0x1000 \<le> a \<and> a < 0x1100)"

lemma hash_zeros_differ:
  "equal 1 0 heap_zeros 0x1004 0x1010 = Some (Inr (Val_bool True))
   \<and> hash_univ_param 1 0 (Val_int 10) (Val_int 100) 0x1004 heap_zeros = Some (Val_int 0)
   \<and> hash_univ_param 1 0 (Val_int 10) (Val_int 100) 0x1010 heap_zeros = Some (Val_int 128)"
  by code_simp

section \<open>Termination\<close>

text \<open>
  A set of words all of whose blocks can be read: headers, the bytes of strings and numbers, and the
  fields of the blocks that are scanned, which are in the set again. Values may be cyclic.
\<close>

definition readable_block :: "'a mlheap_scheme \<Rightarrow> val set \<Rightarrow> val \<Rightarrow> bool" where
  "readable_block h S v \<longleftrightarrow>
    (case Hd_val h v of None \<Rightarrow> False
     | Some hdr \<Rightarrow>
         let tag = Tag_hd hdr; sz = Wosize_hd hdr in
         if tag = String_tag then
           (case string_length h v of None \<Rightarrow> False | Some len \<Rightarrow> bytes_of h v 0 (unat len) \<noteq> None)
         else if tag = Double_tag then bytes_of h v 0 8 \<noteq> None
         else if tag = Double_array_tag then
           (\<forall>j < (unat (Bsize_wsize sz) + 7) div 8. bytes_of h v (8 * word_of_nat j) 8 \<noteq> None)
         else if tag = Object_tag then Field_get h v 1 \<noteq> None
         else if tag = Abstract_tag \<or> tag = Final_tag then True
         else if tag = Infix_tag then v - Infix_offset_hd hdr \<in> S
         else \<forall>i < unat sz. \<exists>w \<in> S. Field_get h v (word_of_nat i) = Some w)"

definition readable :: "u32 \<Rightarrow> 'a mlheap_scheme \<Rightarrow> val set \<Rightarrow> bool" where
  "readable at h S \<longleftrightarrow> (\<forall>v \<in> S. Is_block v \<and> in_memory at h v \<longrightarrow> readable_block h S v)"

text \<open>
  How far the limit may fall below zero while the remaining fields of the blocks being visited are
  passed over: each of the at most \<open>l\<close> blocks visited has at most \<open>Max_wosize\<close> fields.
\<close>

definition pos :: "int \<Rightarrow> int" where "pos l = max l 0"

definition falls :: "int \<Rightarrow> int \<Rightarrow> int \<Rightarrow> bool" where
  "falls k l l' \<longleftrightarrow> l' \<le> l \<and> l - l' \<le> k + 4194303 * (pos l - pos l')"

definition room :: "int \<Rightarrow> int" where "room l = l - 4194303 * pos l"

lemma falls_step: "falls k l l' \<Longrightarrow> falls j l' l'' \<Longrightarrow> falls (k + j) l l''"
  by (simp add: falls_def)

lemma fold_limit: "hash_univ_limit (fold (\<lambda>b. Combine_small (ucast b)) bs st) = hash_univ_limit st"
  by (induction bs arbitrary: st) (simp_all add: Combine_small_def)

lemma hash_bytes_limit:
  "bytes_of h v p n \<noteq> None \<Longrightarrow> \<exists>st'. hash_bytes h v p n st = Some st' \<and> hash_univ_limit st' = hash_univ_limit st"
  using hash_bytes_fold[of h v p n] fold_limit by fastforce

lemma hash_doubles_limit:
  "\<forall>j < n. bytes_of h v (p + 8 * word_of_nat j) 8 \<noteq> None \<Longrightarrow>
   \<exists>st'. hash_doubles h v p n st = Some st' \<and> hash_univ_limit st' = hash_univ_limit st"
proof (induction n arbitrary: p st)
  case (Suc n)
  obtain st1 where 1: "hash_bytes h v p 8 st = Some st1" "hash_univ_limit st1 = hash_univ_limit st"
    using hash_bytes_limit[of h v p 8 st] Suc.prems by fastforce
  have "\<forall>j < n. bytes_of h v ((p + 8) + 8 * word_of_nat j) 8 \<noteq> None"
  proof (intro allI impI)
    fix j assume "j < n"
    then have "bytes_of h v (p + 8 * word_of_nat (Suc j)) 8 \<noteq> None" using Suc.prems by blast
    then show "bytes_of h v ((p + 8) + 8 * word_of_nat j) 8 \<noteq> None" by (simp add: algebra_simps)
  qed
  from Suc.IH[OF this, of st1] 1 show ?case by auto
qed simp

lemma limit_minus:
  assumes "- 2147483648 < sint (l::u32)"
  shows "sint (l - 1) = sint l - 1"
  using assms sint32_bounds[of l] by (intro sint_sub[THEN trans]) simp_all

lemma tags_differ:
  "Double_array_tag \<noteq> String_tag" "Double_array_tag \<noteq> Double_tag" "Object_tag \<noteq> String_tag" "Object_tag \<noteq> Double_tag"
  "Object_tag \<noteq> Double_array_tag" "Object_tag \<noteq> Abstract_tag" "Object_tag \<noteq> Final_tag" "Object_tag \<noteq> Infix_tag"
  "Infix_tag \<noteq> String_tag" "Infix_tag \<noteq> Double_tag" "Infix_tag \<noteq> Double_array_tag" "Infix_tag \<noteq> Abstract_tag"
  "Infix_tag \<noteq> Final_tag" "Abstract_tag \<noteq> String_tag" "Abstract_tag \<noteq> Double_tag" "Abstract_tag \<noteq> Double_array_tag"
  "Final_tag \<noteq> String_tag" "Final_tag \<noteq> Double_tag" "Final_tag \<noteq> Double_array_tag"
  by (simp_all add: String_tag_def Double_tag_def Object_tag_def Double_array_tag_def Abstract_tag_def
      Final_tag_def Infix_tag_def)

lemma falls_active: "0 < l \<Longrightarrow> k \<le> 4194303 \<Longrightarrow> falls k (l - 1) l' \<Longrightarrow> falls 1 l l'"
  by (auto simp: falls_def pos_def)

lemma falls_dec: "falls 1 l (l - 1)"
  by (auto simp: falls_def pos_def)

lemma hash_fields_falls:
  assumes f: "\<And>v st. v \<in> S \<Longrightarrow> - 2147483648 < room (sint (hash_univ_limit st)) \<Longrightarrow> pos (sint (hash_univ_limit st)) < int n \<Longrightarrow>
      \<exists>st'. hash_aux n at h v st = Some st' \<and> falls 1 (sint (hash_univ_limit st)) (sint (hash_univ_limit st'))"
    and "\<forall>j < i. \<exists>w \<in> S. Field_get h obj (word_of_nat j) = Some w"
    and "- 2147483648 + int i \<le> room (sint (hash_univ_limit st))" "pos (sint (hash_univ_limit st)) < int n"
  shows "\<exists>st'. hash_fields n at h obj i st = Some st'
     \<and> falls (int i) (sint (hash_univ_limit st)) (sint (hash_univ_limit st'))"
  using assms(2-)
proof (induction i arbitrary: st)
  case 0
  then show ?case by (simp add: falls_def)
next
  case (Suc i)
  obtain w where w: "Field_get h obj (word_of_nat i) = Some w" "w \<in> S" using Suc.prems(1) by blast
  obtain st1 where s1: "hash_aux n at h w st = Some st1"
    "falls 1 (sint (hash_univ_limit st)) (sint (hash_univ_limit st1))"
    using f[OF w(2), of st] Suc.prems(2,3) by auto
  have "- 2147483648 + int i \<le> room (sint (hash_univ_limit st1))" "pos (sint (hash_univ_limit st1)) < int n"
    using s1(2) Suc.prems(2,3) by (auto simp: falls_def room_def pos_def)
  then obtain st2 where "hash_fields n at h obj i st1 = Some st2"
    "falls (int i) (sint (hash_univ_limit st1)) (sint (hash_univ_limit st2))"
    using Suc.IH[of st1] Suc.prems(1) by auto
  then show ?case using w(1) s1 falls_step[of 1 _ _ "int i"] by auto
qed

lemma hash_aux_falls:
  assumes r: "readable at h S"
  shows "v \<in> S \<Longrightarrow> - 2147483648 < room (sint (hash_univ_limit st)) \<Longrightarrow> pos (sint (hash_univ_limit st)) < int n \<Longrightarrow>
    \<exists>st'. hash_aux n at h v st = Some st' \<and> falls 1 (sint (hash_univ_limit st)) (sint (hash_univ_limit st'))"
proof (induction n arbitrary: v st)
  case 0
  then show ?case by (simp add: pos_def)
next
  case (Suc n)
  let ?l = "sint (hash_univ_limit st)"
  let ?st = "st\<lparr>hash_univ_limit := hash_univ_limit st - 1\<rparr>"
  have l: "- 2147483648 < ?l" using Suc.prems(2) by (auto simp: room_def pos_def)
  have l1: "sint (hash_univ_limit st - 1) = ?l - 1" by (rule limit_minus[OF l])
  show ?case
  proof (cases "sint (hash_univ_count ?st) < 0 \<or> sint (hash_univ_limit ?st) < 0 \<or> Is_long v \<or> \<not> in_memory at h v")
    case True
    then show ?thesis using l1 falls_dec[of ?l] by (auto simp: Let_def Combine_def count_node_def)
  next
    case False
    have pos: "0 < ?l" using False l1 by simp
    have room: "- 2147483648 + 4194303 \<le> room (?l - 1)" "pos (?l - 1) < int n"
      using pos Suc.prems by (simp_all add: room_def pos_def)
    have "Is_block v" using False by (simp add: Is_block_def Is_long_def)
    then have rb: "readable_block h S v" using r False Suc.prems(1) by (auto simp: readable_def)
    then obtain hdr where hdr: "Hd_val h v = Some hdr" by (auto simp: readable_block_def split: option.splits)
    then have tag: "Tag_val h v = Some (Tag_hd hdr)" and sz: "Wosize_val h v = Some (Wosize_hd hdr)"
      by (simp_all add: Tag_val_def Wosize_val_def)
    have dec: "falls 1 ?l (sint (hash_univ_limit st'))" if "hash_univ_limit st' = hash_univ_limit st - 1" for st'
      using falls_dec[of ?l] l1 that by simp
    have ctl: "hash_univ_limit (count_node ?st) = hash_univ_limit st - 1" by (simp add: count_node_def)
    have live: "\<not> sint (hash_univ_count ?st) < 0" "\<not> sint (hash_univ_limit ?st) < 0" "\<not> Is_long v" "in_memory at h v"
      using False by auto
    consider (str) "Tag_hd hdr = String_tag" | (dbl) "Tag_hd hdr = Double_tag" | (arr) "Tag_hd hdr = Double_array_tag"
      | (abs) "Tag_hd hdr = Abstract_tag \<or> Tag_hd hdr = Final_tag" | (infix_blk) "Tag_hd hdr = Infix_tag"
      | (obj) "Tag_hd hdr = Object_tag"
      | (con) "Tag_hd hdr \<notin> {String_tag, Double_tag, Double_array_tag, Abstract_tag, Final_tag, Infix_tag, Object_tag}"
      by blast
    then show ?thesis
    proof cases
      case str
      then obtain len where len: "string_length h v = Some len" "bytes_of h v 0 (unat len) \<noteq> None"
        using rb hdr by (auto simp: readable_block_def Let_def split: option.splits)
      obtain st' where "hash_bytes h v 0 (unat len) (count_node ?st) = Some st'" "hash_univ_limit st' = hash_univ_limit st - 1"
        using hash_bytes_limit[OF len(2), of "count_node ?st"] ctl by auto
      then show ?thesis using live tag str len(1) dec[of st'] by (simp add: Let_def)
    next
      case dbl
      then have "bytes_of h v 0 8 \<noteq> None" using rb hdr by (simp add: readable_block_def Let_def)
      then obtain st' where "hash_bytes h v 0 8 (count_node ?st) = Some st'" "hash_univ_limit st' = hash_univ_limit st - 1"
        using hash_bytes_limit[of h v 0 8 "count_node ?st"] ctl by auto
      then show ?thesis using live tag dbl dec[of st'] by (simp add: Let_def)
    next
      case arr
      then have "\<forall>j < (unat (Bsize_wsize (Wosize_hd hdr)) + 7) div 8. bytes_of h v (0 + 8 * word_of_nat j) 8 \<noteq> None"
        using rb hdr by (simp add: readable_block_def Let_def tags_differ tags_differ[symmetric])
      then obtain st' where "hash_doubles h v 0 ((unat (Bsize_wsize (Wosize_hd hdr)) + 7) div 8) (count_node ?st) = Some st'"
        "hash_univ_limit st' = hash_univ_limit st - 1"
        using hash_doubles_limit[of _ h v 0 "count_node ?st"] ctl by metis
      then show ?thesis using live tag arr sz dec[of st'] by (simp add: Let_def Bosize_val_def tags_differ tags_differ[symmetric])
    next
      case abs
      then show ?thesis using live tag dec[of ?st] by (auto simp: Let_def tags_differ tags_differ[symmetric])
    next
      case infix_blk
      then have "v - Infix_offset_hd hdr \<in> S"
        using rb hdr by (simp add: readable_block_def Let_def tags_differ tags_differ[symmetric])
      then obtain st' where st': "hash_aux n at h (v - Infix_offset_hd hdr) ?st = Some st'"
        "falls 1 (?l - 1) (sint (hash_univ_limit st'))"
        using Suc.IH[of "v - Infix_offset_hd hdr" ?st] l1 room by auto
      have "falls 1 ?l (sint (hash_univ_limit st'))" using falls_active[OF pos _ st'(2)] by simp
      then show ?thesis
        using live tag infix_blk hdr st'(1) by (simp add: Let_def tags_differ tags_differ[symmetric])
    next
      case obj
      then obtain x where "Oid_val h v = Some x"
        using rb hdr by (auto simp: readable_block_def Let_def Oid_val_def tags_differ tags_differ[symmetric])
      then show ?thesis using live tag obj dec[of "Combine x (count_node ?st)"]
        by (simp add: Let_def tags_differ Combine_def count_node_def)
    next
      case con
      let ?st1 = "Combine_small (Tag_hd hdr) (count_node ?st)"
      have lim: "hash_univ_limit ?st1 = hash_univ_limit st - 1" by (simp add: Combine_small_def count_node_def)
      have f: "\<forall>j < unat (Wosize_hd hdr). \<exists>w \<in> S. Field_get h v (word_of_nat j) = Some w"
        using rb hdr con by (auto simp: readable_block_def Let_def)
      have k: "unat (Wosize_hd hdr) \<le> 4194303" using Wosize_val_less[OF sz] by simp
      then have "- 2147483648 + int (unat (Wosize_hd hdr)) \<le> room (sint (hash_univ_limit ?st1))"
        using room(1) unfolding lim l1 by linarith
      moreover have "pos (sint (hash_univ_limit ?st1)) < int n" using room(2) unfolding lim l1 .
      moreover note k
      ultimately obtain st' where st': "hash_fields n at h v (unat (Wosize_hd hdr)) ?st1 = Some st'"
        "falls (int (unat (Wosize_hd hdr))) (?l - 1) (sint (hash_univ_limit st'))"
        using hash_fields_falls[OF Suc.IH f, of ?st1] unfolding lim l1 by blast
      have "hash_aux (Suc n) at h v st = Some st'" using live tag con sz st'(1) by (simp add: Let_def)
      moreover have "int (unat (Wosize_hd hdr)) \<le> 4194303" using k by linarith
      then have "falls 1 ?l (sint (hash_univ_limit st'))" by (rule falls_active[OF pos _ st'(2)])
      ultimately show ?thesis by blast
    qed
  qed
qed

text \<open>
  C32. Hashing terminates. On any word whose blocks can be read, cyclic or not, \<open>hash_univ_param\<close>
  returns for every limit on visited nodes up to 511 (the library uses 100) and every limit on
  meaningful nodes; the recursion is no deeper than the limit plus one.
\<close>

theorem hash_terminates:
  assumes "readable at h S" "v \<in> S" "0 \<le> sint (Long_val lim)" "sint (Long_val lim) \<le> 511"
  shows "hash_univ_param (Suc (unat (Long_val lim))) at cnt lim v h \<noteq> None"
proof -
  let ?st = "\<lparr>hash_accu = 0, hash_univ_limit = Long_val lim, hash_univ_count = Long_val cnt\<rparr>"
  have "int (unat (Long_val lim)) = sint (Long_val lim)" using assms(3) by (rule unat_nonneg)
  then have "\<exists>st'. hash_aux (Suc (unat (Long_val lim))) at h v ?st = Some st'"
    using hash_aux_falls[OF assms(1,2), of ?st "Suc (unat (Long_val lim))"] assms(3,4)
    by (auto simp: room_def pos_def)
  then show ?thesis by (auto simp: hash_univ_param_def)
qed

lemma heap0_cycle: "readable 0 heap0 {0x1044, 15}"
proof -
  have "Hd_val heap0 0x1044 = Some 2048" "Field_get heap0 0x1044 0 = Some 15" "Field_get heap0 0x1044 1 = Some 0x1044"
    by code_simp+
  moreover have "Tag_hd 2048 = 0" "unat (Wosize_hd 2048) = 2" by code_simp+
  moreover have "\<not> Is_block 15" by code_simp
  ultimately show ?thesis
    by (auto simp: readable_def readable_block_def Let_def less_2_cases_iff String_tag_def Double_tag_def
        Double_array_tag_def Object_tag_def Infix_tag_def Abstract_tag_def Final_tag_def)
qed

theorem hash_terminates_witness:
  "hash_univ_param 101 0 (Val_int 10) (Val_int 100) 0x1044 heap0 \<noteq> None"
proof -
  have l: "sint (Long_val (Val_int 100)) = 100" by (simp add: Long_val_Val_int)
  then have "int (unat (Long_val (Val_int 100))) = 100"
    using unat_nonneg[of "Long_val (Val_int 100)"] by (simp only: refl zero_le_numeral simp_thms)
  then have "unat (Long_val (Val_int 100)) = 100" by linarith
  then show ?thesis using hash_terminates[OF heap0_cycle, of "0x1044" "Val_int 100" "Val_int 10"] l by simp
qed

end
