(* ===== verification/Lexing.thy ===== *)
theory Lexing
  imports Mltree
begin

text \<open>
  The table-driven automaton of the generated lexers (\<open>Byterun/lexing.c\<close>). The tables are the arrays
  of 16-bit integers the strings of the OCaml record hold, the buffer is the record of the lexer with
  the bytes of its string; positions and actions are tagged integers as the code keeps them. An
  access outside a table or the buffer is \<open>None\<close>.
\<close>

section \<open>The code\<close>

record lexer_buffer =
  refill_buff :: val
  lex_buffer :: "u8 list"
  lex_buffer_len :: val
  lex_abs_pos :: val
  lex_start_pos :: val
  lex_curr_pos :: val
  lex_last_pos :: val
  lex_last_action :: val
  lex_eof_reached :: val

record lexing_table =
  lex_base :: "u16 list"
  lex_backtrk :: "u16 list"
  lex_default :: "u16 list"
  lex_trans :: "u16 list"
  lex_check :: "u16 list"

definition Short :: "u16 list \<Rightarrow> int \<Rightarrow> int option" where
  "Short tbl n = (if 0 \<le> n then map_option sint (rd tbl (nat n)) else None)"

type_synonym lex_result = "(ml_error + val) \<times> lexer_buffer"

text \<open>The next input symbol: the character at the current position, or 256 at the end of the buffer.\<close>

definition lex_next :: "lexer_buffer \<Rightarrow> (int \<times> lexer_buffer) option" where
  "lex_next b =
    (if sint (lex_buffer_len b) \<le> sint (lex_curr_pos b) then Some (256, b)
     else if sint (Long_val (lex_curr_pos b)) < 0 then None
     else do {
       c \<leftarrow> rd (lex_buffer b) (unat (Long_val (lex_curr_pos b)));
       Some (uint c, b\<lparr>lex_curr_pos := lex_curr_pos b + 2\<rparr>)
     })"

text \<open>One turn of the loop: the result, or the next state.\<close>

definition lex_iter ::
  "lexing_table \<Rightarrow> int \<Rightarrow> lexer_buffer \<Rightarrow> (lex_result + int \<times> lexer_buffer) option" where
  "lex_iter tbl state b = do {
     base \<leftarrow> Short (lex_base tbl) state;
     if base < 0 then Some (Inl (Inr (Val_int (- base - 1)), b))
     else do {
       backtrk \<leftarrow> Short (lex_backtrk tbl) state;
       let b = (if 0 \<le> backtrk then b\<lparr>lex_last_pos := lex_curr_pos b, lex_last_action := Val_int backtrk\<rparr> else b);
       if sint (lex_buffer_len b) \<le> sint (lex_curr_pos b) \<and> lex_eof_reached b = Val_bool False then
         Some (Inl (Inr (Val_int (- state - 1)), b))
       else do {
         (c, b) \<leftarrow> lex_next b;
         k \<leftarrow> Short (lex_check tbl) (base + c);
         state' \<leftarrow> (if k = state then Short (lex_trans tbl) (base + c) else Short (lex_default tbl) state);
         if state' < 0 then
           let b = b\<lparr>lex_curr_pos := lex_last_pos b\<rparr> in
           Some (Inl (if lex_last_action b = Val_int (- 1) then Inl (Failure ''lexing: empty token'')
                      else Inr (lex_last_action b), b))
         else Some (Inr (state', if c = 256 then b\<lparr>lex_eof_reached := Val_bool False\<rparr> else b))
       }
     }
   }"

partial_function (option) lex_loop ::
  "lexing_table \<Rightarrow> int \<Rightarrow> lexer_buffer \<Rightarrow> lex_result option" where
  "lex_loop tbl state b =
    Option.bind (lex_iter tbl state b) (case_sum Some (\<lambda>(state, b). lex_loop tbl state b))"

definition lex_engine :: "lexing_table \<Rightarrow> val \<Rightarrow> lexer_buffer \<Rightarrow> lex_result option" where
  "lex_engine tbl start_state b =
    (let state = sint (Long_val start_state) in
     if 0 \<le> state then
       lex_loop tbl state (b\<lparr>lex_start_pos := lex_curr_pos b, lex_last_pos := lex_curr_pos b,
         lex_last_action := Val_int (- 1)\<rparr>)
     else lex_loop tbl (- state - 1) b)"

section \<open>The automaton of the tables\<close>

text \<open>
  A state can be left while its base is not negative; \<open>action\<close> is what a state accepts, if it does:
  at once when the base is negative, as a point to come back to otherwise.
\<close>

definition live :: "lexing_table \<Rightarrow> int \<Rightarrow> bool" where
  "live tbl s \<longleftrightarrow> 0 \<le> s \<and> (case Short (lex_base tbl) s of None \<Rightarrow> False | Some base \<Rightarrow> 0 \<le> base)"

definition delta :: "lexing_table \<Rightarrow> int \<Rightarrow> int \<Rightarrow> int option" where
  "delta tbl s c = do {
     base \<leftarrow> Short (lex_base tbl) s;
     k \<leftarrow> Short (lex_check tbl) (base + c);
     if k = s then Short (lex_trans tbl) (base + c) else Short (lex_default tbl) s
   }"

definition action :: "lexing_table \<Rightarrow> int \<Rightarrow> int option" where
  "action tbl s =
    (if s < 0 then None
     else case Short (lex_base tbl) s of
       None \<Rightarrow> None
     | Some base \<Rightarrow>
         if base < 0 then Some (- base - 1)
         else (case Short (lex_backtrk tbl) s of
                 None \<Rightarrow> None | Some a \<Rightarrow> if 0 \<le> a then Some a else None))"

fun lex_run :: "lexing_table \<Rightarrow> int \<Rightarrow> int list \<Rightarrow> int option" where
  "lex_run tbl s [] = Some s"
| "lex_run tbl s (c # cs) = (if live tbl s then Option.bind (delta tbl s c) (\<lambda>s'. lex_run tbl s' cs) else None)"

text \<open>
  Tables for the states below \<open>n\<close>: every state has its entries, every transition is inside the
  tables and leads to a state below \<open>n\<close> or to no state.
\<close>

definition table_ok :: "lexing_table \<Rightarrow> int \<Rightarrow> bool" where
  "table_ok tbl n \<longleftrightarrow> n \<le> 32768 \<and>
    (\<forall>s \<in> {0..<n}.
      (\<exists>base. Short (lex_base tbl) s = Some base \<and>
        (0 \<le> base \<longrightarrow> Short (lex_backtrk tbl) s \<noteq> None \<and>
          (\<forall>c \<in> {0..256}. \<exists>s'. delta tbl s c = Some s' \<and> s' < n))))"

text \<open>
  The buffer holds \<open>len\<close> characters and the lexer is at \<open>pos\<close>; the symbols still to be read are the
  characters that follow and, when the end of the input is known, the symbol 256.
\<close>

definition buffer_ok :: "lexer_buffer \<Rightarrow> bool" where
  "buffer_ok b \<longleftrightarrow> length (lex_buffer b) < 536870912 \<and>
    lex_buffer_len b = Val_int (int (length (lex_buffer b)))"

definition at_pos :: "lexer_buffer \<Rightarrow> nat \<Rightarrow> bool" where
  "at_pos b p \<longleftrightarrow> p \<le> length (lex_buffer b) \<and> lex_curr_pos b = Val_int (int p)"

definition symbols :: "lexer_buffer \<Rightarrow> nat \<Rightarrow> int list" where
  "symbols b p = map uint (drop p (lex_buffer b)) @ (if lex_eof_reached b = Val_bool False then [] else [256])"

text \<open>The position after reading \<open>i\<close> symbols from \<open>p\<close>.\<close>

definition pos_after :: "lexer_buffer \<Rightarrow> nat \<Rightarrow> nat \<Rightarrow> nat" where
  "pos_after b p i = min (p + i) (length (lex_buffer b))"

text \<open>
  What the lexer promises about the symbols \<open>w\<close> from state \<open>s\<close>: either all were read without reaching
  a state that cannot be left, and more are asked for; or the first \<open>i\<close> symbols are accepted with the
  action returned, no longer prefix is accepted, and the position is after them; or no prefix is
  accepted and the exception is raised.
\<close>

definition accepts :: "lexing_table \<Rightarrow> int \<Rightarrow> int list \<Rightarrow> int \<Rightarrow> bool" where
  "accepts tbl s w a \<longleftrightarrow> (\<exists>s'. lex_run tbl s w = Some s' \<and> action tbl s' = Some a)"

definition lex_spec ::
  "lexing_table \<Rightarrow> int \<Rightarrow> int list \<Rightarrow> (nat \<Rightarrow> nat) \<Rightarrow> (ml_error + val) \<Rightarrow> lexer_buffer \<Rightarrow> bool" where
  "lex_spec tbl s w pos r b \<longleftrightarrow>
    (\<exists>s'. r = Inr (Val_int (- s' - 1)) \<and> lex_run tbl s w = Some s' \<and> live tbl s'
       \<and> lex_curr_pos b = Val_int (int (pos (length w))) \<and> lex_eof_reached b = Val_bool False) \<or>
    (\<exists>i \<le> length w. \<exists>a \<ge> 0. r = Inr (Val_int a) \<and> accepts tbl s (take i w) a \<and> lex_curr_pos b = Val_int (int (pos i))
       \<and> (\<forall>j a'. i < j \<and> j \<le> length w \<longrightarrow> \<not> accepts tbl s (take j w) a')) \<or>
    (r = Inl (Failure ''lexing: empty token'') \<and> (\<forall>j a. j \<le> length w \<longrightarrow> \<not> accepts tbl s (take j w) a))"

section \<open>The engine finds the longest match\<close>

lemma lex_run_append: "lex_run tbl s (xs @ ys) = Option.bind (lex_run tbl s xs) (\<lambda>s'. lex_run tbl s' ys)"
  by (induction xs arbitrary: s) (auto split: bind_splits)

lemma lex_run_dead:
  assumes "lex_run tbl s (take i w) = Some s'" "\<not> live tbl s'" "i < j" "j \<le> length w"
  shows "lex_run tbl s (take j w) = None"
proof -
  obtain c ys where "take j w = take i w @ c # ys"
    using assms(3,4) by (metis Cons_nth_drop_Suc append_take_drop_id drop_take length_take min.absorb2
        min.absorb1 take_take less_imp_le nat_less_le)
  then show ?thesis using assms(1,2) by (simp add: lex_run_append)
qed

lemma action_dead: "s < 0 \<Longrightarrow> action tbl s = None"
  by (simp add: action_def)

text \<open>What the last accepting position is, once the state reached after \<open>i\<close> symbols is looked at.\<close>

definition last_ok :: "lexing_table \<Rightarrow> int \<Rightarrow> lexer_buffer \<Rightarrow> nat \<Rightarrow> nat \<Rightarrow> lexer_buffer \<Rightarrow> bool" where
  "last_ok tbl s0 b0 p i b \<longleftrightarrow>
    (lex_last_action b = Val_int (- 1) \<and> (\<forall>j a. j < i \<longrightarrow> \<not> accepts tbl s0 (take j (symbols b0 p)) a)) \<or>
    (\<exists>j < i. \<exists>a \<ge> 0. a < 32768 \<and> accepts tbl s0 (take j (symbols b0 p)) a \<and> lex_last_action b = Val_int a
       \<and> lex_last_pos b = Val_int (int (pos_after b0 p j))
       \<and> (\<forall>j' a'. j < j' \<and> j' < i \<longrightarrow> \<not> accepts tbl s0 (take j' (symbols b0 p)) a'))"

text \<open>The invariant of the loop after \<open>i\<close> symbols.\<close>

definition lex_inv :: "lexing_table \<Rightarrow> int \<Rightarrow> lexer_buffer \<Rightarrow> nat \<Rightarrow> nat \<Rightarrow> int \<Rightarrow> lexer_buffer \<Rightarrow> bool" where
  "lex_inv tbl s0 b0 p i s b \<longleftrightarrow>
    i \<le> length (symbols b0 p) \<and> lex_buffer b = lex_buffer b0 \<and> lex_buffer_len b = lex_buffer_len b0
    \<and> at_pos b (pos_after b0 p i) \<and> symbols b (pos_after b0 p i) = drop i (symbols b0 p)
    \<and> lex_run tbl s0 (take i (symbols b0 p)) = Some s
    \<and> last_ok tbl s0 b0 p i b"

lemma Short_range: "Short tbl n = Some x \<Longrightarrow> - 32768 \<le> x \<and> x < 32768"
proof -
  assume "Short tbl n = Some x"
  then obtain w :: u16 where "x = sint w" by (auto simp: Short_def split: if_splits)
  then show ?thesis using sint_greater_eq[of w] sint_less[of w] by simp
qed

lemma Val_int_inj: "- 1073741824 \<le> x \<Longrightarrow> x < 1073741824 \<Longrightarrow> - 1073741824 \<le> y \<Longrightarrow> y < 1073741824 \<Longrightarrow>
    Val_int x = Val_int y \<longleftrightarrow> x = y"
  using Long_val_Val_int by metis

lemma at_end:
  assumes "buffer_ok b" "at_pos b p"
  shows "sint (lex_buffer_len b) \<le> sint (lex_curr_pos b) \<longleftrightarrow> p = length (lex_buffer b)"
  using assms sint_Val_int[of "int p"] sint_Val_int[of "int (length (lex_buffer b))"]
  by (auto simp: buffer_ok_def at_pos_def)

lemma symbols_nil: "at_pos b p \<Longrightarrow> symbols b p = [] \<longleftrightarrow> p = length (lex_buffer b) \<and> lex_eof_reached b = Val_bool False"
  by (auto simp: symbols_def at_pos_def)

lemma Val_int_plus2: "Val_int n + 2 = Val_int (n + 1)"
  by (simp add: Val_int_word algebra_simps)

text \<open>Reading a symbol.\<close>

lemma lex_next_symbol:
  assumes b: "buffer_ok b" and p: "at_pos b p" and c: "symbols b p = c # cs"
  shows "\<exists>b'. lex_next b = Some (c, b') \<and> 0 \<le> c \<and> c \<le> 256
     \<and> at_pos b' (min (p + 1) (length (lex_buffer b)))
     \<and> b' = b\<lparr>lex_curr_pos := lex_curr_pos b'\<rparr>
     \<and> symbols (if c = 256 then b'\<lparr>lex_eof_reached := Val_bool False\<rparr> else b') (min (p + 1) (length (lex_buffer b))) = cs"
proof (cases "p = length (lex_buffer b)")
  case True
  then show ?thesis using c p at_end[OF b p]
    by (auto simp: lex_next_def symbols_def at_pos_def split: if_splits)
next
  case False
  then have lt: "p < length (lex_buffer b)" using p by (simp add: at_pos_def)
  have l: "sint (Long_val (lex_curr_pos b)) = int p" using p b lt by (simp add: at_pos_def buffer_ok_def Long_val_Val_int)
  then have "int (unat (Long_val (lex_curr_pos b))) = int p" using unat_nonneg[of "Long_val (lex_curr_pos b)"] by linarith
  then have u: "unat (Long_val (lex_curr_pos b)) = p" by linarith
  have e: "c = uint (lex_buffer b ! p)" "cs = symbols b (p + 1)"
    using c lt by (simp_all add: symbols_def Cons_nth_drop_Suc[OF lt, symmetric])
  have "lex_next b = Some (c, b\<lparr>lex_curr_pos := Val_int (int p) + 2\<rparr>)"
    using at_end[OF b p] False l u lt p e by (simp add: lex_next_def rd_def at_pos_def)
  moreover have "c < 256" using uint_bounded[of "lex_buffer b ! p"] e by simp
  ultimately show ?thesis using e lt by (auto simp: at_pos_def Val_int_plus2 symbols_def add.commute)
qed

lemma live_action:
  assumes "0 \<le> s" "Short (lex_base tbl) s = Some base"
  shows "live tbl s \<longleftrightarrow> 0 \<le> base" "base < 0 \<Longrightarrow> action tbl s = Some (- base - 1)"
    "0 \<le> base \<Longrightarrow> Short (lex_backtrk tbl) s = Some a \<Longrightarrow> action tbl s = (if 0 \<le> a then Some a else None)"
  using assms by (simp_all add: live_def action_def)

lemma last_ok_step:
  assumes l: "last_ok tbl s0 b0 p i b" and r: "lex_run tbl s0 (take i (symbols b0 p)) = Some s"
    and c: "lex_curr_pos b = Val_int (int (pos_after b0 p i))"
    and a: "action tbl s = (if 0 \<le> a then Some a else None)" "a < 32768"
  shows "last_ok tbl s0 b0 p (Suc i)
    (if 0 \<le> a then b\<lparr>lex_last_pos := lex_curr_pos b, lex_last_action := Val_int a\<rparr> else b)"
proof (cases "0 \<le> a")
  case True
  then have "accepts tbl s0 (take i (symbols b0 p)) a" using r a by (simp add: accepts_def)
  then show ?thesis unfolding last_ok_def using True a(2) c by (intro disjI2 exI[of _ i]) auto
next
  case False
  then have n: "\<not> accepts tbl s0 (take i (symbols b0 p)) a'" for a' using r a by (simp add: accepts_def)
  then have ext: "\<not> accepts tbl s0 (take j' (symbols b0 p)) a'"
    if "\<forall>a'. j' < i \<longrightarrow> \<not> accepts tbl s0 (take j' (symbols b0 p)) a'" "j' < Suc i" for j' a'
    using that by (cases "j' = i") auto
  have "last_ok tbl s0 b0 p (Suc i) b"
  proof (cases "lex_last_action b = Val_int (- 1) \<and> (\<forall>j a. j < i \<longrightarrow> \<not> accepts tbl s0 (take j (symbols b0 p)) a)")
    case True
    then show ?thesis using ext unfolding last_ok_def by blast
  next
    case False
    then obtain j a where j: "j < i" "0 \<le> a" "a < 32768" "accepts tbl s0 (take j (symbols b0 p)) a" "lex_last_action b = Val_int a"
      "lex_last_pos b = Val_int (int (pos_after b0 p j))"
      "\<forall>j' a'. j < j' \<and> j' < i \<longrightarrow> \<not> accepts tbl s0 (take j' (symbols b0 p)) a'"
      using l unfolding last_ok_def by blast
    have "\<not> accepts tbl s0 (take j' (symbols b0 p)) a'" if "j < j'" "j' < Suc i" for j' a'
      using ext[of j' a'] j(7) that by blast
    then show ?thesis unfolding last_ok_def
      using j(1-6) by (intro disjI2 exI[of _ j] conjI exI[of _ a]) simp_all
  qed
  then show ?thesis using False by simp
qed

lemma last_ok_cong:
  "lex_last_action b' = lex_last_action b \<Longrightarrow> lex_last_pos b' = lex_last_pos b \<Longrightarrow>
    last_ok tbl s0 b0 p i b' = last_ok tbl s0 b0 p i b"
  by (simp add: last_ok_def)

text \<open>At a state that cannot be left the last accepting position decides.\<close>

lemma last_ok_spec:
  assumes l: "last_ok tbl s0 b0 p (Suc i) b" and i: "i < length (symbols b0 p)"
    and r: "lex_run tbl s0 (take (Suc i) (symbols b0 p)) = Some s" and s: "s < 0"
  shows "lex_spec tbl s0 (symbols b0 p) (pos_after b0 p)
     (if lex_last_action b = Val_int (- 1) then Inl (Failure ''lexing: empty token'') else Inr (lex_last_action b))
     (b\<lparr>lex_curr_pos := lex_last_pos b\<rparr>)"
proof -
  have none: "\<not> accepts tbl s0 (take j (symbols b0 p)) a" if "Suc i \<le> j" "j \<le> length (symbols b0 p)" for j a
  proof (cases "j = Suc i")
    case True
    then show ?thesis using r s by (simp add: accepts_def action_dead)
  next
    case False
    have "\<not> live tbl s" using s by (simp add: live_def)
    then have "lex_run tbl s0 (take j (symbols b0 p)) = None" using lex_run_dead[OF r] that False by simp
    then show ?thesis by (simp add: accepts_def)
  qed
  from l[unfolded last_ok_def] show ?thesis
  proof (elim disjE exE conjE)
    assume "lex_last_action b = Val_int (- 1)" "\<forall>j a. j < Suc i \<longrightarrow> \<not> accepts tbl s0 (take j (symbols b0 p)) a"
    then show ?thesis using none unfolding lex_spec_def by (meson linorder_not_less)
  next
    fix j a
    assume j: "j < Suc i" "0 \<le> a" "a < 32768" "accepts tbl s0 (take j (symbols b0 p)) a"
      "lex_last_action b = Val_int a" "lex_last_pos b = Val_int (int (pos_after b0 p j))"
      "\<forall>j' a'. j < j' \<and> j' < Suc i \<longrightarrow> \<not> accepts tbl s0 (take j' (symbols b0 p)) a'"
    have "Val_int a \<noteq> Val_int (- 1)" using j by (subst Val_int_inj) auto
    moreover have "\<not> accepts tbl s0 (take j' (symbols b0 p)) a'" if "j < j'" "j' \<le> length (symbols b0 p)" for j' a'
      using none[of j' a'] j(7) that by (meson linorder_not_less)
    ultimately show ?thesis
      using j i unfolding lex_spec_def by (intro disjI2 disjI1 exI[of _ j] conjI exI[of _ a]) auto
  qed
qed

lemma lex_iter_step:
  assumes base: "Short (lex_base tbl) s = Some base" "0 \<le> base" and a: "Short (lex_backtrk tbl) s = Some a"
    and b1: "(if 0 \<le> a then b\<lparr>lex_last_pos := lex_curr_pos b, lex_last_action := Val_int a\<rparr> else b) = b1"
    and go: "\<not> (sint (lex_buffer_len b1) \<le> sint (lex_curr_pos b1) \<and> lex_eof_reached b1 = Val_bool False)"
    and nxt: "lex_next b1 = Some (c, b2)"
    and d: "Option.bind (Short (lex_check tbl) (base + c))
          (\<lambda>k. if k = s then Short (lex_trans tbl) (base + c) else Short (lex_default tbl) s) = Some s'"
  shows "lex_iter tbl s b =
          (if s' < 0 then
             Some (Inl (if lex_last_action b2 = Val_int (- 1) then Inl (Failure ''lexing: empty token'')
                        else Inr (lex_last_action b2), b2\<lparr>lex_curr_pos := lex_last_pos b2\<rparr>))
           else Some (Inr (s', if c = 256 then b2\<lparr>lex_eof_reached := Val_bool False\<rparr> else b2)))"
proof -
  obtain k where k: "Short (lex_check tbl) (base + c) = Some k"
    "(if k = s then Short (lex_trans tbl) (base + c) else Short (lex_default tbl) s) = Some s'"
    using d by (cases "Short (lex_check tbl) (base + c)") auto
  have nb: "\<not> base < 0" using base(2) by simp
  show ?thesis
    unfolding lex_iter_def Let_def base(1) a option.simps Option.bind.simps if_not_P[OF nb] b1 if_not_P[OF go] nxt
      prod.case k by simp
qed

lemma lex_loop_spec:
  assumes tb: "table_ok tbl n" and b0: "buffer_ok b0"
  shows "lex_inv tbl s0 b0 p i s b \<Longrightarrow> 0 \<le> s \<Longrightarrow> s < n \<Longrightarrow>
    \<exists>r b'. lex_loop tbl s b = Some (r, b') \<and> lex_spec tbl s0 (symbols b0 p) (pos_after b0 p) r b'"
proof (induction "length (symbols b0 p) - i" arbitrary: i s b rule: less_induct)
  case less
  let ?w = "symbols b0 p"
  have i: "i \<le> length ?w" "lex_buffer b = lex_buffer b0" "lex_buffer_len b = lex_buffer_len b0"
    and at: "at_pos b (pos_after b0 p i)" and sym: "symbols b (pos_after b0 p i) = drop i ?w"
    and run: "lex_run tbl s0 (take i ?w) = Some s" and last: "last_ok tbl s0 b0 p i b"
    using less.prems(1) by (simp_all add: lex_inv_def)
  have pos: "lex_curr_pos b = Val_int (int (pos_after b0 p i))" using at by (simp add: at_pos_def)
  have bok: "buffer_ok b" using b0 i by (simp add: buffer_ok_def)
  obtain base where base: "Short (lex_base tbl) s = Some base"
    and nxt: "0 \<le> base \<Longrightarrow> Short (lex_backtrk tbl) s \<noteq> None \<and> (\<forall>c \<in> {0..256}. \<exists>s'. delta tbl s c = Some s' \<and> s' < n)"
  proof -
    have "s \<in> {0..<n}" using less.prems(2,3) by simp
    then show ?thesis using that tb unfolding table_ok_def by blast
  qed
  note la = live_action[OF less.prems(2) base]
  have unroll: "lex_loop tbl s b = Option.bind (lex_iter tbl s b) (case_sum Some (\<lambda>(state, b). lex_loop tbl state b))"
    by (rule lex_loop.simps)
  show ?case
  proof (cases "base < 0")
    case True
    have it: "lex_iter tbl s b = Some (Inl (Inr (Val_int (- base - 1)), b))" using base True by (simp add: lex_iter_def)
    have "accepts tbl s0 (take i ?w) (- base - 1)" using run la(2)[OF True] by (simp add: accepts_def)
    moreover have "\<not> accepts tbl s0 (take j ?w) a" if "i < j" "j \<le> length ?w" for j a
      using lex_run_dead[OF run _ that] la(1) True by (simp add: accepts_def)
    ultimately have "lex_spec tbl s0 ?w (pos_after b0 p) (Inr (Val_int (- base - 1))) b"
      unfolding lex_spec_def using i True pos by (intro disjI2 disjI1 exI[of _ i] conjI exI[of _ "- base - 1"]) auto
    then show ?thesis using unroll it by simp
  next
    case False
    then obtain a where a: "Short (lex_backtrk tbl) s = Some a" using nxt by auto
    have lv: "live tbl s" using la(1) False by simp
    have act: "action tbl s = (if 0 \<le> a then Some a else None)" using la(3)[OF _ a] False by simp
    define b1 where "b1 = (if 0 \<le> a then b\<lparr>lex_last_pos := lex_curr_pos b, lex_last_action := Val_int a\<rparr> else b)"
    have l1: "last_ok tbl s0 b0 p (Suc i) b1"
      unfolding b1_def by (rule last_ok_step[OF last run pos act]) (use Short_range[OF a] in simp)
    have f1: "lex_buffer b1 = lex_buffer b" "lex_buffer_len b1 = lex_buffer_len b" "lex_curr_pos b1 = lex_curr_pos b"
      "lex_eof_reached b1 = lex_eof_reached b" by (simp_all add: b1_def)
    have b1: "buffer_ok b1" "at_pos b1 (pos_after b0 p i)" "symbols b1 (pos_after b0 p i) = drop i ?w"
      using bok at sym f1 by (simp_all add: buffer_ok_def at_pos_def symbols_def)
    have stop: "sint (lex_buffer_len b1) \<le> sint (lex_curr_pos b1) \<and> lex_eof_reached b1 = Val_bool False \<longleftrightarrow> drop i ?w = []"
      using at_end[OF b1(1,2)] symbols_nil[OF b1(2)] b1(3) by simp
    show ?thesis
    proof (cases "drop i ?w")
      case Nil
      then have it: "lex_iter tbl s b = Some (Inl (Inr (Val_int (- s - 1)), b1))"
        using base False a stop by (simp add: lex_iter_def b1_def[symmetric] Let_def)
      have "lex_curr_pos b1 = Val_int (int (pos_after b0 p (length ?w)))" using Nil i pos f1 by simp
      then have "lex_spec tbl s0 ?w (pos_after b0 p) (Inr (Val_int (- s - 1))) b1"
        unfolding lex_spec_def using run lv Nil i stop by (intro disjI1 exI[of _ s]) auto
      then show ?thesis using unroll it by simp
    next
      case (Cons c cs)
      then have lt: "i < length ?w" by (metis drop_all linorder_not_less list.distinct(1))
      have wi: "?w ! i = c" "drop (Suc i) ?w = cs" using Cons lt by (simp_all add: nth_via_drop drop_Suc tl_drop[symmetric])
      let ?p = "min (pos_after b0 p i + 1) (length (lex_buffer b1))"
      obtain b2 where b2: "lex_next b1 = Some (c, b2)" "0 \<le> c" "c \<le> 256" "at_pos b2 ?p"
        "b2 = b1\<lparr>lex_curr_pos := lex_curr_pos b2\<rparr>"
        "symbols (if c = 256 then b2\<lparr>lex_eof_reached := Val_bool False\<rparr> else b2) ?p = cs"
        using lex_next_symbol[OF b1(1,2)] b1(3) Cons by metis
      have pp: "?p = pos_after b0 p (Suc i)" using f1 i by (auto simp: pos_after_def)
      obtain s' where d: "delta tbl s c = Some s'" "s' < n" using nxt b2(2,3) False by (meson atLeastAtMost_iff not_less)
      have d': "Option.bind (Short (lex_check tbl) (base + c))
          (\<lambda>k. if k = s then Short (lex_trans tbl) (base + c) else Short (lex_default tbl) s) = Some s'"
        using d(1) base by (simp add: delta_def)
      have it: "lex_iter tbl s b =
          (if s' < 0 then
             Some (Inl (if lex_last_action b2 = Val_int (- 1) then Inl (Failure ''lexing: empty token'')
                        else Inr (lex_last_action b2), b2\<lparr>lex_curr_pos := lex_last_pos b2\<rparr>))
           else Some (Inr (s', if c = 256 then b2\<lparr>lex_eof_reached := Val_bool False\<rparr> else b2)))"
        using lex_iter_step[OF base _ a b1_def[symmetric] _ b2(1) d'] stop Cons False by simp
      have run': "lex_run tbl s0 (take (Suc i) ?w) = Some s'"
        using run lv d(1) lt wi by (simp add: take_Suc_conv_app_nth lex_run_append)
      have f2: "lex_buffer b2 = lex_buffer b1" "lex_buffer_len b2 = lex_buffer_len b1"
        "lex_last_action b2 = lex_last_action b1" "lex_last_pos b2 = lex_last_pos b1"
        by (subst b2(5), simp)+
      have l2: "last_ok tbl s0 b0 p (Suc i) b2" using l1 last_ok_cong f2 by metis
      show ?thesis
      proof (cases "s' < 0")
        case True
        show ?thesis using last_ok_spec[OF l2 lt run' True] unroll it True by simp
      next
        case s': False
        let ?b3 = "if c = 256 then b2\<lparr>lex_eof_reached := Val_bool False\<rparr> else b2"
        have "last_ok tbl s0 b0 p (Suc i) ?b3" using l2 by (simp add: last_ok_def)
        then have "lex_inv tbl s0 b0 p (Suc i) s' ?b3"
          unfolding lex_inv_def using lt run' b2(4,6) wi f2 f1 i pp by (auto simp: at_pos_def)
        from less.hyps[OF _ this] show ?thesis using unroll it s' d(2) lt by auto
      qed
    qed
  qed
qed

lemma lex_engine_spec:
  assumes "table_ok tbl n" "buffer_ok b" "at_pos b p" "0 \<le> s" "s < n"
  shows "\<exists>r b'. lex_engine tbl (Val_int s) b = Some (r, b')
     \<and> lex_spec tbl s (symbols b p) (pos_after b p) r b'"
proof -
  have n: "n \<le> 32768" using assms(1) by (simp add: table_ok_def)
  let ?b = "b\<lparr>lex_start_pos := lex_curr_pos b, lex_last_pos := lex_curr_pos b, lex_last_action := Val_int (- 1)\<rparr>"
  have s: "sint (Long_val (Val_int s)) = s" using assms(4,5) n by (intro Long_val_Val_int) auto
  have "lex_inv tbl s b p 0 s ?b"
    using assms(3) by (auto simp: lex_inv_def at_pos_def pos_after_def symbols_def last_ok_def)
  from lex_loop_spec[OF assms(1,2) this assms(4,5)] show ?thesis
    using s assms(4) by (simp add: lex_engine_def)
qed

text \<open>
  C14. Lexing finds the longest match. On the first entry in a state \<open>s\<close> of well-formed tables, with the
  current position inside the buffer, \<open>lex_engine\<close> returns: either it has read all the symbols and asks
  for more; or it returns the action of the longest prefix of the symbols that the automaton of the
  tables accepts, with the current position after that prefix; or no prefix is accepted and the
  exception "empty token" is raised.
\<close>

theorem lex_engine_longest_match:
  assumes "table_ok tbl n" "buffer_ok b" "at_pos b p" "0 \<le> s" "s < n"
  shows "\<exists>r b'. lex_engine tbl (Val_int s) b = Some (r, b')
     \<and> lex_spec tbl s (symbols b p) (pos_after b p) r b'"
  by (rule lex_engine_spec[OF assms])

section \<open>Lexing in pieces\<close>

text \<open>
  The buffer of \<open>b\<close> with more text behind it, which is what lexing in pieces is compared with; \<open>e\<close> says
  whether the end of the input was met.
\<close>

definition refilled :: "u8 list \<Rightarrow> bool \<Rightarrow> lexer_buffer \<Rightarrow> lexer_buffer" where
  "refilled rest e b = b\<lparr>lex_buffer := lex_buffer b @ rest,
     lex_buffer_len := Val_int (int (length (lex_buffer b @ rest))), lex_eof_reached := Val_bool e\<rparr>"

lemma refilled_simps [simp]:
  "lex_curr_pos (refilled rest e b) = lex_curr_pos b" "lex_last_pos (refilled rest e b) = lex_last_pos b"
  "lex_last_action (refilled rest e b) = lex_last_action b"
  "refilled rest e (b\<lparr>lex_curr_pos := x\<rparr>) = (refilled rest e b)\<lparr>lex_curr_pos := x\<rparr>"
  "refilled rest e (b\<lparr>lex_last_pos := x\<rparr>) = (refilled rest e b)\<lparr>lex_last_pos := x\<rparr>"
  "refilled rest e (b\<lparr>lex_last_action := y\<rparr>) = (refilled rest e b)\<lparr>lex_last_action := y\<rparr>"
  "refilled rest e (b\<lparr>lex_start_pos := x\<rparr>) = (refilled rest e b)\<lparr>lex_start_pos := x\<rparr>"
  by (simp_all add: refilled_def)

lemma refilled_ok:
  "length (lex_buffer b @ rest) < 536870912 \<Longrightarrow> buffer_ok (refilled rest e b)"
  "at_pos b p \<Longrightarrow> at_pos (refilled rest e b) p"
  by (simp_all add: buffer_ok_def at_pos_def refilled_def)

lemma lex_next_refilled:
  assumes "buffer_ok b" "at_pos b p" "p < length (lex_buffer b)" "length (lex_buffer b @ rest) < 536870912"
    and "lex_next b = Some (c, b')"
  shows "lex_next (refilled rest e b) = Some (c, refilled rest e b')"
proof -
  have n: "\<not> sint (lex_buffer_len b) \<le> sint (lex_curr_pos b)" using at_end[OF assms(1,2)] assms(3) by simp
  have "\<not> sint (lex_buffer_len (refilled rest e b)) \<le> sint (lex_curr_pos (refilled rest e b))"
    using at_end[OF refilled_ok(1)[OF assms(4)] refilled_ok(2)[OF assms(2)]] assms(3) by (simp add: refilled_def)
  then show ?thesis using n assms(5)
    by (auto simp: lex_next_def rd_Some_iff refilled_def nth_append split: if_splits bind_splits)
qed

lemma lex_loop_refilled:
  assumes tb: "table_ok tbl n" and e: "len + length rest < 536870912"
  shows "buffer_ok b \<Longrightarrow> at_pos b p \<Longrightarrow> lex_eof_reached b = Val_bool False \<Longrightarrow> length (lex_buffer b) = len \<Longrightarrow>
    lex_last_action b = Val_int l \<Longrightarrow> - 1 \<le> l \<Longrightarrow> l < 32768 \<Longrightarrow> 0 \<le> s \<Longrightarrow> s < n \<Longrightarrow> 0 \<le> t \<Longrightarrow> t < 32768 \<Longrightarrow>
    lex_loop tbl s b = Some (Inr (Val_int (- t - 1)), b') \<Longrightarrow>
    lex_loop tbl t (refilled rest eof b') = lex_loop tbl s (refilled rest eof b)"
proof (induction "len - p" arbitrary: p s b l rule: less_induct)
  case less
  have n: "n \<le> 32768" using tb by (simp add: table_ok_def)
  obtain base where base: "Short (lex_base tbl) s = Some base"
    and nxt: "0 \<le> base \<Longrightarrow> Short (lex_backtrk tbl) s \<noteq> None \<and> (\<forall>c \<in> {0..256}. \<exists>s'. delta tbl s c = Some s' \<and> s' < n)"
  proof -
    have "s \<in> {0..<n}" using less.prems by simp
    then show ?thesis using that tb unfolding table_ok_def by blast
  qed
  have unroll: "lex_loop tbl s b = Option.bind (lex_iter tbl s b) (case_sum Some (\<lambda>(state, b). lex_loop tbl state b))"
    for s and b :: lexer_buffer by (rule lex_loop.simps)
  have neg: "Val_int (- t - 1) \<noteq> Val_int a" if "0 \<le> a" "a < 32769" for a
    using that less.prems by (subst Val_int_inj) auto
  show ?case
  proof (cases "base < 0")
    case True
    then have "lex_iter tbl s b = Some (Inl (Inr (Val_int (- base - 1)), b))" using base by (simp add: lex_iter_def)
    then show ?thesis using less.prems(12) unroll[of s b] neg[of "- base - 1"] True Short_range[OF base] by auto
  next
    case False
    then obtain a where a: "Short (lex_backtrk tbl) s = Some a" using nxt by auto
    define f where "f = (\<lambda>b :: lexer_buffer. if 0 \<le> a then b\<lparr>lex_last_pos := lex_curr_pos b, lex_last_action := Val_int a\<rparr> else b)"
    have ff: "f (refilled rest eof b) = refilled rest eof (f b)" for b by (simp add: f_def)
    have fi: "(if 0 \<le> a then b\<lparr>lex_last_pos := lex_curr_pos b, lex_last_action := Val_int a\<rparr> else b) = f b" for b
      by (simp add: f_def)
    have f1: "lex_buffer (f b) = lex_buffer b" "lex_buffer_len (f b) = lex_buffer_len b" "lex_curr_pos (f b) = lex_curr_pos b"
      "lex_eof_reached (f b) = lex_eof_reached b" "f (f b) = f b" for b by (simp_all add: f_def)
    have b1: "buffer_ok (f b)" "at_pos (f b) p" using less.prems(1,2) f1 by (simp_all add: buffer_ok_def at_pos_def)
    obtain l' where l': "lex_last_action (f b) = Val_int l'" "- 1 \<le> l'" "l' < 32768"
      using less.prems(5-7) Short_range[OF a] by (cases "0 \<le> a") (auto simp: f_def)
    have stop: "sint (lex_buffer_len (f b)) \<le> sint (lex_curr_pos (f b)) \<longleftrightarrow> p = len"
      using at_end[OF b1] f1 less.prems(4) by simp
    show ?thesis
    proof (cases "p = len")
      case True
      then have it: "lex_iter tbl s b = Some (Inl (Inr (Val_int (- s - 1)), f b))"
        using False stop f1 less.prems(3)
        unfolding lex_iter_def Let_def base a option.simps Option.bind.simps fi by simp
      then have "Val_int (- s - 1) = Val_int (- t - 1)" and b': "b' = f b" using less.prems(12) unroll[of s b] by auto
      then have "s = t" using less.prems n by (subst (asm) Val_int_inj) auto
      have "lex_iter tbl s (refilled rest eof (f b)) = lex_iter tbl s (refilled rest eof b)"
        unfolding lex_iter_def Let_def base a option.simps Option.bind.simps fi ff f1(5) if_not_P[OF False] ..
      then show ?thesis
        using unroll[of s "refilled rest eof (f b)"] unroll[of s "refilled rest eof b"] b' \<open>s = t\<close> by simp
    next
      case plt: False
      then have lt: "p < len" using less.prems(2,4) by (simp add: at_pos_def)
      obtain c cs where sym: "symbols (f b) p = c # cs" "c \<noteq> 256"
      proof -
        have l: "p < length (lex_buffer (f b))" using lt less.prems(4) f1 by simp
        then have "symbols (f b) p = uint (lex_buffer (f b) ! p) # symbols (f b) (Suc p)"
          by (simp add: symbols_def Cons_nth_drop_Suc[OF l, symmetric])
        then show ?thesis using that uint_bounded[of "lex_buffer (f b) ! p"] by simp
      qed
      obtain b2 where b2: "lex_next (f b) = Some (c, b2)" "0 \<le> c" "c \<le> 256"
        "at_pos b2 (min (p + 1) (length (lex_buffer (f b))))" "b2 = (f b)\<lparr>lex_curr_pos := lex_curr_pos b2\<rparr>"
        using lex_next_symbol[OF b1 sym(1)] by metis
      have f2: "lex_buffer b2 = lex_buffer (f b)" "lex_buffer_len b2 = lex_buffer_len (f b)"
        "lex_eof_reached b2 = lex_eof_reached (f b)" "lex_last_action b2 = lex_last_action (f b)"
        by (subst b2(5), simp)+
      obtain s' where d: "delta tbl s c = Some s'" "s' < n" using nxt b2(2,3) False by (meson atLeastAtMost_iff not_less)
      have d': "Option.bind (Short (lex_check tbl) (base + c))
          (\<lambda>k. if k = s then Short (lex_trans tbl) (base + c) else Short (lex_default tbl) s) = Some s'"
        using d(1) base by (simp add: delta_def)
      have step: "lex_iter tbl s x =
          (if s' < 0 then
             Some (Inl (if lex_last_action y = Val_int (- 1) then Inl (Failure ''lexing: empty token'')
                        else Inr (lex_last_action y), y\<lparr>lex_curr_pos := lex_last_pos y\<rparr>))
           else Some (Inr (s', y)))"
        if "\<not> sint (lex_buffer_len (f x)) \<le> sint (lex_curr_pos (f x))" "lex_next (f x) = Some (c, y)" for x y
        using lex_iter_step[OF base _ a _ _ that(2) d', of x] that(1) False sym(2) by (simp add: f_def)
      have it: "\<not> s' < 0" "lex_loop tbl s b = lex_loop tbl s' b2"
      proof -
        note i = step[OF _ b2(1)] stop plt
        show "\<not> s' < 0"
        proof
          assume "s' < 0"
          then have "lex_last_action b2 = Val_int (- t - 1) \<and> lex_last_action b2 \<noteq> Val_int (- 1)"
            using i unroll[of s b] less.prems(12) by (auto split: if_splits)
          then show False using l' f2(4) neg[of l'] by (cases "l' = - 1") auto
        qed
        then show "lex_loop tbl s b = lex_loop tbl s' b2" using i unroll[of s b] by simp
      qed
      have r2: "lex_next (f (refilled rest eof b)) = Some (c, refilled rest eof b2)"
        unfolding ff using lex_next_refilled[OF b1 _ _ b2(1)] lt less.prems(4) f1 e by simp
      have "\<not> sint (lex_buffer_len (f (refilled rest eof b))) \<le> sint (lex_curr_pos (f (refilled rest eof b)))"
        unfolding ff using at_end[OF refilled_ok(1) refilled_ok(2)[OF b1(2)], of rest eof] e f1 lt less.prems(4)
        by (simp add: refilled_def)
      from step[OF this r2] have "lex_loop tbl s (refilled rest eof b) = lex_loop tbl s' (refilled rest eof b2)"
        using unroll[of s "refilled rest eof b"] it(1) by simp
      moreover have "lex_loop tbl t (refilled rest eof b') = lex_loop tbl s' (refilled rest eof b2)"
      proof (rule less.hyps[of "p + 1" b2 l' s'])
        show "at_pos b2 (p + 1)" using b2(4) f1 less.prems(4) lt by simp
        show "buffer_ok b2" using b1(1) f2 by (simp add: buffer_ok_def)
      qed (use lt less.prems f1 f2 l' it d in auto)
      ultimately show ?thesis by simp
    qed
  qed
qed

text \<open>
  Going on from the state \<open>lex_engine\<close> returns when it asks for more, with the text extended in place,
  is lexing the whole text from the start.
\<close>

lemma lex_resume_appended:
  assumes "table_ok tbl n" "buffer_ok b" "at_pos b p" "0 \<le> s" "s < n" "lex_eof_reached b = Val_bool False"
    and "lex_engine tbl (Val_int s) b = Some (Inr (Val_int (- t - 1)), b')" "0 \<le> t" "t < 32768"
    and "length (lex_buffer b @ rest) < 536870912"
  shows "lex_engine tbl (Val_int (- t - 1)) (refilled rest eof b') = lex_engine tbl (Val_int s) (refilled rest eof b)"
proof -
  have n: "n \<le> 32768" using assms(1) by (simp add: table_ok_def)
  let ?f = "\<lambda>b. b\<lparr>lex_start_pos := lex_curr_pos b, lex_last_pos := lex_curr_pos b, lex_last_action := Val_int (- 1)\<rparr>"
  have s: "sint (Long_val (Val_int s)) = s" using assms(4,5) n by (intro Long_val_Val_int) auto
  have t: "sint (Long_val (Val_int (- t - 1))) = - t - 1" using assms(8,9) by (intro Long_val_Val_int) auto
  have ok: "buffer_ok (?f b)" "at_pos (?f b) p" using assms(2,3) by (simp_all add: buffer_ok_def at_pos_def)
  have "lex_loop tbl t (refilled rest eof b') = lex_loop tbl s (refilled rest eof (?f b))"
  proof (rule lex_loop_refilled[OF assms(1), where len = "length (lex_buffer b)" and l = "- 1"])
    show "length (lex_buffer b) + length rest < 536870912" using assms(10) by simp
    show "lex_loop tbl s (?f b) = Some (Inr (Val_int (- t - 1)), b')"
      using assms(7) s assms(4) by (simp add: lex_engine_def)
  qed (use ok assms in auto)
  then show ?thesis using s t assms(4,8) by (simp add: lex_engine_def)
qed

text \<open>
  A lexer for the identifiers \<open>a a*\<close> (action 0) and the single letter \<open>b\<close> (action 1): state 0 reads
  the first letter, state 1 has read \<open>a\<close>s, state 2 accepts at once. Characters have their codes as
  offsets into the transition tables of state 0, and their codes plus 100 for state 1.
\<close>

definition lex_tables :: lexing_table where
  "lex_tables = \<lparr>lex_base = [0, 100, - 2], lex_backtrk = [- 1, 0, - 1], lex_default = [- 1, - 1, - 1],
     lex_trans = (replicate 357 (- 1))[97 := 1, 98 := 2, 197 := 1],
     lex_check = (replicate 357 (- 1))[97 := 0, 98 := 0, 197 := 1]\<rparr>"

definition lex_buffer_at :: "u8 list \<Rightarrow> int \<Rightarrow> int \<Rightarrow> int \<Rightarrow> lexer_buffer" where
  "lex_buffer_at cs cur lst act = \<lparr>refill_buff = 1, lex_buffer = cs, lex_buffer_len = Val_int (int (length cs)),
     lex_abs_pos = Val_int 0, lex_start_pos = Val_int 0, lex_curr_pos = Val_int cur, lex_last_pos = Val_int lst,
     lex_last_action = Val_int act, lex_eof_reached = Val_bool False\<rparr>"

lemma table_ok_check:
  "n \<le> 32768 \<Longrightarrow>
   list_all (\<lambda>s. case Short (lex_base tbl) s of None \<Rightarrow> False
     | Some base \<Rightarrow> base < 0 \<or> Short (lex_backtrk tbl) s \<noteq> None \<and>
         list_all (\<lambda>c. case delta tbl s c of None \<Rightarrow> False | Some s' \<Rightarrow> s' < n) [0..256]) [0..n - 1] \<Longrightarrow>
   table_ok tbl n"
  unfolding table_ok_def list_all_iff by (fastforce split: option.splits)

lemma lex_tables_ok: "table_ok lex_tables 3"
  by (rule table_ok_check) code_simp+

lemma lex_loop_more: "lex_iter tbl s b = Some (Inr (s', b')) \<Longrightarrow> lex_loop tbl s b = lex_loop tbl s' b'"
  by (subst lex_loop.simps) simp

lemma lex_loop_done: "lex_iter tbl s b = Some (Inl r) \<Longrightarrow> lex_loop tbl s b = Some r"
  by (subst lex_loop.simps) simp

lemma lex_first_entry: "lex_engine tbl (Val_int 0) (lex_buffer_at cs 0 l a) = lex_loop tbl 0 (lex_buffer_at cs 0 0 (- 1))"
  by (simp add: lex_engine_def lex_buffer_at_def Long_val_Val_int)

lemma lex_buffer_at_ok:
  "buffer_ok (lex_buffer_at [97, 97, 98] 0 0 0)" "at_pos (lex_buffer_at [97, 97, 98] 0 0 0) 0"
  "buffer_ok (lex_buffer_at [97, 97] 0 0 0)" "at_pos (lex_buffer_at [97, 97] 0 0 0) 0"
  "lex_eof_reached (lex_buffer_at [97, 97] 0 0 0) = Val_bool False"
  "length (lex_buffer (lex_buffer_at [97, 97] 0 0 0) @ [98]) < 536870912"
  by (simp_all add: buffer_ok_def at_pos_def lex_buffer_at_def)

theorem lex_engine_longest_match_witness:
  "\<exists>r b'. lex_engine lex_tables (Val_int 0) (lex_buffer_at [97, 97, 98] 0 0 0) = Some (r, b')
     \<and> lex_spec lex_tables 0 [97, 97, 98] (\<lambda>i. min i 3) r b' \<and> r = Inr (Val_int 0) \<and> lex_curr_pos b' = Val_int 2"
proof -
  have s: "symbols (lex_buffer_at [97, 97, 98] 0 0 0) 0 = [97, 97, 98]"
    "pos_after (lex_buffer_at [97, 97, 98] 0 0 0) 0 = (\<lambda>i. min i 3)"
    by (simp_all add: symbols_def pos_after_def lex_buffer_at_def fun_eq_iff numeral_3_eq_3)
  have "lex_iter lex_tables 0 (lex_buffer_at [97, 97, 98] 0 0 (- 1)) = Some (Inr (1, lex_buffer_at [97, 97, 98] 1 0 (- 1)))"
    "lex_iter lex_tables 1 (lex_buffer_at [97, 97, 98] 1 0 (- 1)) = Some (Inr (1, lex_buffer_at [97, 97, 98] 2 1 0))"
    "lex_iter lex_tables 1 (lex_buffer_at [97, 97, 98] 2 1 0) = Some (Inl (Inr (Val_int 0), lex_buffer_at [97, 97, 98] 2 2 0))"
    by code_simp+
  note i = this(1,2)[THEN lex_loop_more] this(3)[THEN lex_loop_done]
  have "lex_engine lex_tables (Val_int 0) (lex_buffer_at [97, 97, 98] 0 0 0)
      = Some (Inr (Val_int 0), lex_buffer_at [97, 97, 98] 2 2 0)"
    unfolding lex_first_entry by (simp only: i)
  then show ?thesis
    using lex_engine_longest_match[OF lex_tables_ok lex_buffer_at_ok(1,2), of 0] unfolding s
    by (simp add: lex_buffer_at_def)
qed

end
