(* ===== verification/Lex_Refill.thy ===== *)
theory Lex_Refill
  imports Lexing
begin

text \<open>
  The buffer of the generated lexers (\<open>src/lib_parsing/lexing_.ml\<close>): the refill that moves the text to
  make room for what it has read, and the token of a match. A string a program creates has the
  contents \<open>create\<close> gives for its length; what \<open>read_fun\<close> does is its result and the contents it leaves in
  the auxiliary buffer.
\<close>

section \<open>The code\<close>

definition ml_add :: "val \<Rightarrow> nat \<Rightarrow> val" where "ml_add v n = v + 2 * word_of_nat n"
definition ml_sub :: "val \<Rightarrow> nat \<Rightarrow> val" where "ml_sub v n = v - 2 * word_of_nat n"

definition pos_nat :: "val \<Rightarrow> nat option" where
  "pos_nat v = (if sint (Long_val v) < 0 then None else Some (unat (Long_val v)))"

text \<open>\<open>String.unsafe_blit\<close> inside the bounds of both strings.\<close>

definition blit :: "u8 list \<Rightarrow> nat \<Rightarrow> u8 list \<Rightarrow> nat \<Rightarrow> nat \<Rightarrow> u8 list option" where
  "blit src i dst j n =
    (if i + n \<le> length src \<and> j + n \<le> length dst then Some (take j dst @ take n (drop i src) @ drop (j + n) dst) else None)"

definition grow_buffer :: "(nat \<Rightarrow> u8 list) \<Rightarrow> lexer_buffer \<Rightarrow> lexer_buffer option" where
  "grow_buffer create b = do {
     oldlen \<leftarrow> pos_nat (lex_buffer_len b);
     let newlen = oldlen * 2;
     newbuf \<leftarrow> blit (lex_buffer b) 0 (create newlen) oldlen oldlen;
     Some (b\<lparr>lex_buffer := newbuf, lex_buffer_len := Val_int (int newlen), lex_abs_pos := ml_sub (lex_abs_pos b) oldlen,
             lex_curr_pos := ml_add (lex_curr_pos b) oldlen, lex_start_pos := ml_add (lex_start_pos b) oldlen,
             lex_last_pos := ml_add (lex_last_pos b) oldlen\<rparr>)
   }"

definition lex_refill :: "(nat \<Rightarrow> u8 list) \<Rightarrow> u8 list \<Rightarrow> int \<Rightarrow> lexer_buffer \<Rightarrow> lexer_buffer option" where
  "lex_refill create aux read b = do {
     let n = nat read;
     let b = (if 0 < read then b else b\<lparr>lex_eof_reached := Val_bool True\<rparr>);
     b \<leftarrow> (if sint (Long_val (lex_start_pos b)) < int n then grow_buffer create b else Some b);
     len \<leftarrow> pos_nat (lex_buffer_len b);
     if len < n then None
     else do {
       buf \<leftarrow> blit (lex_buffer b) n (lex_buffer b) 0 (len - n);
       buf \<leftarrow> blit aux 0 buf (len - n) n;
       Some (b\<lparr>lex_buffer := buf, lex_abs_pos := ml_add (lex_abs_pos b) n, lex_curr_pos := ml_sub (lex_curr_pos b) n,
               lex_start_pos := ml_sub (lex_start_pos b) n, lex_last_pos := ml_sub (lex_last_pos b) n\<rparr>)
     }
   }"

definition from_function :: "(nat \<Rightarrow> u8 list) \<Rightarrow> val \<Rightarrow> lexer_buffer" where
  "from_function create refill = \<lparr>refill_buff = refill, lex_buffer = create 1024, lex_buffer_len = Val_int 1024,
     lex_abs_pos = Val_int (- 1024), lex_start_pos = Val_int 1024, lex_curr_pos = Val_int 1024, lex_last_pos = Val_int 1024,
     lex_last_action = Val_int 0, lex_eof_reached = Val_bool False\<rparr>"

definition lexeme :: "lexer_buffer \<Rightarrow> u8 list option" where
  "lexeme b = do {
     s \<leftarrow> pos_nat (lex_start_pos b);
     c \<leftarrow> pos_nat (lex_curr_pos b);
     if c < s \<or> length (lex_buffer b) < c then None else Some (take (c - s) (drop s (lex_buffer b)))
   }"

definition lexeme_start :: "lexer_buffer \<Rightarrow> val" where
  "lexeme_start b = lex_abs_pos b + lex_start_pos b - 1"

definition lexeme_end :: "lexer_buffer \<Rightarrow> val" where
  "lexeme_end b = lex_abs_pos b + lex_curr_pos b - 1"

section \<open>Buffers with the same text at different places\<close>

text \<open>
  From position \<open>p\<close> on, \<open>b\<close> holds the same text as \<open>c\<close> from position \<open>q\<close> on, and all positions of the two are
  the same distance after \<open>p\<close> and \<open>q\<close>.
\<close>

definition same_pos :: "nat \<Rightarrow> nat \<Rightarrow> nat \<Rightarrow> val \<Rightarrow> val \<Rightarrow> bool" where
  "same_pos p q m u v \<longleftrightarrow> (\<exists>x \<le> m. u = Val_int (int (p + x)) \<and> v = Val_int (int (q + x)))"

definition shifted :: "nat \<Rightarrow> nat \<Rightarrow> lexer_buffer \<Rightarrow> lexer_buffer \<Rightarrow> bool" where
  "shifted p q b c \<longleftrightarrow> buffer_ok b \<and> buffer_ok c \<and> p \<le> length (lex_buffer b) \<and> q \<le> length (lex_buffer c)
     \<and> drop p (lex_buffer b) = drop q (lex_buffer c)
     \<and> (let m = length (lex_buffer b) - p in same_pos p q m (lex_curr_pos b) (lex_curr_pos c)
          \<and> same_pos p q m (lex_last_pos b) (lex_last_pos c) \<and> same_pos p q m (lex_start_pos b) (lex_start_pos c))
     \<and> lex_abs_pos b + 2 * word_of_nat p = lex_abs_pos c + 2 * word_of_nat q
     \<and> lex_last_action b = lex_last_action c \<and> lex_eof_reached b = lex_eof_reached c"

lemma shiftedD:
  assumes "shifted p q b c"
  obtains x where "x \<le> length (lex_buffer b) - p" "at_pos b (p + x)" "at_pos c (q + x)"
    "buffer_ok b" "buffer_ok c" "length (lex_buffer b) - p = length (lex_buffer c) - q"
    "p + x = length (lex_buffer b) \<longleftrightarrow> q + x = length (lex_buffer c)"
proof -
  have l: "length (lex_buffer b) - p = length (lex_buffer c) - q"
  proof -
    have "length (drop p (lex_buffer b)) = length (drop q (lex_buffer c))" using assms by (simp add: shifted_def)
    then show ?thesis by simp
  qed
  from assms obtain x where x: "x \<le> length (lex_buffer b) - p" "lex_curr_pos b = Val_int (int (p + x))"
    "lex_curr_pos c = Val_int (int (q + x))" by (auto simp: shifted_def Let_def same_pos_def)
  have "p \<le> length (lex_buffer b)" "q \<le> length (lex_buffer c)" "buffer_ok b" "buffer_ok c"
    using assms by (auto simp: shifted_def)
  then have "p + x \<le> length (lex_buffer b)" "q + x \<le> length (lex_buffer c)"
    "p + x = length (lex_buffer b) \<longleftrightarrow> q + x = length (lex_buffer c)" using x(1) l by linarith+
  then show ?thesis using that[of x] x l \<open>buffer_ok b\<close> \<open>buffer_ok c\<close> by (simp add: at_pos_def)
qed

lemma at_pos_nat: "at_pos b p \<Longrightarrow> buffer_ok b \<Longrightarrow> sint (Long_val (lex_curr_pos b)) = int p \<and> unat (Long_val (lex_curr_pos b)) = p"
proof -
  assume p: "at_pos b p" and b: "buffer_ok b"
  then have l: "sint (Long_val (lex_curr_pos b)) = int p" by (simp add: at_pos_def buffer_ok_def Long_val_Val_int)
  then have "int (unat (Long_val (lex_curr_pos b))) = int p" using unat_nonneg[of "Long_val (lex_curr_pos b)"] by linarith
  then show ?thesis using l by linarith
qed

lemma shifted_end:
  assumes "shifted p q b c"
  shows "sint (lex_buffer_len b) \<le> sint (lex_curr_pos b) \<longleftrightarrow> sint (lex_buffer_len c) \<le> sint (lex_curr_pos c)"
proof -
  obtain x where "at_pos b (p + x)" "at_pos c (q + x)" "buffer_ok b" "buffer_ok c"
    "p + x = length (lex_buffer b) \<longleftrightarrow> q + x = length (lex_buffer c)" by (rule shiftedD[OF assms])
  then show ?thesis using at_end by metis
qed

definition same_lex :: "nat \<Rightarrow> nat \<Rightarrow> 'a \<times> lexer_buffer \<Rightarrow> 'a \<times> lexer_buffer \<Rightarrow> bool" where
  "same_lex p q u v \<longleftrightarrow> fst u = fst v \<and> shifted p q (snd u) (snd v)"

lemma lex_next_shifted:
  assumes s: "shifted p q b c"
  shows "rel_option (same_lex p q) (lex_next b) (lex_next c)"
proof (cases "sint (lex_buffer_len b) \<le> sint (lex_curr_pos b)")
  case True
  then show ?thesis using s shifted_end[OF s] by (simp add: lex_next_def same_lex_def)
next
  case False
  obtain x where x: "x \<le> length (lex_buffer b) - p" "at_pos b (p + x)" "at_pos c (q + x)" "buffer_ok b" "buffer_ok c"
    "p + x = length (lex_buffer b) \<longleftrightarrow> q + x = length (lex_buffer c)" by (rule shiftedD[OF s])
  have lt: "p + x < length (lex_buffer b)" "q + x < length (lex_buffer c)"
    using False at_end[OF x(4,2)] x(2,3,6) by (auto simp: at_pos_def)
  have e: "lex_buffer b ! (p + x) = lex_buffer c ! (q + x)"
  proof -
    have "drop p (lex_buffer b) ! x = drop q (lex_buffer c) ! x" using s by (simp add: shifted_def)
    then show ?thesis using lt by simp
  qed
  note nb = at_pos_nat[OF x(2,4)] and nc = at_pos_nat[OF x(3,5)]
  have "lex_next b = Some (uint (lex_buffer b ! (p + x)), b\<lparr>lex_curr_pos := Val_int (int (p + (x + 1)))\<rparr>)"
    using False nb lt(1) x(2) Val_int_plus2[of "int p + int x"] by (simp add: lex_next_def rd_def at_pos_def ac_simps)
  moreover have "lex_next c = Some (uint (lex_buffer c ! (q + x)), c\<lparr>lex_curr_pos := Val_int (int (q + (x + 1)))\<rparr>)"
    using False shifted_end[OF s] nc lt(2) x(3) Val_int_plus2[of "int q + int x"] by (simp add: lex_next_def rd_def at_pos_def ac_simps)
  moreover have "same_pos p q (length (lex_buffer b) - p) (Val_int (int (p + (x + 1)))) (Val_int (int (q + (x + 1))))"
    using lt(1) unfolding same_pos_def by (intro exI[of _ "x + 1"]) simp
  ultimately show ?thesis using s e by (simp add: same_lex_def shifted_def Let_def buffer_ok_def)
qed

lemma shifted_update:
  "shifted p q b c \<Longrightarrow> shifted p q (b\<lparr>lex_last_pos := lex_curr_pos b, lex_last_action := a\<rparr>)
     (c\<lparr>lex_last_pos := lex_curr_pos c, lex_last_action := a\<rparr>)"
  "shifted p q b c \<Longrightarrow> shifted p q (b\<lparr>lex_curr_pos := lex_last_pos b\<rparr>) (c\<lparr>lex_curr_pos := lex_last_pos c\<rparr>)"
  "shifted p q b c \<Longrightarrow> shifted p q (b\<lparr>lex_eof_reached := e\<rparr>) (c\<lparr>lex_eof_reached := e\<rparr>)"
  by (simp_all add: shifted_def Let_def buffer_ok_def)

lemma shifted_same: "shifted p q b c \<Longrightarrow> lex_last_action b = lex_last_action c \<and> lex_eof_reached b = lex_eof_reached c"
  by (simp add: shifted_def)

text \<open>A turn of the engine, and the whole engine, do the same on both.\<close>

lemma lex_iter_shifted:
  assumes s: "shifted p q b c"
  shows "rel_option (rel_sum (same_lex p q) (same_lex p q)) (lex_iter tbl st b) (lex_iter tbl st c)"
proof (cases "Short (lex_base tbl) st")
  case (Some base)
  show ?thesis
  proof (cases "base < 0 \<or> Short (lex_backtrk tbl) st = None")
    case True
    then show ?thesis using s Some by (auto simp: lex_iter_def same_lex_def)
  next
    case False
    then obtain a where a: "Short (lex_backtrk tbl) st = Some a" "\<not> base < 0" by auto
    define f :: "lexer_buffer \<Rightarrow> lexer_buffer" where "f = (\<lambda>b. if 0 \<le> a then b\<lparr>lex_last_pos := lex_curr_pos b, lex_last_action := Val_int a\<rparr> else b)"
    have s1: "shifted p q (f b) (f c)" using shifted_update(1)[OF s] s by (simp add: f_def)
    define g where "g = (\<lambda>(ch, b :: lexer_buffer). do {
         k \<leftarrow> Short (lex_check tbl) (base + ch);
         state' \<leftarrow> (if k = st then Short (lex_trans tbl) (base + ch) else Short (lex_default tbl) st);
         if state' < 0 then
           let b = b\<lparr>lex_curr_pos := lex_last_pos b\<rparr> in
           Some (Inl (if lex_last_action b = Val_int (- 1) then Inl (Failure ''lexing: empty token'')
                      else Inr (lex_last_action b), b) :: lex_result + int \<times> lexer_buffer)
         else Some (Inr (state', if ch = 256 then b\<lparr>lex_eof_reached := Val_bool False\<rparr> else b)) })"
    define stop where "stop = (\<lambda>b :: lexer_buffer. sint (lex_buffer_len b) \<le> sint (lex_curr_pos b) \<and> lex_eof_reached b = Val_bool False)"
    have it: "lex_iter tbl st b = (if stop (f b) then Some (Inl (Inr (Val_int (- st - 1)), f b)) else Option.bind (lex_next (f b)) g)" for b
      using Some a by (simp add: lex_iter_def f_def g_def stop_def Let_def)
    have e: "stop (f b) = stop (f c)" using shifted_end[OF s1] shifted_same[OF s1] by (simp add: stop_def)
    have g: "rel_option (rel_sum (same_lex p q) (same_lex p q)) (g u) (g v)" if "same_lex p q u v" for u v
      using that shifted_update(2,3) shifted_same[of p q "snd u" "snd v"]
      by (cases u; cases v) (auto simp: g_def same_lex_def Let_def split: bind_splits)
    show ?thesis
    proof (cases "stop (f b)")
      case True
      then show ?thesis using s1 e by (simp add: it same_lex_def)
    next
      case False
      then show ?thesis using e lex_next_shifted[OF s1] g
        by (cases "lex_next (f b)"; cases "lex_next (f c)") (simp_all add: it)
    qed
  qed
qed (simp add: lex_iter_def)

lemma lex_loop_shifted:
  assumes r: "lex_loop tbl st b = Some r" and s: "shifted p q b c"
  shows "\<exists>r'. lex_loop tbl st c = Some r' \<and> same_lex p q r r'"
proof -
  have "\<forall>c. shifted p q b c \<longrightarrow> (\<exists>r'. lex_loop tbl st c = Some r' \<and> same_lex p q r r')"
  proof (rule lex_loop.raw_induct[OF _ r, of "\<lambda>tbl st b r. \<forall>c. shifted p q b c \<longrightarrow>
      (\<exists>r'. lex_loop tbl st c = Some r' \<and> same_lex p q r r')"], intro allI impI)
    fix rec tbl st b r c
    assume ih: "\<And>tbl st b r. rec tbl st b = Some r \<Longrightarrow> \<forall>c. shifted p q b c \<longrightarrow>
          (\<exists>r'. lex_loop tbl st c = Some r' \<and> same_lex p q r r')"
      and b: "Option.bind (lex_iter tbl st b) (case_sum Some (\<lambda>(state, b). rec tbl state b)) = Some r"
      and s: "shifted p q b c"
    from b obtain u where u: "lex_iter tbl st b = Some u" "case_sum Some (\<lambda>(state, b). rec tbl state b) u = Some r"
      by (auto split: bind_splits)
    from lex_iter_shifted[OF s, of tbl st] u(1) obtain v where v: "lex_iter tbl st c = Some v"
      "rel_sum (same_lex p q) (same_lex p q) u v" by (auto simp: option_rel_Some1)
    show "\<exists>r'. lex_loop tbl st c = Some r' \<and> same_lex p q r r'"
      using v(2)
    proof (cases rule: rel_sum.cases)
      case (1 x y)
      then show ?thesis using u(2) v(1) lex_loop_done[of tbl st c y] by auto
    next
      case (2 x y)
      then have "lex_loop tbl st c = lex_loop tbl (fst y) (snd y)" using v(1) lex_loop_more[of tbl st c "fst y" "snd y"] by simp
      moreover have "rec tbl (fst x) (snd x) = Some r" using u(2) 2 by (simp add: case_prod_unfold)
      ultimately show ?thesis using ih[of tbl "fst x" "snd x" r] 2 by (simp add: same_lex_def)
    qed
  qed
  then show ?thesis using s by blast
qed

text \<open>The engine changes the positions and the flag only, and a match starts where it started.\<close>

definition same_text :: "lexer_buffer \<Rightarrow> lexer_buffer \<Rightarrow> bool" where
  "same_text b c \<longleftrightarrow> lex_buffer c = lex_buffer b \<and> lex_buffer_len c = lex_buffer_len b \<and> lex_start_pos c = lex_start_pos b
     \<and> lex_abs_pos c = lex_abs_pos b \<and> (lex_eof_reached b = Val_bool False \<longrightarrow> lex_eof_reached c = Val_bool False)"

lemma lex_iter_text:
  "lex_iter tbl st b = Some (Inl (r, c)) \<Longrightarrow> same_text b c" "lex_iter tbl st b = Some (Inr (st', c)) \<Longrightarrow> same_text b c"
  by (auto simp: lex_iter_def lex_next_def same_text_def Let_def split: if_splits bind_splits)

lemma lex_loop_text:
  assumes r: "lex_loop tbl st b = Some r"
  shows "same_text b (snd r)"
proof (rule lex_loop.raw_induct[OF _ r, of "\<lambda>tbl st b r. same_text b (snd r)"])
  fix rec tbl st b r
  assume ih: "\<And>tbl st b r. rec tbl st b = Some r \<Longrightarrow> same_text b (snd r)"
    and b: "Option.bind (lex_iter tbl st b) (case_sum Some (\<lambda>(state, b). rec tbl state b)) = Some r"
  from b obtain u where u: "lex_iter tbl st b = Some u" "case_sum Some (\<lambda>(state, b). rec tbl state b) u = Some r"
    by (auto split: bind_splits)
  show "same_text b (snd r)"
  proof (cases u)
    case (Inl x)
    then show ?thesis using u lex_iter_text(1)[of tbl st b "fst r" "snd r"] by simp
  next
    case (Inr x)
    then have "rec tbl (fst x) (snd x) = Some r" using u(2) by (simp add: case_prod_unfold)
    from ih[OF this] show ?thesis using Inr u(1) lex_iter_text(2)[of tbl st b "fst x" "snd x"] by (simp add: same_text_def)
  qed
qed

section \<open>The refill\<close>

lemma ml_sub_Val: "n \<le> p \<Longrightarrow> ml_sub (Val_int (int p)) n = Val_int (int (p - n))"
  by (simp add: ml_sub_def Val_int_word algebra_simps of_nat_diff)

lemma ml_add_Val: "ml_add (Val_int (int p)) n = Val_int (int (p + n))"
  by (simp add: ml_add_def Val_int_word algebra_simps)

lemma pos_nat_Val: "p < 536870912 \<Longrightarrow> pos_nat (Val_int (int p)) = Some p"
proof -
  assume "p < 536870912"
  then have l: "sint (Long_val (Val_int (int p))) = int p" by (simp add: Long_val_Val_int)
  then have "int (unat (Long_val (Val_int (int p)))) = int p" using unat_nonneg[of "Long_val (Val_int (int p))"] by linarith
  then have "unat (Long_val (Val_int (int p))) = p" by (simp only: of_nat_eq_iff)
  then show ?thesis using l by (simp add: pos_nat_def)
qed

lemma grow_buffer_shifted:
  assumes "shifted p p b b" "2 * length (lex_buffer b) < 536870912" "\<forall>k. length (create k) = k" "p \<le> length (lex_buffer b)"
  shows "\<exists>c. grow_buffer create b = Some c \<and> shifted p (p + length (lex_buffer b)) b c \<and> length (lex_buffer c) = 2 * length (lex_buffer b)
    \<and> refill_buff c = refill_buff b"
proof -
  let ?l = "length (lex_buffer b)"
  have bl: "lex_buffer_len b = Val_int (int ?l)" using assms(1) by (simp add: shifted_def buffer_ok_def)
  have g: "same_pos p (p + ?l) m u (ml_add u ?l)" if "same_pos p p m u u" for m u
    using that unfolding same_pos_def by (auto simp: ml_add_Val simp del: of_nat_add simp: add_ac)
  have bt: "blit (lex_buffer b) 0 (create (?l * 2)) ?l ?l = Some (take ?l (create (?l * 2)) @ lex_buffer b)"
    using assms(3) by (simp add: blit_def)
  show ?thesis
    using assms bl bt g by (simp add: grow_buffer_def pos_nat_Val shifted_def Let_def buffer_ok_def ml_sub_def mult.commute[of _ 2])
qed

text \<open>Text that is added behind both buffers, and the move to the front.\<close>

lemma same_pos_mono: "same_pos p q m u v \<Longrightarrow> m \<le> m' \<Longrightarrow> same_pos p q m' u v"
  by (auto simp: same_pos_def intro: order_trans)

lemma shifted_append:
  assumes "shifted p q b c" "length (lex_buffer b) + length data < 536870912" "length (lex_buffer c) + length data < 536870912"
  shows "shifted p q (refilled data e b) (refilled data e c)"
proof -
  have "same_pos p q (length (lex_buffer b) + length data - p) u v" if "same_pos p q (length (lex_buffer b) - p) u v" for u v
    by (rule same_pos_mono[OF that]) simp
  then show ?thesis using assms by (simp add: shifted_def Let_def refilled_def buffer_ok_def)
qed

lemma shifted_drop:
  assumes "shifted p p b b" "n \<le> p"
  shows "shifted p (p - n) b (b\<lparr>lex_buffer := drop n (lex_buffer b), lex_buffer_len := Val_int (int (length (lex_buffer b) - n)),
    lex_abs_pos := ml_add (lex_abs_pos b) n, lex_curr_pos := ml_sub (lex_curr_pos b) n, lex_start_pos := ml_sub (lex_start_pos b) n,
    lex_last_pos := ml_sub (lex_last_pos b) n\<rparr>)"
proof -
  have g: "same_pos p (p - n) m u (ml_sub u n)" if h: "same_pos p p m u u" for m u
  proof -
    obtain x where x: "x \<le> m" "u = Val_int (int (p + x))" using h by (auto simp: same_pos_def)
    have "ml_sub (Val_int (int (p + x))) n = Val_int (int (p + x - n))" using assms(2) by (intro ml_sub_Val) simp
    moreover have "p + x - n = p - n + x" using assms(2) by simp
    ultimately show ?thesis using x unfolding same_pos_def by (intro exI[of _ x]) simp
  qed
  have "word_of_nat p = (word_of_nat n + word_of_nat (p - n) :: u32)" using assms(2) by (simp flip: of_nat_add)
  then have "lex_abs_pos b + 2 * word_of_nat p = ml_add (lex_abs_pos b) n + 2 * word_of_nat (p - n)" by (simp add: ml_add_def algebra_simps)
  moreover have "drop p (lex_buffer b) = drop (p - n) (drop n (lex_buffer b))" using assms(2) by simp
  ultimately show ?thesis using assms g by (auto simp: shifted_def Let_def buffer_ok_def)
qed

lemma shifted_trans_self:
  assumes "shifted p q b c" shows "shifted q q c c" "shifted p p b b"
proof -
  have "length (drop p (lex_buffer b)) = length (drop q (lex_buffer c))" using assms by (simp add: shifted_def)
  then have l: "length (lex_buffer b) - p = length (lex_buffer c) - q" by simp
  have "same_pos p p m u u \<and> same_pos q q m v v" if "same_pos p q m u v" for m u v using that by (auto simp: same_pos_def)
  then show "shifted q q c c" "shifted p p b b" using assms unfolding shifted_def Let_def l by blast+
qed

lemma shifted_trans:
  assumes "shifted p q b c" "shifted q r c d"
  shows "shifted p r b d"
proof -
  have "length (drop p (lex_buffer b)) = length (drop q (lex_buffer c))" using assms(1) by (simp add: shifted_def)
  then have l: "length (lex_buffer b) - p = length (lex_buffer c) - q" by simp
  have s: "same_pos p r m u w" if h: "same_pos p q m u v" "same_pos q r m v w" "q + m < 536870912" for m u v w
  proof -
    obtain x where x: "x \<le> m" "u = Val_int (int (p + x))" "v = Val_int (int (q + x))" using h(1) by (auto simp: same_pos_def)
    obtain y where y: "y \<le> m" "v = Val_int (int (q + y))" "w = Val_int (int (r + y))" using h(2) by (auto simp: same_pos_def)
    have "int (q + x) = int (q + y)" using x y h(3) Val_int_inj[of "int (q + x)" "int (q + y)"] by simp
    then show ?thesis using x y unfolding same_pos_def by auto
  qed
  have "q + (length (lex_buffer c) - q) < 536870912" using assms(1) by (simp add: shifted_def buffer_ok_def)
  then show ?thesis using assms s l unfolding shifted_def Let_def by metis
qed

text \<open>The refill: the text goes on with what was read, at a new place.\<close>

lemma lex_refill_shifted:
  assumes s: "shifted p p b b" and st: "lex_start_pos b = Val_int (int p)" and e: "lex_eof_reached b = Val_bool False"
    and c: "\<forall>k. length (create k) = k" and n: "nat read \<le> length aux" "nat read \<le> length (lex_buffer b)"
    and l: "2 * length (lex_buffer b) < 536870912"
  shows "\<exists>b1 q. lex_refill create aux read b = Some b1 \<and> shifted p q (refilled (take (nat read) aux) (read \<le> 0) b) b1"
proof -
  let ?n = "nat read" and ?data = "take (nat read) aux"
  have p: "p \<le> length (lex_buffer b)" "length (lex_buffer b) < 536870912" using s by (auto simp: shifted_def buffer_ok_def)
  define b0 where "b0 = (if 0 < read then b else b\<lparr>lex_eof_reached := Val_bool True\<rparr>)"
  have b0: "shifted p p b0 b0" "lex_buffer b0 = lex_buffer b" "lex_start_pos b0 = Val_int (int p)" "lex_eof_reached b0 = Val_bool (read \<le> 0)"
    using s st e by (auto simp: b0_def shifted_update(3))
  have sp: "sint (Long_val (lex_start_pos b0)) = int p" using p by (simp add: b0(3) Long_val_Val_int)
  have "\<exists>b2 q. (if int p < int ?n then grow_buffer create b0 else Some b0) = Some b2 \<and> shifted p q b0 b2 \<and> ?n \<le> q \<and> length (lex_buffer b2) \<le> 2 * length (lex_buffer b)"
  proof (cases "p < ?n")
    case True
    then show ?thesis using grow_buffer_shifted[OF b0(1) _ c] l p b0(2) n(2) by fastforce
  next
    case False
    then show ?thesis using b0(1,2) by auto
  qed
  then obtain b2 q where b2: "(if int p < int ?n then grow_buffer create b0 else Some b0) = Some b2" "shifted p q b0 b2" "?n \<le> q"
    "length (lex_buffer b2) \<le> 2 * length (lex_buffer b)" by blast
  have q: "q \<le> length (lex_buffer b2)" "lex_buffer_len b2 = Val_int (int (length (lex_buffer b2)))"
    using b2(2) by (simp_all add: shifted_def buffer_ok_def)
  define buf where "buf = lex_buffer b2"
  define b3 where "b3 = b2\<lparr>lex_buffer := drop ?n buf, lex_buffer_len := Val_int (int (length buf - ?n)),
    lex_abs_pos := ml_add (lex_abs_pos b2) ?n, lex_curr_pos := ml_sub (lex_curr_pos b2) ?n, lex_start_pos := ml_sub (lex_start_pos b2) ?n,
    lex_last_pos := ml_sub (lex_last_pos b2) ?n\<rparr>"
  have b3: "shifted p (q - ?n) b0 b3"
    unfolding b3_def buf_def by (rule shifted_trans[OF b2(2)]) (rule shifted_drop[OF shifted_trans_self(1)[OF b2(2)] b2(3)])
  have nl: "?n \<le> length buf" using b2(3) q(1) by (simp add: buf_def)
  have "blit buf ?n buf 0 (length buf - ?n) = Some (drop ?n buf @ drop (length buf - ?n) buf)"
    using nl by (simp add: blit_def)
  moreover have "blit aux 0 (drop ?n buf @ drop (length buf - ?n) buf) (length buf - ?n) ?n = Some (drop ?n buf @ ?data)"
    using nl n(1) by (simp add: blit_def)
  moreover have "pos_nat (lex_buffer_len b2) = Some (length buf)" using b2(4) l q(2) by (simp add: pos_nat_Val buf_def)
  ultimately have "lex_refill create aux read b = Some (b2\<lparr>lex_buffer := drop ?n buf @ ?data, lex_abs_pos := ml_add (lex_abs_pos b2) ?n,
      lex_curr_pos := ml_sub (lex_curr_pos b2) ?n, lex_start_pos := ml_sub (lex_start_pos b2) ?n, lex_last_pos := ml_sub (lex_last_pos b2) ?n\<rparr>)"
    unfolding lex_refill_def Let_def b0_def[symmetric] sp b2(1) using nl by (simp add: buf_def[symmetric])
  moreover have "b2\<lparr>lex_buffer := drop ?n buf @ ?data, lex_abs_pos := ml_add (lex_abs_pos b2) ?n,
      lex_curr_pos := ml_sub (lex_curr_pos b2) ?n, lex_start_pos := ml_sub (lex_start_pos b2) ?n, lex_last_pos := ml_sub (lex_last_pos b2) ?n\<rparr>
      = refilled ?data (read \<le> 0) b3"
  proof -
    have "lex_eof_reached b2 = Val_bool (read \<le> 0)" using shifted_same[OF b2(2)] b0(4) by simp
    moreover have "length (drop ?n buf @ ?data) = length buf" using nl n(1) by simp
    ultimately show ?thesis using q(2) by (cases b2) (simp add: refilled_def b3_def buf_def)
  qed
  moreover have "shifted p (q - ?n) (refilled ?data (read \<le> 0) b0) (refilled ?data (read \<le> 0) b3)"
    using b2(4) b0(2) l n nl by (intro shifted_append[OF b3]) (simp_all add: b3_def buf_def)
  moreover have "refilled ?data (read \<le> 0) b0 = refilled ?data (read \<le> 0) b" by (simp add: refilled_def b0_def)
  ultimately show ?thesis by metis
qed

section \<open>Lexing through refills\<close>

text \<open>The token, its place in the input and the text after it are the same for both buffers.\<close>

definition same_token :: "lexer_buffer \<Rightarrow> lexer_buffer \<Rightarrow> bool" where
  "same_token b c \<longleftrightarrow> lexeme b \<noteq> None \<and> lexeme b = lexeme c \<and> lexeme_start b = lexeme_start c \<and> lexeme_end b = lexeme_end c
     \<and> drop (unat (Long_val (lex_curr_pos b))) (lex_buffer b) = drop (unat (Long_val (lex_curr_pos c))) (lex_buffer c)
     \<and> lex_eof_reached b = lex_eof_reached c"

lemma shifted_token:
  assumes s: "shifted p q b c" and st: "lex_start_pos b = Val_int (int p)"
  shows "same_token b c"
proof -
  obtain x where x: "x \<le> length (lex_buffer b) - p" "at_pos b (p + x)" "at_pos c (q + x)" "buffer_ok b" "buffer_ok c"
    by (rule shiftedD[OF s])
  have pq: "p \<le> length (lex_buffer b)" "q \<le> length (lex_buffer c)" "drop p (lex_buffer b) = drop q (lex_buffer c)"
    "length (lex_buffer b) < 536870912" "length (lex_buffer c) < 536870912"
    using s by (auto simp: shifted_def buffer_ok_def)
  have "same_pos p q (length (lex_buffer b) - p) (lex_start_pos b) (lex_start_pos c)" using s by (simp add: shifted_def Let_def)
  then obtain z where z: "z \<le> length (lex_buffer b) - p" "Val_int (int p) = Val_int (int (p + z))" "lex_start_pos c = Val_int (int (q + z))"
    unfolding st by (auto simp: same_pos_def)
  have "int p = int (p + z)" using z(1,2) pq Val_int_inj[of "int p" "int (p + z)"] by simp
  then have sc: "lex_start_pos c = Val_int (int q)" using z(3) by simp
  have px: "p + x < 536870912" "q + x < 536870912" "p + x \<le> length (lex_buffer b)" "q + x \<le> length (lex_buffer c)"
    using x(1-3) pq by (auto simp: at_pos_def)
  have "lexeme b = Some (take x (drop p (lex_buffer b)))" "lexeme c = Some (take x (drop q (lex_buffer c)))"
    using x(2,3) st sc px pos_nat_Val[of p] pos_nat_Val[of q] pos_nat_Val[of "p + x"] pos_nat_Val[of "q + x"]
    by (simp_all add: lexeme_def at_pos_def)
  moreover have "drop (p + x) (lex_buffer b) = drop (q + x) (lex_buffer c)" using pq(3) by (metis drop_drop add.commute)
  moreover have "unat (Long_val (lex_curr_pos b)) = p + x" "unat (Long_val (lex_curr_pos c)) = q + x"
    using at_pos_nat[OF x(2,4)] at_pos_nat[OF x(3,5)] by simp_all
  moreover have "lex_abs_pos b + 2 * word_of_nat p = lex_abs_pos c + 2 * word_of_nat q" using s by (simp add: shifted_def)
  moreover have "Val_int (int k) = 2 * word_of_nat k + 1" for k by (simp add: Val_int_word)
  moreover have "Val_int (int k + int j) = 2 * word_of_nat k + 2 * word_of_nat j + 1" for k j by (simp add: Val_int_word distrib_left)
  ultimately show ?thesis using pq(3) x(2,3) st sc shifted_same[OF s]
    by (simp add: same_token_def lexeme_start_def lexeme_end_def at_pos_def distrib_left algebra_simps)
qed

text \<open>
  C15. Lexing in pieces. When \<open>lex_engine\<close> has read the whole buffer and asks for more, \<open>lex_refill\<close> moves
  the text it needs to the front, or grows the buffer, and puts what it has read behind it, or notes the
  end of the input. Going on from the state that was returned then gives the same result as lexing the
  whole text from the start in a buffer that holds it all: the same action, state or exception, the same
  token at the same place of the input, and the same text left to read. The auxiliary buffer is not
  longer than the buffer (512 and 1024 bytes in \<open>from_function\<close>).
\<close>

theorem lex_engine_resume:
  assumes "table_ok tbl n" "buffer_ok b" "at_pos b p" "0 \<le> s" "s < n" "lex_eof_reached b = Val_bool False"
    and "lex_engine tbl (Val_int s) b = Some (Inr (Val_int (- t - 1)), b')" "0 \<le> t" "t < 32768"
    and "\<forall>k. length (create k) = k" "nat read \<le> length aux" "nat read \<le> length (lex_buffer b)"
    and "2 * length (lex_buffer b) < 536870912"
  shows "\<exists>b1 r b2 c. lex_refill create aux read b' = Some b1
     \<and> lex_engine tbl (Val_int (- t - 1)) b1 = Some (r, b2)
     \<and> lex_engine tbl (Val_int s) (refilled (take (nat read) aux) (read \<le> 0) b) = Some (r, c)
     \<and> same_token c b2"
proof -
  let ?data = "take (nat read) aux" and ?e = "read \<le> 0"
  let ?f = "\<lambda>b. b\<lparr>lex_start_pos := lex_curr_pos b, lex_last_pos := lex_curr_pos b, lex_last_action := Val_int (- 1)\<rparr>"
  let ?w = "refilled ?data ?e b"
  have n: "n \<le> 32768" using assms(1) by (simp add: table_ok_def)
  have sl: "sint (Long_val (Val_int s)) = s" using assms(4,5) n by (intro Long_val_Val_int) auto
  have tl: "sint (Long_val (Val_int (- t - 1))) = - t - 1" using assms(8,9) by (intro Long_val_Val_int) auto
  have r0: "lex_loop tbl s (?f b) = Some (Inr (Val_int (- t - 1)), b')" using assms(7) sl assms(4) by (simp add: lex_engine_def)
  have x: "length (lex_buffer b @ ?data) < 536870912" using assms(12,13) by simp
  have s0: "shifted p p (?f b) (?f b)"
    using assms(2,3) by (auto simp: shifted_def Let_def buffer_ok_def at_pos_def same_pos_def)
  have b': "shifted p p b' b'" using lex_loop_shifted[OF r0 s0] r0 by (auto simp: same_lex_def)
  have tx: "lex_buffer b' = lex_buffer b" "lex_start_pos b' = Val_int (int p)"
    using lex_loop_text[OF r0] assms(3) by (simp_all add: same_text_def at_pos_def)
  have eo: "lex_eof_reached b' = Val_bool False" using lex_loop_text[OF r0] assms(6) by (simp add: same_text_def)
  obtain b1 q where b1: "lex_refill create aux read b' = Some b1" "shifted p q (refilled ?data ?e b') b1"
    using lex_refill_shifted[OF b' tx(2) eo assms(10,11)] assms(12,13) tx(1) by auto
  have "buffer_ok ?w" "at_pos ?w p" by (rule refilled_ok(1)[OF x], rule refilled_ok(2)[OF assms(3)])
  then obtain r c where c: "lex_engine tbl (Val_int s) ?w = Some (r, c)"
    using lex_engine_spec[OF assms(1) _ _ assms(4,5)] by blast
  have eq: "lex_engine tbl (Val_int (- t - 1)) (refilled ?data ?e b') = lex_engine tbl (Val_int s) ?w"
    by (rule lex_resume_appended[OF assms(1-9) x])
  then have "lex_loop tbl t (refilled ?data ?e b') = Some (r, c)" using c tl assms(8) by (simp add: lex_engine_def)
  from lex_loop_shifted[OF this b1(2)] obtain b2 where b2: "lex_loop tbl t b1 = Some (r, b2)" "shifted p q c b2"
    by (auto simp: same_lex_def)
  have "lex_start_pos c = Val_int (int p)" using lex_loop_text[OF \<open>lex_loop tbl t (refilled ?data ?e b') = Some (r, c)\<close>] tx(2)
    by (simp add: same_text_def refilled_def)
  from shifted_token[OF b2(2) this] have "same_token c b2" .
  moreover have "lex_engine tbl (Val_int (- t - 1)) b1 = Some (r, b2)" using b2(1) tl assms(8) by (simp add: lex_engine_def)
  ultimately show ?thesis using b1(1) c by blast
qed

theorem lex_engine_resume_witness:
  "\<exists>b' b1 b2. lex_engine lex_tables (Val_int 0) (lex_buffer_at [97, 97] 0 0 0) = Some (Inr (Val_int (- 2)), b')
     \<and> lex_refill (\<lambda>k. replicate k 0) [98, 0] 1 b' = Some b1
     \<and> lex_engine lex_tables (Val_int (- 2)) b1 = Some (Inr (Val_int 0), b2)
     \<and> lexeme b2 = Some [97, 97] \<and> lexeme_start b2 = Val_int 0"
proof -
  have "lex_iter lex_tables 0 (lex_buffer_at [97, 97] 0 0 (- 1)) = Some (Inr (1, lex_buffer_at [97, 97] 1 0 (- 1)))"
    "lex_iter lex_tables 1 (lex_buffer_at [97, 97] 1 0 (- 1)) = Some (Inr (1, lex_buffer_at [97, 97] 2 1 0))"
    "lex_iter lex_tables 1 (lex_buffer_at [97, 97] 2 1 0) = Some (Inl (Inr (Val_int (- 2)), lex_buffer_at [97, 97] 2 2 0))"
    by code_simp+
  note i = this(1,2)[THEN lex_loop_more] this(3)[THEN lex_loop_done]
  have b': "lex_engine lex_tables (Val_int 0) (lex_buffer_at [97, 97] 0 0 0)
      = Some (Inr (Val_int (- 2)), lex_buffer_at [97, 97] 2 2 0)"
    unfolding lex_first_entry by (simp only: i)
  have "lex_iter lex_tables 0 (lex_buffer_at [97, 97, 98] 0 0 (- 1)) = Some (Inr (1, lex_buffer_at [97, 97, 98] 1 0 (- 1)))"
    "lex_iter lex_tables 1 (lex_buffer_at [97, 97, 98] 1 0 (- 1)) = Some (Inr (1, lex_buffer_at [97, 97, 98] 2 1 0))"
    "lex_iter lex_tables 1 (lex_buffer_at [97, 97, 98] 2 1 0) = Some (Inl (Inr (Val_int 0), lex_buffer_at [97, 97, 98] 2 2 0))"
    by code_simp+
  note k = this(1,2)[THEN lex_loop_more] this(3)[THEN lex_loop_done]
  have w: "lex_engine lex_tables (Val_int 0) (lex_buffer_at [97, 97, 98] 0 0 0)
      = Some (Inr (Val_int 0), lex_buffer_at [97, 97, 98] 2 2 0)"
    unfolding lex_first_entry by (simp only: k)
  have e: "refilled (take (nat 1) [98, 0]) (1 \<le> (0::int)) (lex_buffer_at [97, 97] 0 0 0) = lex_buffer_at [97, 97, 98] 0 0 0"
    by (simp add: refilled_def lex_buffer_at_def)
  have l: "lexeme (lex_buffer_at [97, 97, 98] 2 2 0) = Some [97, 97]" "lexeme_start (lex_buffer_at [97, 97, 98] 2 2 0) = Val_int 0"
    by code_simp+
  obtain b1 r b2 c where "lex_refill (\<lambda>k. replicate k 0) [98, 0] 1 (lex_buffer_at [97, 97] 2 2 0) = Some b1"
     "lex_engine lex_tables (Val_int (- 1 - 1)) b1 = Some (r, b2)"
     "lex_engine lex_tables (Val_int 0) (lex_buffer_at [97, 97, 98] 0 0 0) = Some (r, c)" "same_token c b2"
    using lex_engine_resume[OF lex_tables_ok lex_buffer_at_ok(3,4) _ _ lex_buffer_at_ok(5), where s = 0 and t = 1
      and create = "\<lambda>k. replicate k 0" and aux = "[98, 0]" and read = 1] b' unfolding e by (auto simp: lex_buffer_at_def)
  then show ?thesis using b' w l by (auto simp: same_token_def)
qed

end
