(* ===== verification/Extern.thy ===== *)
theory Extern
  imports Mltree
begin

text \<open>
  Marshalling of values (\<open>Byterun/extern.c\<close>, \<open>intext.h\<close>): the output block, the hash table of the
  objects already written, and the recursive writer. The block is the list of its bytes with the
  index of the next one; allocation by \<open>malloc\<close> is taken to succeed. An error carries the state it
  leaves behind. The fuel of the writer bounds the depth of the recursion.
\<close>

section \<open>The format\<close>

definition Intext_magic_number :: u32 where "Intext_magic_number = 0x8495A6BE"
definition PREFIX_SMALL_BLOCK :: u8 where "PREFIX_SMALL_BLOCK = 0x80"
definition PREFIX_SMALL_INT :: u8 where "PREFIX_SMALL_INT = 0x40"
definition PREFIX_SMALL_STRING :: u8 where "PREFIX_SMALL_STRING = 0x20"
definition CODE_INT8 :: u8 where "CODE_INT8 = 0x0"
definition CODE_INT16 :: u8 where "CODE_INT16 = 0x1"
definition CODE_INT32 :: u8 where "CODE_INT32 = 0x2"
definition CODE_INT64 :: u8 where "CODE_INT64 = 0x3"
definition CODE_SHARED8 :: u8 where "CODE_SHARED8 = 0x4"
definition CODE_SHARED16 :: u8 where "CODE_SHARED16 = 0x5"
definition CODE_SHARED32 :: u8 where "CODE_SHARED32 = 0x6"
definition CODE_BLOCK32 :: u8 where "CODE_BLOCK32 = 0x8"
definition CODE_STRING8 :: u8 where "CODE_STRING8 = 0x9"
definition CODE_STRING32 :: u8 where "CODE_STRING32 = 0xA"
definition CODE_DOUBLE_BIG :: u8 where "CODE_DOUBLE_BIG = 0xB"
definition CODE_DOUBLE_LITTLE :: u8 where "CODE_DOUBLE_LITTLE = 0xC"
definition CODE_DOUBLE_ARRAY8_BIG :: u8 where "CODE_DOUBLE_ARRAY8_BIG = 0xD"
definition CODE_DOUBLE_ARRAY8_LITTLE :: u8 where "CODE_DOUBLE_ARRAY8_LITTLE = 0xE"
definition CODE_DOUBLE_ARRAY32_BIG :: u8 where "CODE_DOUBLE_ARRAY32_BIG = 0xF"
definition CODE_DOUBLE_ARRAY32_LITTLE :: u8 where "CODE_DOUBLE_ARRAY32_LITTLE = 0x7"
definition CODE_CODEPOINTER :: u8 where "CODE_CODEPOINTER = 0x10"
definition CODE_INFIXPOINTER :: u8 where "CODE_INFIXPOINTER = 0x11"
definition INITIAL_EXTERN_BLOCK_SIZE :: nat where "INITIAL_EXTERN_BLOCK_SIZE = 8192"
definition INITIAL_EXTERN_TABLE_SIZE :: nat where "INITIAL_EXTERN_TABLE_SIZE = 2039"
definition INITIAL_OFFSET_MAX :: u32 where "INITIAL_OFFSET_MAX = 0x80000000"

section \<open>State\<close>

text \<open>
  \<open>extern_table\<close> is the empty list where the code has the null pointer; \<open>extern_table_size\<close> is its
  length. A table that is kept between two values has the initial size (\<open>free_extern_table\<close>).
\<close>

record extern_state =
  initial_ofs :: u32
  extern_table :: "(u32 \<times> val) list"
  obj_counter :: u32
  extern_block :: "u8 list"
  extern_ptr :: nat
  extern_block_malloced :: bool
  size_32 :: u32
  size_64 :: u32
  extern_ignore_sharing :: bool
  extern_closures :: bool

text \<open>The code area of the program, for pointers to code, and its checksum.\<close>

record code_area =
  code_start :: u32
  code_end :: u32
  code_checksum :: "u8 list"

type_synonym 'a xres = "((ml_error \<times> extern_state) + 'a) option"

definition ok :: "'a \<Rightarrow> 'a xres" where "ok x = Some (Inr x)"
definition fails :: "ml_error \<Rightarrow> extern_state \<Rightarrow> 'a xres" where "fails e s = Some (Inl (e, s))"

section \<open>The table of objects\<close>

definition extern_hash :: "val \<Rightarrow> nat \<Rightarrow> nat" where
  "extern_hash v sz = unat (signed_drop_bit 2 v) mod sz"

definition next_slot :: "(u32 \<times> val) list \<Rightarrow> nat \<Rightarrow> nat" where
  "next_slot tbl h = (if length tbl \<le> h + 1 then 0 else h + 1)"

text \<open>
  Linear probing from slot \<open>h\<close>: the slot of the object \<open>v\<close> with its offset, or the first free slot.
  A table without a free slot and without \<open>v\<close>, on which the code does not return, is \<open>None\<close>.
\<close>

fun extern_probe :: "nat \<Rightarrow> u32 \<Rightarrow> (u32 \<times> val) list \<Rightarrow> val option \<Rightarrow> nat \<Rightarrow> (nat \<times> u32 option) option" where
  "extern_probe 0 i0 tbl v h = None"
| "extern_probe (Suc n) i0 tbl v h = do {
     (ofs, obj) \<leftarrow> rd tbl h;
     if i0 \<le> ofs then
       if v = Some obj then Some (h, Some ofs) else extern_probe n i0 tbl v (next_slot tbl h)
     else Some (h, None)
   }"

definition alloc_extern_table :: "nat \<Rightarrow> (u32 \<times> val) list" where
  "alloc_extern_table sz = replicate sz (0, 0)"

text \<open>The body of the loop of \<open>resize_extern_table\<close> moves the entry \<open>(ofs, obj)\<close> into the new table.\<close>

fun rehash :: "u32 \<Rightarrow> (u32 \<times> val) list \<Rightarrow> (u32 \<times> val) list \<Rightarrow> (u32 \<times> val) list option" where
  "rehash i0 [] tbl = Some tbl"
| "rehash i0 ((ofs, obj) # es) tbl =
    (if i0 \<le> ofs then do {
       (h, _) \<leftarrow> extern_probe (length tbl) i0 tbl None (extern_hash obj (length tbl));
       rehash i0 es (tbl[h := (ofs, obj)])
     } else rehash i0 es tbl)"

definition resize_extern_table :: "extern_state \<Rightarrow> extern_state option" where
  "resize_extern_table s =
    map_option (\<lambda>tbl. s\<lparr>extern_table := tbl\<rparr>)
      (rehash (initial_ofs s) (extern_table s) (alloc_extern_table (2 * length (extern_table s))))"

definition free_extern_table :: "extern_state \<Rightarrow> extern_state" where
  "free_extern_table s =
    (if INITIAL_EXTERN_TABLE_SIZE < length (extern_table s) \<or> INITIAL_OFFSET_MAX \<le> initial_ofs s
     then s\<lparr>extern_table := []\<rparr> else s)"

text \<open>
  Look the object up and record it when it is new: the distance to the object when it was seen.
\<close>

definition extern_seen :: "val \<Rightarrow> extern_state \<Rightarrow> (u32 option \<times> extern_state) option" where
  "extern_seen v s = do {
     s \<leftarrow> (if length (extern_table s) \<le> unat (2 * obj_counter s) then resize_extern_table s else Some s);
     let tbl = extern_table s;
     (h, found) \<leftarrow> extern_probe (length tbl) (initial_ofs s) tbl (Some v) (extern_hash v (length tbl));
     case found of
       Some ofs \<Rightarrow> Some (Some (obj_counter s - (ofs - initial_ofs s)), s)
     | None \<Rightarrow> Some (None, s\<lparr>extern_table := tbl[h := (initial_ofs s + obj_counter s, v)],
                           obj_counter := obj_counter s + 1\<rparr>)
   }"

section \<open>The output block\<close>

definition alloc_extern_block :: "extern_state \<Rightarrow> extern_state" where
  "alloc_extern_block s =
    s\<lparr>extern_block := replicate INITIAL_EXTERN_BLOCK_SIZE 0, extern_ptr := 0, extern_block_malloced := True\<rparr>"

function grow_size :: "nat \<Rightarrow> nat \<Rightarrow> nat" where
  "grow_size sz reqd = (if sz = 0 \<or> reqd < sz then sz else grow_size (sz * 2) reqd)"
  by auto
termination by (relation "measure (\<lambda>(sz, reqd). Suc reqd - sz)") auto

declare grow_size.simps [simp del]

definition resize_extern_block :: "nat \<Rightarrow> extern_state \<Rightarrow> extern_state xres" where
  "resize_extern_block required s =
    (if \<not> extern_block_malloced s then
       fails (Failure ''Marshal.to_buffer: buffer overflow'')
         (free_extern_table (s\<lparr>initial_ofs := initial_ofs s + obj_counter s\<rparr>))
     else
       let sz = length (extern_block s); sz' = grow_size sz (extern_ptr s + required)
       in ok (s\<lparr>extern_block := extern_block s @ replicate (sz' - sz) 0\<rparr>))"

text \<open>All the routines that write reserve room for their bytes and store them at the pointer.\<close>

definition put :: "u8 list \<Rightarrow> extern_state \<Rightarrow> extern_state xres" where
  "put bs s =
    andthen (if length (extern_block s) < extern_ptr s + length bs then resize_extern_block (length bs) s else ok s)
      (\<lambda>s. ok (s\<lparr>extern_block := take (extern_ptr s) (extern_block s) @ bs
                   @ drop (extern_ptr s + length bs) (extern_block s),
                 extern_ptr := extern_ptr s + length bs\<rparr>))"

definition be16 :: "u32 \<Rightarrow> u8 list" where "be16 x = [ucast (signed_drop_bit 8 x), ucast x]"

definition be32 :: "u32 \<Rightarrow> u8 list" where
  "be32 x = [ucast (signed_drop_bit 24 x), ucast (signed_drop_bit 16 x), ucast (signed_drop_bit 8 x), ucast x]"

definition Write :: "u8 \<Rightarrow> extern_state \<Rightarrow> extern_state xres" where "Write c = put [c]"
definition writeblock :: "u8 list \<Rightarrow> extern_state \<Rightarrow> extern_state xres" where "writeblock bs = put bs"
definition writecode8 :: "u8 \<Rightarrow> u32 \<Rightarrow> extern_state \<Rightarrow> extern_state xres" where "writecode8 c x = put [c, ucast x]"
definition writecode16 :: "u8 \<Rightarrow> u32 \<Rightarrow> extern_state \<Rightarrow> extern_state xres" where "writecode16 c x = put (c # be16 x)"
definition write32 :: "u32 \<Rightarrow> extern_state \<Rightarrow> extern_state xres" where "write32 x = put (be32 x)"
definition writecode32 :: "u8 \<Rightarrow> u32 \<Rightarrow> extern_state \<Rightarrow> extern_state xres" where "writecode32 c x = put (c # be32 x)"

definition extern_invalid_argument :: "string \<Rightarrow> extern_state \<Rightarrow> 'a xres" where
  "extern_invalid_argument msg s =
    fails (Invalid_argument msg) (free_extern_table (s\<lparr>initial_ofs := initial_ofs s + obj_counter s\<rparr>))"

definition add_sizes :: "u32 \<Rightarrow> u32 \<Rightarrow> extern_state \<Rightarrow> extern_state" where
  "add_sizes a b s = s\<lparr>size_32 := size_32 s + a, size_64 := size_64 s + b\<rparr>"

section \<open>The writer\<close>

definition extern_int :: "val \<Rightarrow> extern_state \<Rightarrow> extern_state xres" where
  "extern_int v =
    (let n = Long_val v in
     if 0 \<le> sint n \<and> sint n < 0x40 then Write (PREFIX_SMALL_INT + ucast n)
     else if - 128 \<le> sint n \<and> sint n < 128 then writecode8 CODE_INT8 n
     else if - 32768 \<le> sint n \<and> sint n < 32768 then writecode16 CODE_INT16 n
     else writecode32 CODE_INT32 n)"

definition extern_shared :: "u32 \<Rightarrow> extern_state \<Rightarrow> extern_state xres" where
  "extern_shared d =
    (if d < 0x100 then writecode8 CODE_SHARED8 d
     else if d < 0x10000 then writecode16 CODE_SHARED16 d
     else writecode32 CODE_SHARED32 d)"

definition extern_string :: "'a mlheap_scheme \<Rightarrow> val \<Rightarrow> extern_state \<Rightarrow> extern_state xres" where
  "extern_string h v s = do {
     len \<leftarrow> string_length h v;
     bs \<leftarrow> bytes_of h v 0 (unat len);
     andthen (andthen (if len < 0x20 then Write (PREFIX_SMALL_STRING + ucast len) s
                       else if len < 0x100 then writecode8 CODE_STRING8 len s
                       else writecode32 CODE_STRING32 len s) (writeblock bs))
       (\<lambda>s. ok (add_sizes (1 + (len + 4) div 4) (1 + (len + 8) div 8) s))
   }"

definition extern_double :: "'a mlheap_scheme \<Rightarrow> val \<Rightarrow> extern_state \<Rightarrow> extern_state xres" where
  "extern_double h v s = do {
     bs \<leftarrow> bytes_of h v 0 8;
     andthen (andthen (Write CODE_DOUBLE_LITTLE s) (writeblock bs)) (\<lambda>s. ok (add_sizes (1 + 2) (1 + 1) s))
   }"

definition extern_double_array :: "'a mlheap_scheme \<Rightarrow> val \<Rightarrow> u32 \<Rightarrow> extern_state \<Rightarrow> extern_state xres" where
  "extern_double_array h v sz s = do {
     let nfloats = sz div 2;
     bs \<leftarrow> bytes_of h v 0 (unat (Bsize_wsize sz));
     andthen (andthen (if nfloats < 0x100 then writecode8 CODE_DOUBLE_ARRAY8_LITTLE nfloats s
                       else writecode32 CODE_DOUBLE_ARRAY32_LITTLE nfloats s) (writeblock bs))
       (\<lambda>s. ok (add_sizes (1 + nfloats * 2) (1 + nfloats) s))
   }"

text \<open>What is written of a block before its fields.\<close>

definition extern_header :: "u32 \<Rightarrow> extern_state \<Rightarrow> extern_state xres" where
  "extern_header hdr s =
    (let tag = Tag_hd hdr; sz = Wosize_hd hdr in
     andthen (if tag < 16 \<and> sz < 8 then Write (PREFIX_SMALL_BLOCK + ucast tag + push_bit 4 (ucast sz)) s
              else writecode32 CODE_BLOCK32 (hdr AND NOT Black) s)
       (\<lambda>s. ok (add_sizes (1 + sz) (1 + sz) s)))"

fun extern_rec ::
  "nat \<Rightarrow> code_area \<Rightarrow> u32 \<Rightarrow> 'a mlheap_scheme \<Rightarrow> val \<Rightarrow> extern_state \<Rightarrow> extern_state xres"
and extern_fields ::
  "nat \<Rightarrow> code_area \<Rightarrow> u32 \<Rightarrow> 'a mlheap_scheme \<Rightarrow> u32 \<Rightarrow> nat \<Rightarrow> extern_state \<Rightarrow> extern_state xres" where
  "extern_rec 0 ca at h v s = None"
| "extern_rec (Suc n) ca at h v s =
    (if Is_long v then extern_int v s
     else if in_memory at h v then do {
       hdr \<leftarrow> Hd_val h v;
       let tag = Tag_hd hdr;
       let sz = Wosize_hd hdr;
       if sz = 0 then
         if tag < 16 then Write (PREFIX_SMALL_BLOCK + ucast tag) s else writecode32 CODE_BLOCK32 hdr s
       else do {
         (seen, s) \<leftarrow> (if extern_ignore_sharing s then Some (None, s) else extern_seen v s);
         case seen of
           Some d \<Rightarrow> extern_shared d s
         | None \<Rightarrow>
             if tag = String_tag then extern_string h v s
             else if tag = Double_tag then extern_double h v s
             else if tag = Double_array_tag then extern_double_array h v sz s
             else if tag = Abstract_tag \<or> tag = Final_tag then
               extern_invalid_argument ''output_value: abstract value'' s
             else if tag = Infix_tag then
               andthen (writecode32 CODE_INFIXPOINTER (Infix_offset_hd hdr) s)
                 (extern_rec n ca at h (v - Infix_offset_hd hdr))
             else if tag = Object_tag then extern_invalid_argument ''output_value: object value'' s
             else andthen (extern_header hdr s) (extern_fields n ca at h v (unat sz))
       }
     }
     else if code_start ca \<le> v \<and> v < code_end ca then
       if \<not> extern_closures s then extern_invalid_argument ''output_value: functional value'' s
       else andthen (writecode32 CODE_CODEPOINTER (v - code_start ca) s) (writeblock (code_checksum ca))
     else extern_invalid_argument ''output_value: abstract value'' s)"
| "extern_fields n ca at h a 0 s = ok s"
| "extern_fields n ca at h a (Suc k) s = do {
     v \<leftarrow> load h a;
     andthen (extern_rec n ca at h v s) (extern_fields n ca at h (a + 4) k)
   }"

text \<open>
  \<open>extern_value\<close> with the two flags; the sizes are stored over the room left for them at the start.
\<close>

definition set_flags :: "bool \<Rightarrow> bool \<Rightarrow> extern_state \<Rightarrow> extern_state" where
  "set_flags ignore_sharing closures s =
    s\<lparr>extern_ignore_sharing := ignore_sharing, extern_closures := closures\<rparr>"

definition init_extern :: "extern_state \<Rightarrow> extern_state" where
  "init_extern s =
    (let s = (if extern_table s = [] then s\<lparr>extern_table := alloc_extern_table INITIAL_EXTERN_TABLE_SIZE, initial_ofs := 1\<rparr>
              else s)
     in s\<lparr>obj_counter := 0, size_32 := 0, size_64 := 0\<rparr>)"

definition extern_value ::
  "nat \<Rightarrow> code_area \<Rightarrow> u32 \<Rightarrow> 'a mlheap_scheme \<Rightarrow> val \<Rightarrow> bool \<Rightarrow> bool \<Rightarrow> extern_state \<Rightarrow> (nat \<times> extern_state) xres" where
  "extern_value n ca at h v ignore_sharing closures s =
    (let s = init_extern (set_flags ignore_sharing closures s) in
     andthen (write32 Intext_magic_number s) (\<lambda>s.
     andthen (extern_rec n ca at h v (s\<lparr>extern_ptr := extern_ptr s + 4 * 4\<rparr>)) (\<lambda>s.
     let s = free_extern_table (s\<lparr>initial_ofs := initial_ofs s + obj_counter s\<rparr>);
         res_len = extern_ptr s;
         s = s\<lparr>extern_ptr := 4\<rparr>
     in andthen (write32 (word_of_nat res_len - 5 * 4) s) (\<lambda>s.
        andthen (write32 (obj_counter s) s) (\<lambda>s.
        andthen (write32 (size_32 s) s) (\<lambda>s.
        andthen (write32 (size_64 s) s) (\<lambda>s. ok (res_len, s))))))))"

text \<open>
  \<open>output_value_to_buffer\<close>: the block is the window of \<open>len\<close> bytes at \<open>ofs\<close> of the buffer, given by its
  bytes; the value is not the buffer itself. On an error the bytes of the window are those of the state.
\<close>

definition output_value_to_buffer ::
  "nat \<Rightarrow> code_area \<Rightarrow> u32 \<Rightarrow> 'a mlheap_scheme \<Rightarrow> u8 list \<Rightarrow> nat \<Rightarrow> nat \<Rightarrow> val \<Rightarrow> bool \<Rightarrow> bool \<Rightarrow> extern_state
   \<Rightarrow> (val \<times> u8 list \<times> extern_state) xres" where
  "output_value_to_buffer n ca at h buf ofs len v ignore_sharing closures s =
    andthen (extern_value n ca at h v ignore_sharing closures
        (s\<lparr>extern_block := take len (drop ofs buf), extern_ptr := 0, extern_block_malloced := False\<rparr>))
      (\<lambda>(len_res, s). ok (Val_long (word_of_nat len_res), take ofs buf @ extern_block s @ drop (ofs + len) buf, s))"

end
