(* ===== verification/Extern_Table.thy ===== *)
theory Extern_Table
  imports Extern
begin

text \<open>
  The hash table of \<open>extern.c\<close> implements the list of the objects written so far: an object that is in
  the list is found with its index, an object that is not is recorded with the next index.
\<close>

section \<open>The invariant of the table\<close>

definition live :: "u32 \<Rightarrow> (u32 \<times> val) list \<Rightarrow> nat \<Rightarrow> bool" where
  "live i0 tbl h \<longleftrightarrow> i0 \<le> fst (tbl ! h)"

definition entry :: "u32 \<Rightarrow> val list \<Rightarrow> nat \<Rightarrow> u32 \<times> val" where
  "entry i0 objs k = (i0 + word_of_nat k, objs ! k)"

definition slot :: "(u32 \<times> val) list \<Rightarrow> val \<Rightarrow> nat \<Rightarrow> nat" where
  "slot tbl v j = (extern_hash v (length tbl) + j) mod length tbl"

text \<open>
  The objects with the indices \<open>K\<close> are in the table: each can be reached from the slot of its hash
  over live slots; a live slot holds one of them, and no two slots the same.
\<close>

definition tab_ok :: "u32 \<Rightarrow> val list \<Rightarrow> nat set \<Rightarrow> (u32 \<times> val) list \<Rightarrow> bool" where
  "tab_ok i0 objs K tbl \<longleftrightarrow> 0 < length tbl
    \<and> (\<forall>k \<in> K. \<exists>j < length tbl. tbl ! slot tbl (objs ! k) j = entry i0 objs k
          \<and> (\<forall>j' < j. live i0 tbl (slot tbl (objs ! k) j')))
    \<and> (\<forall>h < length tbl. live i0 tbl h \<longrightarrow> (\<exists>k \<in> K. tbl ! h = entry i0 objs k))
    \<and> (\<forall>h1 < length tbl. \<forall>h2 < length tbl. live i0 tbl h1 \<and> tbl ! h1 = tbl ! h2 \<longrightarrow> h1 = h2)"

definition objs_ok :: "u32 \<Rightarrow> val list \<Rightarrow> bool" where
  "objs_ok i0 objs \<longleftrightarrow> distinct objs \<and> 0 < i0 \<and> unat i0 + length objs < 4294967296"

lemma slot_less: "0 < length tbl \<Longrightarrow> slot tbl v j < length tbl"
  by (simp add: slot_def)

lemma next_slot: "0 < length tbl \<Longrightarrow> next_slot tbl (slot tbl v j) = slot tbl v (Suc j)"
proof -
  assume l: "0 < length tbl"
  define x where "x = extern_hash v (length tbl) + j"
  have "x mod length tbl < length tbl" using l by simp
  then show ?thesis unfolding next_slot_def slot_def add_Suc_right x_def[symmetric] mod_Suc by auto
qed

lemma entry_live:
  assumes "objs_ok i0 objs" "k < length objs"
  shows "i0 \<le> fst (entry i0 objs k)" "unat (fst (entry i0 objs k) - i0) = k"
    "k' < length objs \<Longrightarrow> entry i0 objs k = entry i0 objs k' \<longleftrightarrow> k = k'"
proof -
  have k: "unat (word_of_nat k :: u32) = k" using assms by (simp add: objs_ok_def unat_of_nat)
  then have "unat (i0 + word_of_nat k) = unat i0 + k" using assms unat_add32[of i0 "word_of_nat k"] by (simp add: objs_ok_def)
  then show "i0 \<le> fst (entry i0 objs k)" by (simp add: entry_def word_le_nat_alt)
  show "unat (fst (entry i0 objs k) - i0) = k" using k by (simp add: entry_def)
  show "entry i0 objs k = entry i0 objs k' \<longleftrightarrow> k = k'" if "k' < length objs"
    using assms that by (auto simp: entry_def objs_ok_def nth_eq_iff_index_eq)
qed

text \<open>Probing.\<close>

lemma rd_slot: "0 < length tbl \<Longrightarrow> rd tbl (slot tbl w j) = Some (tbl ! slot tbl w j)"
  by (simp add: rd_def slot_less)

lemma probe_free_step:
  assumes l: "0 < length tbl" and "\<not> live i0 tbl (slot tbl w j)"
  shows "extern_probe (Suc n) i0 tbl v (slot tbl w j) = Some (slot tbl w j, None)"
  using assms(2) by (cases "tbl ! slot tbl w j") (simp add: rd_slot[OF l] live_def)

lemma probe_live_step:
  assumes l: "0 < length tbl" and "live i0 tbl (slot tbl w j)"
  shows "extern_probe (Suc n) i0 tbl v (slot tbl w j) =
    (if v = Some (snd (tbl ! slot tbl w j)) then Some (slot tbl w j, Some (fst (tbl ! slot tbl w j)))
     else extern_probe n i0 tbl v (slot tbl w (Suc j)))"
  using assms(2) by (cases "tbl ! slot tbl w j") (simp add: rd_slot[OF l] live_def next_slot[OF l])

text \<open>Probing over \<open>m\<close> live slots that do not hold the object.\<close>

lemma probe_skip:
  assumes l: "0 < length tbl"
    and "\<forall>j' < m. live i0 tbl (slot tbl w (j + j')) \<and> v \<noteq> Some (snd (tbl ! slot tbl w (j + j')))"
  shows "extern_probe (m + n) i0 tbl v (slot tbl w j) = extern_probe n i0 tbl v (slot tbl w (j + m))"
  using assms(2)
proof (induction m arbitrary: j)
  case (Suc m)
  have h: "live i0 tbl (slot tbl w j)" "v \<noteq> Some (snd (tbl ! slot tbl w j))"
    using Suc.prems[rule_format, of 0] by simp_all
  have "\<forall>j' < m. live i0 tbl (slot tbl w (Suc j + j')) \<and> v \<noteq> Some (snd (tbl ! slot tbl w (Suc j + j')))"
  proof (intro allI impI)
    fix j' assume "j' < m"
    then show "live i0 tbl (slot tbl w (Suc j + j')) \<and> v \<noteq> Some (snd (tbl ! slot tbl w (Suc j + j')))"
      using Suc.prems[rule_format, of "Suc j'"] by simp
  qed
  from Suc.IH[OF this] show ?case unfolding add_Suc probe_live_step[OF l h(1)] using h(2) by simp
qed simp

lemma extern_probe_free:
  assumes l: "0 < length tbl" and o: "\<forall>h < length tbl. live i0 tbl h \<longrightarrow> v \<noteq> Some (snd (tbl ! h))"
    and m: "m < n" "\<forall>j' < m. live i0 tbl (slot tbl w j')" "\<not> live i0 tbl (slot tbl w m)"
  shows "extern_probe n i0 tbl v (slot tbl w 0) = Some (slot tbl w m, None)"
proof -
  obtain n' where n: "n = m + Suc n'" using m(1) less_iff_Suc_add by auto
  have "\<forall>j' < m. live i0 tbl (slot tbl w (0 + j')) \<and> v \<noteq> Some (snd (tbl ! slot tbl w (0 + j')))"
    using m(2) o slot_less[OF l] by simp
  from probe_skip[OF l this, of "Suc n'"] show ?thesis
    unfolding n by (simp only: add_0 probe_free_step[OF l m(3)])
qed

lemma extern_probe_found:
  assumes l: "0 < length tbl"
    and m: "m < n" "\<forall>j' < m. live i0 tbl (slot tbl w j')" "tbl ! slot tbl w m = (ofs, v)" "i0 \<le> ofs"
    and u: "\<forall>h < length tbl. live i0 tbl h \<and> snd (tbl ! h) = v \<longrightarrow> fst (tbl ! h) = ofs"
  shows "\<exists>h. extern_probe n i0 tbl (Some v) (slot tbl w 0) = Some (h, Some ofs)"
proof -
  define P where "P j \<longleftrightarrow> live i0 tbl (slot tbl w j) \<and> snd (tbl ! slot tbl w j) = v" for j
  have Pm: "P m" using m by (simp add: P_def live_def)
  define k where "k = (LEAST j. P j)"
  have k: "P k" "k \<le> m" unfolding k_def using Pm by (rule LeastI, rule Least_le)
  have b: "\<forall>j < k. \<not> P j" unfolding k_def using not_less_Least by blast
  obtain n' where n: "n = k + Suc n'" using m(1) k(2) less_iff_Suc_add[of k n] by auto
  have lk: "live i0 tbl (slot tbl w k)" using k(1) by (simp add: P_def)
  have "\<forall>j' < k. live i0 tbl (slot tbl w (0 + j')) \<and> Some v \<noteq> Some (snd (tbl ! slot tbl w (0 + j')))"
    using b m(2) k(2) by (auto simp: P_def)
  from probe_skip[OF l this, of "Suc n'"] show ?thesis
    unfolding n add_0 probe_live_step[OF l lk] using k(1) u slot_less[OF l, of w k] by (simp add: P_def)
qed

lemma slot_onto: "0 < length tbl \<Longrightarrow> h < length tbl \<Longrightarrow> \<exists>j < length tbl. slot tbl v j = h"
proof -
  assume l: "0 < length tbl" "h < length tbl"
  define H where "H = extern_hash v (length tbl)"
  define j where "j = (h + length tbl - H mod length tbl) mod length tbl"
  have m: "H mod length tbl \<le> length tbl" using l by (simp add: less_imp_le)
  have "(H + j) mod length tbl = (H mod length tbl + (h + length tbl - H mod length tbl)) mod length tbl"
    by (simp add: j_def mod_simps)
  also have "\<dots> = (h + length tbl) mod length tbl" using m by simp
  also have "\<dots> = h" using l by simp
  finally show ?thesis using l by (auto simp: slot_def H_def[symmetric] j_def intro!: exI[of _ j])
qed

lemma free_slot:
  assumes t: "tab_ok i0 objs K tbl" and K: "finite K" "card K < length tbl"
  shows "\<exists>m < length tbl. (\<forall>j' < m. live i0 tbl (slot tbl w j')) \<and> \<not> live i0 tbl (slot tbl w m)"
proof -
  let ?L = "{h. h < length tbl \<and> live i0 tbl h}"
  have "inj_on ((!) tbl) ?L" using t by (auto simp: tab_ok_def inj_on_def)
  moreover have "(!) tbl ` ?L \<subseteq> entry i0 objs ` K" using t by (auto simp: tab_ok_def)
  ultimately have "card ?L \<le> card K"
    using K(1) by (meson card_image_le card_inj_on_le finite_imageI le_trans)
  have "\<exists>h < length tbl. \<not> live i0 tbl h"
  proof (rule ccontr)
    assume "\<not> ?thesis"
    then have "?L = {..<length tbl}" by auto
    then have "card ?L = length tbl" by simp
    then show False using \<open>card ?L \<le> card K\<close> K(2) by simp
  qed
  then obtain j where j: "j < length tbl" "\<not> live i0 tbl (slot tbl w j)"
    using slot_onto t by (metis tab_ok_def)
  define m where "m = (LEAST j. \<not> live i0 tbl (slot tbl w j))"
  have "\<not> live i0 tbl (slot tbl w m)" "m \<le> j" unfolding m_def using j(2) by (rule LeastI, rule Least_le)
  moreover have "\<forall>j' < m. live i0 tbl (slot tbl w j')" unfolding m_def using not_less_Least by blast
  ultimately show ?thesis using j(1) by (metis le_less_trans)
qed

section \<open>Insertion\<close>

lemma slot_update [simp]: "slot (tbl[h := e]) v j = slot tbl v j"
  by (simp add: slot_def)

lemma live_update:
  assumes "i0 \<le> fst e" "h < length tbl"
  shows "live i0 (tbl[p := e]) h \<longleftrightarrow> h = p \<or> live i0 tbl h"
  using assms by (cases "h = p") (simp_all add: live_def)

lemma tab_okD:
  assumes "tab_ok i0 objs K tbl"
  shows "0 < length tbl"
    "k \<in> K \<Longrightarrow> \<exists>j < length tbl. tbl ! slot tbl (objs ! k) j = entry i0 objs k \<and> (\<forall>j' < j. live i0 tbl (slot tbl (objs ! k) j'))"
    "h < length tbl \<Longrightarrow> live i0 tbl h \<Longrightarrow> \<exists>k \<in> K. tbl ! h = entry i0 objs k"
    "h1 < length tbl \<Longrightarrow> h2 < length tbl \<Longrightarrow> live i0 tbl h1 \<Longrightarrow> tbl ! h1 = tbl ! h2 \<Longrightarrow> h1 = h2"
  using assms unfolding tab_ok_def by blast+

lemma tab_ok_insert:
  assumes t: "tab_ok i0 objs K tbl" and o: "objs_ok i0 objs" and K: "K \<subseteq> {..<length objs}" "k < length objs" "k \<notin> K"
    and m: "m < length tbl" "\<forall>j' < m. live i0 tbl (slot tbl (objs ! k) j')" "\<not> live i0 tbl (slot tbl (objs ! k) m)"
  shows "tab_ok i0 objs (insert k K) (tbl[slot tbl (objs ! k) m := entry i0 objs k])"
proof -
  define p where "p = slot tbl (objs ! k) m"
  define tbl' where "tbl' = tbl[p := entry i0 objs k]"
  have l: "0 < length tbl" and e: "i0 \<le> fst (entry i0 objs k)" using t entry_live(1)[OF o K(2)] by (auto simp: tab_ok_def)
  have p: "p < length tbl" using slot_less[OF l] by (simp add: p_def)
  have dead: "\<not> live i0 tbl p" using m(3) by (simp add: p_def)
  have lv: "live i0 tbl' h \<longleftrightarrow> h = p \<or> live i0 tbl h" if "h < length tbl" for h
    using that live_update[OF e] by (simp add: tbl'_def)
  have at_p: "tbl' ! p = entry i0 objs k" using p by (simp add: tbl'_def)
  have other: "tbl' ! h = tbl ! h" if "h \<noteq> p" for h using that by (simp add: tbl'_def)
  have len: "length tbl' = length tbl" and sl: "slot tbl' v j = slot tbl v j" for v j by (simp_all add: tbl'_def)
  have a: "\<exists>j < length tbl'. tbl' ! slot tbl' (objs ! q) j = entry i0 objs q
      \<and> (\<forall>j' < j. live i0 tbl' (slot tbl' (objs ! q) j'))" if q: "q \<in> insert k K" for q
  proof (cases "q = k")
    case True
    then show ?thesis using m at_p lv slot_less[OF l] by (auto simp: len sl p_def[symmetric] intro!: exI[of _ m])
  next
    case False
    then obtain j where j: "j < length tbl" "tbl ! slot tbl (objs ! q) j = entry i0 objs q"
        "\<forall>j' < j. live i0 tbl (slot tbl (objs ! q) j')"
      using tab_okD(2)[OF t, of q] q by auto
    have "live i0 tbl (slot tbl (objs ! q) j)" using j(2) entry_live(1)[OF o, of q] q K by (auto simp: live_def)
    then have "slot tbl (objs ! q) j \<noteq> p" using dead by auto
    then show ?thesis using j lv slot_less[OF l] by (auto simp: len sl other intro!: exI[of _ j])
  qed
  have b: "\<exists>q \<in> insert k K. tbl' ! h = entry i0 objs q" if "h < length tbl'" "live i0 tbl' h" for h
    using that at_p lv other tab_okD(3)[OF t, of h] by (cases "h = p") (auto simp: len)
  have fresh: "tbl ! h \<noteq> entry i0 objs k" if h: "h < length tbl" "live i0 tbl h" for h
  proof
    assume eq: "tbl ! h = entry i0 objs k"
    obtain q where "q \<in> K" "tbl ! h = entry i0 objs q" using tab_okD(3)[OF t h] by blast
    then show False using eq entry_live(3)[OF o K(2), of q] K by auto
  qed
  have c: "h1 = h2" if "h1 < length tbl'" "h2 < length tbl'" "live i0 tbl' h1" "tbl' ! h1 = tbl' ! h2" for h1 h2
  proof -
    have "live i0 tbl' h2" using that(3,4) by (simp add: live_def)
    show ?thesis
    proof (rule ccontr)
      assume ne: "h1 \<noteq> h2"
      have lt: "h1 < length tbl" "h2 < length tbl" using that by (simp_all add: len)
      consider "h1 = p" "h2 \<noteq> p" | "h1 \<noteq> p" "h2 = p" | "h1 \<noteq> p" "h2 \<noteq> p" using ne by blast
      then show False
      proof cases
        case 1
        then show False using fresh[OF lt(2)] lv[OF lt(2)] \<open>live i0 tbl' h2\<close> that(4) at_p other[of h2] by simp
      next
        case 2
        then show False using fresh[OF lt(1)] lv[OF lt(1)] that(3,4) at_p other[of h1] by simp
      next
        case 3
        then show False using tab_okD(4)[OF t lt] lv[OF lt(1)] that(3,4) other[of h1] other[of h2] ne by simp
      qed
    qed
  qed
  show ?thesis unfolding p_def[symmetric] tbl'_def[symmetric] tab_ok_def using a b c len l by auto
qed

lemma tab_ok_empty: "0 < length tbl \<Longrightarrow> \<forall>e \<in> set tbl. fst e < i0 \<Longrightarrow> tab_ok i0 objs {} tbl"
  unfolding tab_ok_def live_def by (meson empty_iff nth_mem not_less)

lemma tab_ok_more:
  assumes "tab_ok i0 objs K tbl" "K \<subseteq> {..<length objs}"
  shows "tab_ok i0 (objs @ [v]) K tbl"
proof -
  have "entry i0 (objs @ [v]) k = entry i0 objs k" "(objs @ [v]) ! k = objs ! k" if "k \<in> K" for k
    using that assms(2) by (auto simp: entry_def nth_append)
  then show ?thesis using assms(1) unfolding tab_ok_def by (metis (no_types, lifting))
qed

section \<open>Growing the table\<close>

lemma distinct_filter_nth:
  assumes "\<forall>i < length xs. \<forall>j < length xs. P (xs ! i) \<and> xs ! i = xs ! j \<longrightarrow> i = j"
  shows "distinct (filter P xs)"
  using assms
proof (induction xs)
  case (Cons x xs)
  have "i = j" if "i < length xs" "j < length xs" "P (xs ! i)" "xs ! i = xs ! j" for i j
    using Cons.prems[rule_format, of "Suc i" "Suc j"] that by simp
  then have "\<forall>i < length xs. \<forall>j < length xs. P (xs ! i) \<and> xs ! i = xs ! j \<longrightarrow> i = j" by blast
  then have "distinct (filter P xs)" by (rule Cons.IH)
  moreover have "x \<notin> set xs" if "P x"
  proof
    assume "x \<in> set xs"
    then obtain j where "j < length xs" "xs ! j = x" by (auto simp: in_set_conv_nth)
    then show False using Cons.prems[rule_format, of 0 "Suc j"] that by simp
  qed
  ultimately show ?case by auto
qed simp

text \<open>The live entries of a table, as indices of objects.\<close>

lemma tab_ok_entries:
  assumes t: "tab_ok i0 objs K tbl" and o: "objs_ok i0 objs" and K: "K \<subseteq> {..<length objs}"
  obtains ks where "filter (\<lambda>e. i0 \<le> fst e) tbl = map (entry i0 objs) ks" "distinct ks" "set ks = K"
proof -
  define es where "es = filter (\<lambda>e. i0 \<le> fst e) tbl"
  define ix where "ix e = unat (fst e - i0)" for e :: "u32 \<times> val"
  have e: "\<exists>k \<in> K. e = entry i0 objs k" if "e \<in> set es" for e
  proof -
    obtain h where "h < length tbl" "tbl ! h = e" "i0 \<le> fst e" using \<open>e \<in> set es\<close> by (auto simp: es_def in_set_conv_nth)
    then show ?thesis using tab_okD(3)[OF t, of h] by (auto simp: live_def)
  qed
  have ix: "ix (entry i0 objs k) = k" if "k \<in> K" for k
    using that K entry_live(2)[OF o, of k] by (auto simp: ix_def)
  have m: "entry i0 objs (ix e) = e" if "e \<in> set es" for e using e[OF that] ix by auto
  have "distinct es" unfolding es_def using tab_okD(4)[OF t] by (intro distinct_filter_nth) (auto simp: live_def)
  moreover have "inj_on ix (set es)" using m by (metis inj_onI)
  ultimately have d: "distinct (map ix es)" by (simp add: distinct_map)
  have mm: "map (entry i0 objs) (map ix es) = es" using m by (simp add: map_idI)
  have "set (map ix es) = K"
  proof (intro equalityI subsetI)
    fix k assume "k \<in> set (map ix es)"
    then obtain e' where "e' \<in> set es" "k = ix e'" by auto
    then show "k \<in> K" using e[of e'] ix by auto
  next
    fix k assume k: "k \<in> K"
    then obtain j where "tbl ! slot tbl (objs ! k) j = entry i0 objs k" using tab_okD(2)[OF t k] by blast
    moreover have "slot tbl (objs ! k) j < length tbl" using slot_less tab_okD(1)[OF t] by blast
    ultimately have "entry i0 objs k \<in> set tbl" by (metis nth_mem)
    then have "entry i0 objs k \<in> set es" using entry_live(1)[OF o, of k] k K by (auto simp: es_def)
    then show "k \<in> set (map ix es)" using ix[OF k] by (metis image_eqI set_map)
  qed
  then show thesis using that[of "map ix es"] d mm by (simp add: es_def)
qed

lemma rehash_ok:
  assumes o: "objs_ok i0 objs"
  shows "tab_ok i0 objs K tbl \<Longrightarrow> filter (\<lambda>e. i0 \<le> fst e) es = map (entry i0 objs) ks \<Longrightarrow> distinct ks \<Longrightarrow>
    set ks \<inter> K = {} \<Longrightarrow> set ks \<union> K \<subseteq> {..<length objs} \<Longrightarrow> length objs < length tbl \<Longrightarrow>
    \<exists>tbl'. rehash i0 es tbl = Some tbl' \<and> length tbl' = length tbl \<and> tab_ok i0 objs (set ks \<union> K) tbl'"
proof (induction es arbitrary: ks K tbl)
  case (Cons e es)
  obtain ofs obj where e: "e = (ofs, obj)" by fastforce
  show ?case
  proof (cases "i0 \<le> ofs")
    case False
    then show ?thesis using Cons e by simp
  next
    case True
    then obtain k ks' where ks: "ks = k # ks'" "entry i0 objs k = (ofs, obj)"
        "filter (\<lambda>e. i0 \<le> fst e) es = map (entry i0 objs) ks'"
      using Cons.prems(2) e by (cases ks) auto
    have obj: "obj = objs ! k" using ks(2) by (simp add: entry_def)
    have K: "K \<subseteq> {..<length objs}" "k < length objs" "k \<notin> K" using Cons.prems ks(1) by auto
    have c: "finite K" "card K < length tbl"
      using K(1) Cons.prems(6) finite_subset card_mono[OF _ K(1)] by auto
    obtain m where m: "m < length tbl" "\<forall>j' < m. live i0 tbl (slot tbl (objs ! k) j')"
        "\<not> live i0 tbl (slot tbl (objs ! k) m)"
      using free_slot[OF Cons.prems(1) c] by blast
    have h0: "extern_hash obj (length tbl) = slot tbl (objs ! k) 0"
      using tab_okD(1)[OF Cons.prems(1)] by (simp add: obj slot_def extern_hash_def)
    have pr: "extern_probe (length tbl) i0 tbl None (slot tbl (objs ! k) 0) = Some (slot tbl (objs ! k) m, None)"
      using extern_probe_free[OF tab_okD(1)[OF Cons.prems(1)] _ m, of None] by simp
    define tbl1 where "tbl1 = tbl[slot tbl (objs ! k) m := (ofs, obj)]"
    have t1: "tab_ok i0 objs (insert k K) tbl1" unfolding tbl1_def ks(2)[symmetric]
      by (rule tab_ok_insert[OF Cons.prems(1) o K m])
    have "\<exists>tbl'. rehash i0 es tbl1 = Some tbl' \<and> length tbl' = length tbl1 \<and> tab_ok i0 objs (set ks' \<union> insert k K) tbl'"
      using Cons.prems ks by (intro Cons.IH[OF t1]) (auto simp: tbl1_def)
    moreover have "rehash i0 (e # es) tbl = rehash i0 es tbl1" using True by (simp add: e h0 pr tbl1_def)
    ultimately show ?thesis by (simp add: ks(1) tbl1_def Un_insert_right)
  qed
qed simp

section \<open>The table as a list of objects\<close>

text \<open>
  \<open>tracks s objs\<close>: the objects recorded since the start of the value are \<open>objs\<close>, in this order. At most
  half of the table is in use, so that probing ends.
\<close>

definition tracks :: "extern_state \<Rightarrow> val list \<Rightarrow> bool" where
  "tracks s objs \<longleftrightarrow> objs_ok (initial_ofs s) objs \<and> length objs < 2147483648
     \<and> tab_ok (initial_ofs s) objs {..<length objs} (extern_table s)
     \<and> obj_counter s = word_of_nat (length objs) \<and> INITIAL_EXTERN_TABLE_SIZE \<le> length (extern_table s) \<and> 2 * length objs \<le> length (extern_table s) + 1"

definition obj_index :: "val \<Rightarrow> val list \<Rightarrow> nat" where
  "obj_index v objs = length (takeWhile (\<lambda>w. w \<noteq> v) objs)"

lemma obj_index: "v \<in> set objs \<Longrightarrow> obj_index v objs < length objs \<and> objs ! obj_index v objs = v"
  by (induction objs) (auto simp: obj_index_def)

lemma resize_extern_table_ok:
  assumes "tracks s objs"
  shows "\<exists>tbl. resize_extern_table s = Some (s\<lparr>extern_table := tbl\<rparr>) \<and> tracks (s\<lparr>extern_table := tbl\<rparr>) objs
    \<and> 2 * length objs < length tbl"
proof -
  let ?i0 = "initial_ofs s"
  let ?n = "2 * length (extern_table s)"
  have o: "objs_ok ?i0 objs" and t: "tab_ok ?i0 objs {..<length objs} (extern_table s)"
    and h: "2 * length objs \<le> length (extern_table s) + 1" using assms(1) by (simp_all add: tracks_def)
  have n: "0 < ?n" "length objs < ?n" using tab_okD(1)[OF t] h by linarith+
  obtain ks where ks: "filter (\<lambda>e. ?i0 \<le> fst e) (extern_table s) = map (entry ?i0 objs) ks" "distinct ks"
      "set ks = {..<length objs}"
    using tab_ok_entries[OF t o] by blast
  have "tab_ok ?i0 objs {} (alloc_extern_table ?n)"
    using n o by (intro tab_ok_empty) (auto simp: alloc_extern_table_def objs_ok_def)
  from rehash_ok[OF o this ks(1,2)] obtain tbl where
    tbl: "rehash ?i0 (extern_table s) (alloc_extern_table ?n) = Some tbl" "length tbl = ?n"
      "tab_ok ?i0 objs {..<length objs} tbl"
    using n ks(3) by (auto simp: alloc_extern_table_def)
  then show ?thesis
    using assms n h by (auto simp: resize_extern_table_def tracks_def INITIAL_EXTERN_TABLE_SIZE_def)
qed

lemma extern_seen_ok:
  assumes tr: "tracks s objs"
    and fits: "v \<notin> set objs \<Longrightarrow> length objs + 1 < 2147483648 \<and> unat (initial_ofs s) + length objs + 1 < 4294967296"
  shows "\<exists>tbl n. extern_seen v s =
      Some (if v \<in> set objs then Some (word_of_nat (length objs - obj_index v objs)) else None,
            s\<lparr>extern_table := tbl, obj_counter := n\<rparr>)
    \<and> tracks (s\<lparr>extern_table := tbl, obj_counter := n\<rparr>) (if v \<in> set objs then objs else objs @ [v])"
proof -
  let ?i0 = "initial_ofs s"
  have oc: "obj_counter s = word_of_nat (length objs)" using tr by (simp add: tracks_def)
  have "unat (2 * obj_counter s) = 2 * length objs"
  proof -
    have "2 * obj_counter s = word_of_nat (2 * length objs)" by (simp add: oc)
    then show ?thesis using tr by (simp add: tracks_def unat_of_nat del: of_nat_mult)
  qed
  then obtain tbl where r: "(if length (extern_table s) \<le> unat (2 * obj_counter s) then resize_extern_table s else Some s)
        = Some (s\<lparr>extern_table := tbl\<rparr>)"
      "tracks (s\<lparr>extern_table := tbl\<rparr>) objs" "2 * length objs < length tbl"
  proof (cases "length (extern_table s) \<le> 2 * length objs")
    case True
    then show thesis using that resize_extern_table_ok[OF tr] \<open>unat (2 * obj_counter s) = _\<close> by auto
  next
    case False
    then show thesis using that[of "extern_table s"] tr \<open>unat (2 * obj_counter s) = _\<close> by simp
  qed
  have o: "objs_ok ?i0 objs" and t: "tab_ok ?i0 objs {..<length objs} tbl" using r(2) by (simp_all add: tracks_def)
  have l: "0 < length tbl" using tab_okD(1)[OF t] .
  have h0: "extern_hash v (length tbl) = slot tbl v 0" using l by (simp add: slot_def extern_hash_def)
  show ?thesis
  proof (cases "v \<in> set objs")
    case True
    define k where "k = obj_index v objs"
    have k: "k < length objs" "objs ! k = v" using obj_index[OF True] by (simp_all add: k_def)
    then obtain j where j: "j < length tbl" "tbl ! slot tbl v j = entry ?i0 objs k"
        "\<forall>j' < j. live ?i0 tbl (slot tbl v j')"
      using tab_okD(2)[OF t, of k] by auto
    have u: "\<forall>h < length tbl. live ?i0 tbl h \<and> snd (tbl ! h) = v \<longrightarrow> fst (tbl ! h) = ?i0 + word_of_nat k"
    proof (intro allI impI)
      fix h assume h: "h < length tbl" "live ?i0 tbl h \<and> snd (tbl ! h) = v"
      then obtain q where "q < length objs" "tbl ! h = entry ?i0 objs q" using tab_okD(3)[OF t, of h] by auto
      then show "fst (tbl ! h) = ?i0 + word_of_nat k"
        using h k o by (auto simp: entry_def objs_ok_def nth_eq_iff_index_eq)
    qed
    have "\<exists>h. extern_probe (length tbl) ?i0 tbl (Some v) (slot tbl v 0) = Some (h, Some (?i0 + word_of_nat k))"
      using j k u entry_live(1)[OF o k(1)] by (intro extern_probe_found[OF l]) (auto simp: entry_def)
    then have "extern_seen v s = Some (Some (obj_counter s - word_of_nat k), s\<lparr>extern_table := tbl\<rparr>)"
      unfolding extern_seen_def r(1) by (auto simp: h0)
    moreover have "obj_counter s - word_of_nat k = word_of_nat (length objs - k)"
      using k(1) by (simp add: oc of_nat_diff)
    ultimately show ?thesis using True r(2) by (auto simp: k_def intro!: exI[of _ tbl] exI[of _ "obj_counter s"])
  next
    case False
    have len: "length objs + 1 < 2147483648" "unat (initial_ofs s) + length objs + 1 < 4294967296"
      using fits[OF False] by simp_all
    have fr: "\<forall>h < length tbl. live ?i0 tbl h \<longrightarrow> Some v \<noteq> Some (snd (tbl ! h))"
    proof (intro allI impI)
      fix h assume "h < length tbl" "live ?i0 tbl h"
      then obtain q where "q < length objs" "tbl ! h = entry ?i0 objs q" using tab_okD(3)[OF t, of h] by auto
      then show "Some v \<noteq> Some (snd (tbl ! h))" using False by (auto simp: entry_def)
    qed
    have c: "finite {..<length objs}" "card {..<length objs} < length tbl" using r(3) by simp_all
    obtain m where m: "m < length tbl" "\<forall>j' < m. live ?i0 tbl (slot tbl v j')" "\<not> live ?i0 tbl (slot tbl v m)"
      using free_slot[OF t c] by blast
    define tbl' where "tbl' = tbl[slot tbl v m := (?i0 + obj_counter s, v)]"
    have seen: "extern_seen v s = Some (None, s\<lparr>extern_table := tbl', obj_counter := obj_counter s + 1\<rparr>)"
      unfolding extern_seen_def r(1) using extern_probe_free[OF l fr m] by (simp add: h0 tbl'_def)
    let ?objs = "objs @ [v]"
    have o': "objs_ok ?i0 ?objs" using o False len by (simp add: objs_ok_def)
    have "tab_ok ?i0 ?objs {..<length objs} tbl" by (rule tab_ok_more[OF t]) simp
    from tab_ok_insert[OF this o', of "length objs" m] m
    have "tab_ok ?i0 ?objs (insert (length objs) {..<length objs}) tbl'" by (auto simp: tbl'_def entry_def oc)
    moreover have "insert (length objs) {..<length objs} = {..<length ?objs}" by auto
    ultimately have "tracks (s\<lparr>extern_table := tbl', obj_counter := obj_counter s + 1\<rparr>) ?objs"
      using o' r(2,3) len by (auto simp: tracks_def oc tbl'_def)
    then show ?thesis using False seen by auto
  qed
qed

end
