(* ===== verification/Intern.thy ===== *)
theory Intern
  imports Extern
begin

text \<open>
  Reading marshalled values back (\<open>Byterun/intern.c\<close>): the reader fills a block allocated for the
  whole structure, and keeps the table of the objects read so far for shared references. The input is
  the list of its bytes with the index of the next one. The place a value is stored to is an address of
  the memory, or a local variable of the caller (\<open>None\<close>), whose value is also the result.
\<close>

section \<open>State\<close>

record intern_state =
  i_heap :: mlheap
  intern_input :: "u8 list"
  intern_src :: nat
  intern_dest :: u32
  i_obj_counter :: u32
  intern_obj_table :: "val list option"
  intern_color :: u32
  intern_header :: u32
  intern_block :: val

type_synonym 'a ires = "((ml_error \<times> intern_state) + 'a) option"

section \<open>Reading bytes\<close>

definition read_bytes :: "nat \<Rightarrow> intern_state \<Rightarrow> (u8 list \<times> intern_state) option" where
  "read_bytes n s =
    (if intern_src s + n \<le> length (intern_input s)
     then Some (take n (drop (intern_src s) (intern_input s)), s\<lparr>intern_src := intern_src s + n\<rparr>) else None)"

definition Sign_extend :: "u8 \<Rightarrow> u32" where
  "Sign_extend x = signed_drop_bit 24 (push_bit 24 (ucast x))"

definition read8u :: "intern_state \<Rightarrow> (u32 \<times> intern_state) option" where
  "read8u s = do { (b, s) \<leftarrow> read_bytes 1 s; Some (ucast (b ! 0), s) }"

definition read8s :: "intern_state \<Rightarrow> (u32 \<times> intern_state) option" where
  "read8s s = do { (b, s) \<leftarrow> read_bytes 1 s; Some (Sign_extend (b ! 0), s) }"

definition read16u :: "intern_state \<Rightarrow> (u32 \<times> intern_state) option" where
  "read16u s = do { (b, s) \<leftarrow> read_bytes 2 s; Some (push_bit 8 (ucast (b ! 0)) + ucast (b ! 1), s) }"

definition read16s :: "intern_state \<Rightarrow> (u32 \<times> intern_state) option" where
  "read16s s = do { (b, s) \<leftarrow> read_bytes 2 s; Some (push_bit 8 (Sign_extend (b ! 0)) + ucast (b ! 1), s) }"

definition read32u :: "intern_state \<Rightarrow> (u32 \<times> intern_state) option" where
  "read32u s = do { (b, s) \<leftarrow> read_bytes 4 s;
     Some (push_bit 24 (ucast (b ! 0)) + push_bit 16 (ucast (b ! 1)) + push_bit 8 (ucast (b ! 2)) + ucast (b ! 3), s) }"

definition read32s :: "intern_state \<Rightarrow> (u32 \<times> intern_state) option" where
  "read32s s = do { (b, s) \<leftarrow> read_bytes 4 s;
     Some (push_bit 24 (Sign_extend (b ! 0)) + push_bit 16 (ucast (b ! 1)) + push_bit 8 (ucast (b ! 2)) + ucast (b ! 3), s) }"

text \<open>\<open>readblock\<close> copies bytes of the input into a block.\<close>

fun copy_bytes :: "val \<Rightarrow> u32 \<Rightarrow> u8 list \<Rightarrow> 'a mlheap_scheme \<Rightarrow> 'a mlheap_scheme option" where
  "copy_bytes v i [] h = Some h"
| "copy_bytes v i (b # bs) h = do { h \<leftarrow> Byte_set v i b h; copy_bytes v (i + 1) bs h }"

definition readblock :: "val \<Rightarrow> nat \<Rightarrow> intern_state \<Rightarrow> intern_state option" where
  "readblock v n s = do {
     (bs, s) \<leftarrow> read_bytes n s;
     map_option (\<lambda>h. s\<lparr>i_heap := h\<rparr>) (copy_bytes v 0 bs (i_heap s))
   }"

section \<open>The reader\<close>

text \<open>\<open>intern_cleanup\<close> puts the header of the allocated block back, for the collector.\<close>

definition intern_cleanup :: "intern_state \<Rightarrow> intern_state option" where
  "intern_cleanup s = map_option (\<lambda>h. s\<lparr>i_heap := h\<rparr>) (store (intern_block s - 4) (intern_header s) (i_heap s))"

definition intern_fails :: "ml_error \<Rightarrow> intern_state \<Rightarrow> 'a ires" where
  "intern_fails e s = map_option (\<lambda>s. Inl (e, s)) (intern_cleanup s)"

definition store_dest :: "u32 option \<Rightarrow> val \<Rightarrow> intern_state \<Rightarrow> intern_state option" where
  "store_dest dest v s =
    (case dest of None \<Rightarrow> Some s | Some a \<Rightarrow> map_option (\<lambda>h. s\<lparr>i_heap := h\<rparr>) (store a v (i_heap s)))"

text \<open>Take the next object of the block: record it, write its header and move on.\<close>

definition record_obj :: "val \<Rightarrow> intern_state \<Rightarrow> intern_state option" where
  "record_obj v s =
    (case intern_obj_table s of
       None \<Rightarrow> Some s
     | Some tbl \<Rightarrow> map_option (\<lambda>tbl. s\<lparr>intern_obj_table := Some tbl, i_obj_counter := i_obj_counter s + 1\<rparr>)
                     (wr tbl (unat (i_obj_counter s)) v))"

definition intern_new :: "u32 \<Rightarrow> u32 \<Rightarrow> intern_state \<Rightarrow> (val \<times> intern_state) option" where
  "intern_new sz tag s = do {
     let v = intern_dest s + 4;
     s \<leftarrow> record_obj v s;
     h \<leftarrow> store (intern_dest s) (Make_header sz tag (intern_color s)) (i_heap s);
     Some (v, s\<lparr>i_heap := h, intern_dest := intern_dest s + 4 * (1 + sz)\<rparr>)
   }"

definition read_string :: "u32 \<Rightarrow> intern_state \<Rightarrow> (val \<times> intern_state) option" where
  "read_string len s = do {
     let sz = (len + 4) div 4;
     (v, s) \<leftarrow> intern_new sz String_tag s;
     h \<leftarrow> store (Field_addr v (sz - 1)) 0 (i_heap s);
     let ofs_ind = Bsize_wsize sz - 1;
     h \<leftarrow> Byte_set v ofs_ind (ucast (ofs_ind - len)) h;
     s \<leftarrow> readblock v (unat len) (s\<lparr>i_heap := h\<rparr>);
     Some (v, s)
   }"

definition read_shared :: "u32 \<Rightarrow> intern_state \<Rightarrow> (val \<times> intern_state) option" where
  "read_shared ofs s = do {
     tbl \<leftarrow> intern_obj_table s;
     v \<leftarrow> rd tbl (unat (i_obj_counter s - ofs));
     Some (v, s)
   }"

text \<open>\<open>Reverse_double\<close> exchanges the two words and the bytes in each.\<close>

definition bswap32 :: "u32 \<Rightarrow> u32" where
  "bswap32 w = push_bit 24 (w AND 0xFF) OR push_bit 8 (w AND 0xFF00) OR (drop_bit 8 w AND 0xFF00) OR drop_bit 24 w"

definition Reverse_double :: "val \<Rightarrow> intern_state \<Rightarrow> intern_state option" where
  "Reverse_double v s = do {
     lo \<leftarrow> load (i_heap s) v;
     hi \<leftarrow> load (i_heap s) (v + 4);
     h \<leftarrow> store v (bswap32 hi) (i_heap s);
     h \<leftarrow> store (v + 4) (bswap32 lo) h;
     Some (s\<lparr>i_heap := h\<rparr>)
   }"

definition read_double :: "bool \<Rightarrow> intern_state \<Rightarrow> (val \<times> intern_state) option" where
  "read_double native s = do {
     (v, s) \<leftarrow> intern_new 2 Double_tag s;
     s \<leftarrow> readblock v 8 s;
     s \<leftarrow> (if native then Some s else Reverse_double v s);
     Some (v, s)
   }"

text \<open>
  What a code of the format asks for: a value that is complete, a block whose fields follow, or an
  infix pointer, whose closure follows. Float arrays are refused by the bytecode runtime.
\<close>

datatype item = Item val | Block u32 u32 | Infix u32

definition intern_item :: "code_area \<Rightarrow> u32 \<Rightarrow> intern_state \<Rightarrow> (item \<times> intern_state) ires" where
  "intern_item ca code s =
    (let value = map_option (\<lambda>(v, s). Inr (Item v, s)); num = map_option (\<lambda>(n, s). Inr (Item (Val_long n), s)) in
     if ucast PREFIX_SMALL_BLOCK \<le> code then Some (Inr (Block (code AND 0xF) (drop_bit 4 code AND 0x7), s))
     else if ucast PREFIX_SMALL_INT \<le> code then Some (Inr (Item (Val_long (code AND 0x3F)), s))
     else if ucast PREFIX_SMALL_STRING \<le> code then value (read_string (code AND 0x1F) s)
     else if code = ucast CODE_INT8 then num (read8s s)
     else if code = ucast CODE_INT16 then num (read16s s)
     else if code = ucast CODE_INT32 then num (read32s s)
     else if code = ucast CODE_INT64 then intern_fails (Failure ''input_value: integer too large'') s
     else if code = ucast CODE_SHARED8 then do { (ofs, s) \<leftarrow> read8u s; value (read_shared ofs s) }
     else if code = ucast CODE_SHARED16 then do { (ofs, s) \<leftarrow> read16u s; value (read_shared ofs s) }
     else if code = ucast CODE_SHARED32 then do { (ofs, s) \<leftarrow> read32u s; value (read_shared ofs s) }
     else if code = ucast CODE_BLOCK32 then do {
       (hdr, s) \<leftarrow> read32u s;
       Some (Inr (Block (Tag_hd hdr) (Wosize_hd hdr), s)) }
     else if code = ucast CODE_STRING8 then do { (len, s) \<leftarrow> read8u s; value (read_string len s) }
     else if code = ucast CODE_STRING32 then do { (len, s) \<leftarrow> read32u s; value (read_string len s) }
     else if code = ucast CODE_DOUBLE_LITTLE then value (read_double True s)
     else if code = ucast CODE_DOUBLE_BIG then value (read_double False s)
     else if code = ucast CODE_DOUBLE_ARRAY8_LITTLE \<or> code = ucast CODE_DOUBLE_ARRAY8_BIG then do {
       (len, s) \<leftarrow> read8u s;
       intern_fails (Failure ''input_value: cannot read float array'') s }
     else if code = ucast CODE_DOUBLE_ARRAY32_LITTLE \<or> code = ucast CODE_DOUBLE_ARRAY32_BIG then do {
       (len, s) \<leftarrow> read32u s;
       intern_fails (Failure ''input_value: cannot read float array'') s }
     else if code = ucast CODE_CODEPOINTER then do {
       (ofs, s) \<leftarrow> read32u s;
       (cksum, s) \<leftarrow> read_bytes 16 s;
       if cksum \<noteq> code_checksum ca then intern_fails (Failure ''input_value: code mismatch'') s
       else Some (Inr (Item (code_start ca + ofs), s)) }
     else if code = ucast CODE_INFIXPOINTER then do { (ofs, s) \<leftarrow> read32u s; Some (Inr (Infix ofs, s)) }
     else intern_fails (Failure ''input_value: ill-formed message'') s)"

fun intern_rec :: "nat \<Rightarrow> code_area \<Rightarrow> u32 \<Rightarrow> u32 option \<Rightarrow> intern_state \<Rightarrow> (val \<times> intern_state) ires"
and intern_fields :: "nat \<Rightarrow> code_area \<Rightarrow> u32 \<Rightarrow> u32 \<Rightarrow> nat \<Rightarrow> intern_state \<Rightarrow> intern_state ires" where
  "intern_rec 0 ca at dest s = None"
| "intern_rec (Suc n) ca at dest s = do {
     (code, s) \<leftarrow> read8u s;
     andthen (intern_item ca code s) (\<lambda>(item, s).
       case item of
         Item v \<Rightarrow> map_option (\<lambda>s. Inr (v, s)) (store_dest dest v s)
       | Block tag sz \<Rightarrow>
           if sz = 0 then map_option (\<lambda>s. Inr (at + 4 * tag + 4, s)) (store_dest dest (at + 4 * tag + 4) s)
           else do {
             s \<leftarrow> store_dest dest (intern_dest s + 4) s;
             (v, s) \<leftarrow> intern_new sz tag s;
             andthen (intern_fields n ca at v (unat sz) s) (\<lambda>s. Some (Inr (v, s))) }
       | Infix ofs \<Rightarrow>
           andthen (intern_rec n ca at None s) (\<lambda>(clos, s).
             map_option (\<lambda>s. Inr (clos + ofs, s)) (store_dest dest (clos + ofs) s)))
   }"
| "intern_fields n ca at a 0 s = Some (Inr s)"
| "intern_fields n ca at a (Suc k) s =
    andthen (intern_rec n ca at (Some a) s) (\<lambda>(_, s). intern_fields n ca at (a + 4) k s)"

text \<open>
  \<open>intern_alloc\<close>: \<open>alloc\<close> is the allocator of the runtime, called for a string block that covers the
  whole structure.
\<close>

definition intern_alloc ::
  "(u32 \<Rightarrow> u32 \<Rightarrow> mlheap \<Rightarrow> (val \<times> mlheap) option) \<Rightarrow> u32 \<Rightarrow> u32 \<Rightarrow> intern_state \<Rightarrow> intern_state ires" where
  "intern_alloc alloc whsize num_objects s =
    (if whsize = 0 then Some (Inr (s\<lparr>intern_obj_table := None\<rparr>))
     else
       let wosize = Wosize_whsize whsize in
       if Max_wosize < wosize then Some (Inl (Failure ''intern: structure too big'', s))
       else do {
         (b, h) \<leftarrow> alloc wosize String_tag (i_heap s);
         hdr \<leftarrow> Hd_val h b;
         Some (Inr (s\<lparr>i_heap := h, intern_block := b, intern_header := hdr, intern_color := Color_hd hdr,
           intern_dest := b - 4, i_obj_counter := 0,
           intern_obj_table := if 0 < num_objects then Some (replicate (unat num_objects) 0) else None\<rparr>)) })"

text \<open>\<open>input_val_from_string\<close> on the bytes \<open>bs\<close> of the string, at the offset \<open>ofs\<close>.\<close>

definition input_val_from_string ::
  "(u32 \<Rightarrow> u32 \<Rightarrow> mlheap \<Rightarrow> (val \<times> mlheap) option) \<Rightarrow> nat \<Rightarrow> code_area \<Rightarrow> u32 \<Rightarrow> u8 list \<Rightarrow> nat \<Rightarrow> intern_state
   \<Rightarrow> (val \<times> intern_state) ires" where
  "input_val_from_string alloc n ca at bs ofs s = do {
     let s = s\<lparr>intern_input := bs, intern_src := ofs + 2 * 4\<rparr>;
     (num_objects, s) \<leftarrow> read32u s;
     (sz32, s) \<leftarrow> read32u s;
     (sz64, s) \<leftarrow> read32u s;
     andthen (intern_alloc alloc sz32 num_objects s) (\<lambda>s.
       intern_rec n ca at None (s\<lparr>intern_src := ofs + 5 * 4\<rparr>))
   }"

definition marshal_data_size :: "u8 list \<Rightarrow> nat \<Rightarrow> intern_state \<Rightarrow> (val \<times> intern_state) ires" where
  "marshal_data_size bs ofs s = do {
     (magic, s) \<leftarrow> read32u (s\<lparr>intern_input := bs, intern_src := ofs\<rparr>);
     if magic \<noteq> Intext_magic_number then Some (Inl (Failure ''Marshal.data_size: bad object'', s))
     else do {
       (block_len, s) \<leftarrow> read32u s;
       Some (Inr (Val_long block_len, s)) }
   }"

end
