(* ===== verification/Mlbytes.thy ===== *)
theory Mlbytes
  imports Intern
begin

text \<open>
  Bytes of blocks: the byte \<open>i\<close> of an aligned block is in the word \<open>i div 4\<close>, reading after writing,
  and the copy of a list of bytes into a block.
\<close>

definition aligned :: "u32 \<Rightarrow> bool" where "aligned a \<longleftrightarrow> a AND 3 = 0"

lemma and3: "unat ((a::u32) AND 3) = unat a mod 4"
proof -
  have "(3::u32) = mask 2" by code_simp
  then show ?thesis by (simp only: take_bit_eq_mask[symmetric] unat_take_bit32) simp
qed

lemma aligned_iff: "aligned a \<longleftrightarrow> 4 dvd unat a"
  by (metis aligned_def and3 dvd_eq_mod_eq_0 unat_eq_zero)

lemma mod4: "unat (a + b :: u32) mod 4 = (unat a + unat b) mod 4" "unat (4 * a :: u32) mod 4 = 0"
  by (simp_all add: unat_word_ariths mod_mod_cancel)

lemma aligned_add: "aligned a \<Longrightarrow> aligned b \<Longrightarrow> aligned (a + b)"
  by (simp add: aligned_iff dvd_eq_mod_eq_0 mod4 mod_add_eq[symmetric])

lemma aligned_4 [simp]: "aligned (4 * k)" "aligned 4" "aligned 0"
  by (simp_all add: aligned_iff dvd_eq_mod_eq_0 mod4)

lemma aligned_low:
  assumes "aligned a" "unat j < 4"
  shows "(a + j) AND 3 = j" "(a + j) AND NOT 3 = a"
proof -
  have m: "unat a mod 4 = 0" using assms(1) by (simp add: aligned_iff)
  have "unat ((a + j) AND 3) = unat j"
    unfolding and3 mod4 using m assms(2) by (metis add.left_neutral mod_add_left_eq mod_less)
  then show j: "(a + j) AND 3 = j" by (simp add: word_unat_eq_iff)
  have "((a + j) AND NOT 3) AND ((a + j) AND 3) = 0" "((a + j) AND NOT 3) OR ((a + j) AND 3) = a + j"
    by (rule bit_word_eqI; auto simp: bit_simps)+
  then have "(a + j) = ((a + j) AND NOT 3) + ((a + j) AND 3)" by (metis word_or_eq_add)
  then show "(a + j) AND NOT 3 = a" by (simp add: j)
qed

text \<open>Bytes of a word.\<close>

definition byte_at :: "nat \<Rightarrow> u32 \<Rightarrow> u8" where "byte_at j w = ucast (drop_bit (8 * j) w)"

lemma Byte_u_word:
  assumes "aligned v" "j < 4"
  shows "Byte_u h v (4 * k + word_of_nat j) = map_option (byte_at j) (load h (v + 4 * k))"
proof -
  have u: "unat (word_of_nat j :: u32) = j" using assms(2) by (simp add: unat_word32)
  have "aligned (v + 4 * k)" using assms(1) by (simp add: aligned_add)
  from aligned_low[OF this, of "word_of_nat j"] show ?thesis
    using assms(2) u by (simp add: Byte_u_def Let_def byte_at_def[abs_def] add.assoc)
qed

lemma bit_byte_at: "bit (byte_at j w) n \<longleftrightarrow> n < 8 \<and> bit w (8 * j + n)"
  by (simp add: byte_at_def bit_ucast_iff bit_drop_bit_eq)

lemma byte_at_set_byte:
  assumes "i < 4" "j < 4"
  shows "byte_at j (set_byte (word_of_nat i) b w) = (if i = j then b else byte_at j w)"
proof (rule bit_word_eqI)
  fix n assume "n < LENGTH(8)"
  then have n: "n < 8" by simp
  have u: "unat (word_of_nat i :: u32) = i" using assms(1) by (simp add: unat_word32)
  have ff: "(0xFF :: u32) = mask 8" by code_simp
  have "bit (byte_at j (set_byte (word_of_nat i) b w)) n \<longleftrightarrow>
    (bit w (8 * j + n) \<and> \<not> (8 * i \<le> 8 * j + n \<and> 8 * j + n - 8 * i < 8))
    \<or> (8 * i \<le> 8 * j + n \<and> bit b (8 * j + n - 8 * i))"
    using n assms u
    by (auto simp: bit_byte_at set_byte_def ff bit_simps dest: bit_imp_le_length)
  also have "\<dots> \<longleftrightarrow> bit (if i = j then b else byte_at j w) n"
    using n by (cases i j rule: linorder_cases) (auto simp: bit_byte_at dest: bit_imp_le_length)
  finally show "bit (byte_at j (set_byte (word_of_nat i) b w)) n = bit (if i = j then b else byte_at j w) n" .
qed

lemma word_bytes_eqI:
  assumes "\<forall>j < 4. byte_at j w = byte_at j w'"
  shows "w = w'"
proof (rule bit_word_eqI)
  fix n assume "n < LENGTH(32)"
  then have n: "n div 8 < 4" by simp
  have "bit (byte_at (n div 8) w) (n mod 8) = bit (byte_at (n div 8) w') (n mod 8)" using assms n by simp
  then show "bit w n = bit w' n" by (simp add: bit_byte_at)
qed

section \<open>Bytes of a block\<close>

text \<open>The address of the word \<open>k\<close> of a block.\<close>

definition word_at :: "u32 \<Rightarrow> nat \<Rightarrow> u32" where "word_at v k = v + 4 * word_of_nat k"

lemma word_at_simps [simp]: "word_at (word_at v n) k = word_at v (n + k)" "word_at v 0 = v" "word_at (v + 4) k = word_at v (Suc k)"
  "word_at v (Suc 0) = v + 4"
  by (simp_all add: word_at_def distrib_left add.assoc)

lemma aligned_word_at [simp]: "aligned v \<Longrightarrow> aligned (word_at v k)"
  by (simp add: word_at_def aligned_add)

lemma word_at_inj: "k < 1073741824 \<Longrightarrow> k' < 1073741824 \<Longrightarrow> word_at v k = word_at v k' \<longleftrightarrow> k = k'"
proof -
  assume k: "k < 1073741824" "k' < 1073741824"
  have "4 * word_of_nat k = (word_of_nat (4 * k) :: u32)" "4 * word_of_nat k' = (word_of_nat (4 * k') :: u32)" by simp_all
  then have "word_at v k = word_at v k' \<longleftrightarrow> (word_of_nat (4 * k) :: u32) = word_of_nat (4 * k')" by (simp add: word_at_def)
  also have "\<dots> \<longleftrightarrow> 4 * k = 4 * k'"
  proof -
    have "unat (word_of_nat (4 * k) :: u32) = 4 * k" "unat (word_of_nat (4 * k') :: u32) = 4 * k'"
      using k by (intro unat_word32; simp)+
    then show ?thesis by metis
  qed
  finally show ?thesis by simp
qed

lemma word_of_nat_split: "(word_of_nat j :: u32) = 4 * word_of_nat (j div 4) + word_of_nat (j mod 4)"
proof -
  have "(word_of_nat j :: u32) = word_of_nat (4 * (j div 4) + j mod 4)" by simp
  then show ?thesis by (simp only: of_nat_add of_nat_mult of_nat_numeral)
qed

lemma Byte_u_nat:
  assumes "aligned v"
  shows "Byte_u h v (word_of_nat j) = map_option (byte_at (j mod 4)) (load h (word_at v (j div 4)))"
  by (subst word_of_nat_split) (simp add: Byte_u_word[OF assms] word_at_def)

lemma Byte_set_nat:
  assumes "aligned v"
  shows "Byte_set v (word_of_nat i) b h = (case load h (word_at v (i div 4)) of None \<Rightarrow> None
    | Some w \<Rightarrow> store (word_at v (i div 4)) (set_byte (word_of_nat (i mod 4)) b w) h)"
proof -
  have "aligned (word_at v (i div 4))" using assms by simp
  moreover have "unat (word_of_nat (i mod 4) :: u32) < 4" by (simp add: unat_word32)
  ultimately have "v + word_of_nat i AND 3 = word_of_nat (i mod 4)" "v + word_of_nat i AND NOT 3 = word_at v (i div 4)"
    using aligned_low[of "word_at v (i div 4)" "word_of_nat (i mod 4)"] word_of_nat_split[of i] by (simp_all add: add.assoc word_at_def)
  then show ?thesis by (simp add: Byte_set_def Let_def bind_eq_None_conv split: option.split)
qed

lemma Byte_u_set:
  assumes v: "aligned v" and i: "i < 4294967296" "j < 4294967296" and b: "Byte_set v (word_of_nat i) b h = Some h'"
  shows "Byte_u h' v (word_of_nat j) = (if i = j then Some b else Byte_u h v (word_of_nat j))"
proof -
  obtain w where w: "load h (word_at v (i div 4)) = Some w"
      "h' = h\<lparr>h_mem := (h_mem h)(word_at v (i div 4) \<mapsto> set_byte (word_of_nat (i mod 4)) b w)\<rparr>"
    using b by (auto simp: Byte_set_nat[OF v] store_def load_def split: option.splits)
  show ?thesis
  proof (cases "i div 4 = j div 4")
    case True
    have "i mod 4 = j mod 4 \<longleftrightarrow> i = j" using True by (metis div_mult_mod_eq)
    then show ?thesis using w True byte_at_set_byte[of "i mod 4" "j mod 4" b w]
      by (simp add: Byte_u_nat[OF v] load_def)
  next
    case False
    then have "word_at v (j div 4) \<noteq> word_at v (i div 4)" using i word_at_inj[of "j div 4" "i div 4" v] by auto
    then show ?thesis using w False by (auto simp: Byte_u_nat[OF v] load_def)
  qed
qed

lemma bytes_of_iff:
  "bytes_of h v (word_of_nat i) n = Some bs \<longleftrightarrow>
    length bs = n \<and> (\<forall>j < n. Byte_u h v (word_of_nat (i + j)) = Some (bs ! j))"
proof (induction n arbitrary: i bs)
  case (Suc n)
  have s: "(word_of_nat i :: u32) + 1 = word_of_nat (Suc i)" by simp
  show ?case
  proof (cases bs)
    case Nil
    then show ?thesis by (auto simp: s Suc.IH split: bind_splits)
  next
    case (Cons b bs')
    have "bytes_of h v (word_of_nat i) (Suc n) = Some bs \<longleftrightarrow>
        Byte_u h v (word_of_nat i) = Some b \<and> bytes_of h v (word_of_nat (Suc i)) n = Some bs'"
      by (auto simp: Cons s split: bind_splits)
    then show ?thesis by (simp only: Suc.IH) (auto simp: Cons All_less_Suc2 simp del: of_nat_add of_nat_Suc)
  qed
qed auto

text \<open>Copying bytes into a block whose words are mapped.\<close>

definition mapped :: "'a mlheap_scheme \<Rightarrow> u32 \<Rightarrow> nat \<Rightarrow> bool" where
  "mapped h v n \<longleftrightarrow> (\<forall>k < n. load h (word_at v k) \<noteq> None)"

text \<open>\<open>only h A h'\<close>: the memory \<open>h'\<close> is \<open>h\<close> with words of \<open>A\<close> changed.\<close>

definition only :: "'a mlheap_scheme \<Rightarrow> u32 set \<Rightarrow> 'a mlheap_scheme \<Rightarrow> bool" where
  "only h A h' \<longleftrightarrow> h' = h\<lparr>h_mem := h_mem h'\<rparr> \<and> (\<forall>a. load h' a = None \<longleftrightarrow> load h a = None)
     \<and> (\<forall>a. a \<notin> A \<longrightarrow> load h' a = load h a)"

lemma only_refl [simp]: "only h A h"
  by (simp add: only_def)

lemma only_trans: "only h A h1 \<Longrightarrow> only h1 B h2 \<Longrightarrow> only h (A \<union> B) h2"
  by (cases h, cases h1, cases h2) (simp add: only_def)

lemma only_mono: "only h A h' \<Longrightarrow> A \<subseteq> B \<Longrightarrow> only h B h'"
  by (auto simp: only_def)

lemma only_load: "only h A h' \<Longrightarrow> a \<notin> A \<Longrightarrow> load h' a = load h a"
  by (simp add: only_def)

lemma only_mapped: "only h A h' \<Longrightarrow> load h' a = None \<longleftrightarrow> load h a = None"
  by (simp add: only_def)

lemma store_only: "store a v h = Some h' \<Longrightarrow> only h {a} h' \<and> load h' a = Some v"
  by (auto simp: store_def only_def load_def split: if_splits)

lemma store_mapped: "load h a \<noteq> None \<Longrightarrow> \<exists>h'. store a v h = Some h' \<and> only h {a} h' \<and> load h' a = Some v"
proof -
  assume "load h a \<noteq> None"
  then have "store a v h \<noteq> None" by (simp add: store_def load_def)
  then show ?thesis using store_only by blast
qed

lemma Byte_set_mapped:
  assumes v: "aligned v" and m: "mapped h v n" "i < 4 * n"
  shows "\<exists>h'. Byte_set v (word_of_nat i) b h = Some h' \<and> only h {word_at v k | k. k < n} h'"
proof -
  have k: "i div 4 < n" using m(2) by simp
  then obtain w where w: "load h (word_at v (i div 4)) = Some w" using m(1) by (auto simp: mapped_def)
  obtain h' where h': "store (word_at v (i div 4)) (set_byte (word_of_nat (i mod 4)) b w) h = Some h'"
      "only h {word_at v (i div 4)} h'"
    using store_mapped[of h "word_at v (i div 4)"] w by blast
  have "{word_at v (i div 4)} \<subseteq> {word_at v k | k. k < n}" using k by auto
  then have "only h {word_at v k | k. k < n} h'" by (rule only_mono[OF h'(2)])
  moreover have "Byte_set v (word_of_nat i) b h = Some h'" by (simp add: Byte_set_nat[OF v] w h'(1))
  ultimately show ?thesis by blast
qed

lemma copy_bytes_ok:
  assumes v: "aligned v"
  shows "mapped h v n \<Longrightarrow> i + length bs \<le> 4 * n \<Longrightarrow> n < 1073741824 \<Longrightarrow>
    \<exists>h'. copy_bytes v (word_of_nat i) bs h = Some h' \<and> only h {word_at v k | k. k < n} h'
      \<and> (\<forall>j < 4 * n. Byte_u h' v (word_of_nat j) =
           (if i \<le> j \<and> j < i + length bs then Some (bs ! (j - i)) else Byte_u h v (word_of_nat j)))"
proof (induction bs arbitrary: i h)
  case (Cons b bs)
  have s: "(word_of_nat i :: u32) + 1 = word_of_nat (Suc i)" by simp
  have il: "i < 4 * n" using Cons.prems by simp
  obtain h1 where h1: "Byte_set v (word_of_nat i) b h = Some h1" "only h {word_at v k | k. k < n} h1"
    using Byte_set_mapped[OF v Cons.prems(1) il] by blast
  have "mapped h1 v n" using Cons.prems(1) only_mapped[OF h1(2)] by (simp add: mapped_def)
  from Cons.IH[OF this, of "Suc i"] Cons.prems obtain h2 where
    h2: "copy_bytes v (word_of_nat (Suc i)) bs h1 = Some h2" "only h1 {word_at v k | k. k < n} h2"
      "\<forall>j < 4 * n. Byte_u h2 v (word_of_nat j) =
         (if Suc i \<le> j \<and> j < Suc i + length bs then Some (bs ! (j - Suc i)) else Byte_u h1 v (word_of_nat j))"
    by auto
  have "Byte_u h2 v (word_of_nat j) =
      (if i \<le> j \<and> j < i + length (b # bs) then Some ((b # bs) ! (j - i)) else Byte_u h v (word_of_nat j))"
    if j: "j < 4 * n" for j
    using h2(3) j Byte_u_set[OF v _ _ h1(1), of j] il Cons.prems(3) by (auto simp: nth_Cons' Suc_le_eq)
  moreover have "only h {word_at v k | k. k < n} h2" using only_trans[OF h1(2) h2(2)] by simp
  moreover have "copy_bytes v (word_of_nat i) (b # bs) h = Some h2" using h1(1) h2(1) by (simp only: copy_bytes.simps s bind.bind_lunit)
  ultimately show ?case by blast
qed auto

end
