(* ===== verification/Serial.thy ===== *)
theory Serial
  imports Extern_Table Mlbytes
begin

text \<open>
  What the writer puts into the block, as a function of the data: \<open>ser\<close> gives the bytes, the objects
  recorded, and the number of words the data takes when it is read back. The theorem of this theory
  is that the code writes these bytes.
\<close>

section \<open>The bytes of the format\<close>

definition int_code :: "u32 \<Rightarrow> u8 list" where
  "int_code n =
    (if 0 \<le> sint n \<and> sint n < 0x40 then [PREFIX_SMALL_INT + ucast n]
     else if - 128 \<le> sint n \<and> sint n < 128 then [CODE_INT8, ucast n]
     else if - 32768 \<le> sint n \<and> sint n < 32768 then CODE_INT16 # be16 n
     else CODE_INT32 # be32 n)"

definition shared_code :: "u32 \<Rightarrow> u8 list" where
  "shared_code d =
    (if d < 0x100 then [CODE_SHARED8, ucast d]
     else if d < 0x10000 then CODE_SHARED16 # be16 d else CODE_SHARED32 # be32 d)"

definition str_code :: "u8 list \<Rightarrow> u8 list" where
  "str_code bs =
    (let len = word_of_nat (length bs) :: u32 in
     (if len < 0x20 then [PREFIX_SMALL_STRING + ucast len]
      else if len < 0x100 then [CODE_STRING8, ucast len] else CODE_STRING32 # be32 len) @ bs)"

definition word_bytes :: "u32 \<Rightarrow> u8 list" where
  "word_bytes w = [ucast w, ucast (drop_bit 8 w), ucast (drop_bit 16 w), ucast (drop_bit 24 w)]"

definition dbl_code :: "u64 \<Rightarrow> u8 list" where
  "dbl_code d = CODE_DOUBLE_LITTLE # word_bytes (ucast d) @ word_bytes (ucast (drop_bit 32 d))"

definition atom_code :: "u32 \<Rightarrow> u8 list" where
  "atom_code hdr = (if Tag_hd hdr < 16 then [PREFIX_SMALL_BLOCK + ucast (Tag_hd hdr)] else CODE_BLOCK32 # be32 hdr)"

definition block_code :: "u32 \<Rightarrow> u8 list" where
  "block_code hdr =
    (if Tag_hd hdr < 16 \<and> Wosize_hd hdr < 8
     then [PREFIX_SMALL_BLOCK + ucast (Tag_hd hdr) + push_bit 4 (ucast (Wosize_hd hdr))]
     else CODE_BLOCK32 # be32 (hdr AND NOT Black))"

text \<open>Lookup of an object, and the note of a new one.\<close>

definition shared_at :: "bool \<Rightarrow> val \<Rightarrow> val list \<Rightarrow> u32 option" where
  "shared_at ign v objs =
    (if \<not> ign \<and> v \<in> set objs then Some (word_of_nat (length objs - obj_index v objs)) else None)"

definition note_obj :: "bool \<Rightarrow> val \<Rightarrow> val list \<Rightarrow> val list" where
  "note_obj ign v objs = (if ign then objs else objs @ [v])"

definition hd_of :: "'a mlheap_scheme \<Rightarrow> val \<Rightarrow> u32" where "hd_of h v = the (Hd_val h v)"

fun ser :: "'a mlheap_scheme \<Rightarrow> bool \<Rightarrow> val \<Rightarrow> mltree \<Rightarrow> val list \<Rightarrow> u8 list \<times> val list \<times> nat"
and ser_fields :: "'a mlheap_scheme \<Rightarrow> bool \<Rightarrow> u32 \<Rightarrow> mltree list \<Rightarrow> val list \<Rightarrow> u8 list \<times> val list \<times> nat" where
  "ser h ign v (TInt n) objs = (int_code (Long_val v), objs, 0)"
| "ser h ign v (TStr bs) objs =
    (case shared_at ign v objs of
       Some d \<Rightarrow> (shared_code d, objs, 0)
     | None \<Rightarrow> (str_code bs, note_obj ign v objs, 2 + length bs div 4))"
| "ser h ign v (TDbl d) objs =
    (case shared_at ign v objs of
       Some d \<Rightarrow> (shared_code d, objs, 0)
     | None \<Rightarrow> (dbl_code d, note_obj ign v objs, 3))"
| "ser h ign v (TBlock tag ts) objs =
    (if ts = [] then (atom_code (hd_of h v), objs, 0)
     else case shared_at ign v objs of
       Some d \<Rightarrow> (shared_code d, objs, 0)
     | None \<Rightarrow>
         (case ser_fields h ign v ts (note_obj ign v objs) of
            (bs, objs', w) \<Rightarrow> (block_code (hd_of h v) @ bs, objs', Suc (length ts) + w)))"
| "ser_fields h ign a [] objs = ([], objs, 0)"
| "ser_fields h ign a (t # ts) objs =
    (case ser h ign (the (load h a)) t objs of
       (bs, objs1, w) \<Rightarrow>
         (case ser_fields h ign (a + 4) ts objs1 of (bs', objs2, w') \<Rightarrow> (bs @ bs', objs2, w + w')))"

text \<open>Objects are only added.\<close>

lemma ser_objs:
  "ser h ign v t objs = (bs, objs', w) \<Longrightarrow> \<exists>new. objs' = objs @ new"
  "ser_fields h ign a ts objs = (bs, objs', w) \<Longrightarrow> \<exists>new. objs' = objs @ new"
  by (induction h ign v t objs and h ign a ts objs arbitrary: bs objs' w and bs objs' w rule: ser_ser_fields.induct)
    (fastforce simp: note_obj_def split: option.splits if_splits prod.splits)+

section \<open>The output block\<close>

definition out :: "extern_state \<Rightarrow> u8 list" where "out s = take (extern_ptr s) (extern_block s)"

definition wf_out :: "extern_state \<Rightarrow> bool" where
  "wf_out s \<longleftrightarrow> extern_ptr s \<le> length (extern_block s) \<and> 0 < length (extern_block s) \<and> extern_block_malloced s"

lemma grow_size: "0 < sz \<Longrightarrow> sz \<le> grow_size sz n \<and> n < grow_size sz n"
proof (induction sz n rule: grow_size.induct)
  case (1 sz n)
  show ?case
  proof (cases "n < sz")
    case True
    then show ?thesis by (subst (1 2) grow_size.simps) simp
  next
    case False
    then have "sz * 2 \<le> grow_size (sz * 2) n \<and> n < grow_size (sz * 2) n" using 1 by simp
    moreover have "grow_size sz n = grow_size (sz * 2) n" using False 1(2) by (subst grow_size.simps) simp
    ultimately show ?thesis by simp
  qed
qed

text \<open>\<open>grew s bs s'\<close>: the bytes \<open>bs\<close> were added to the output, and nothing else changed.\<close>

definition grew :: "extern_state \<Rightarrow> u8 list \<Rightarrow> extern_state \<Rightarrow> bool" where
  "grew s bs s' \<longleftrightarrow> (\<exists>blk. s' = s\<lparr>extern_block := blk, extern_ptr := extern_ptr s + length bs\<rparr>)
     \<and> out s' = out s @ bs \<and> wf_out s'"

lemma put_ok: "wf_out s \<Longrightarrow> \<exists>s'. put bs s = Some (Inr s') \<and> grew s bs s'"
proof -
  assume w: "wf_out s"
  define blk where "blk = (if length (extern_block s) < extern_ptr s + length bs
     then extern_block s @ replicate (grow_size (length (extern_block s)) (extern_ptr s + length bs) - length (extern_block s)) 0
     else extern_block s)"
  have l: "extern_ptr s + length bs \<le> length blk" "0 < length blk"
    using w grow_size[of "length (extern_block s)" "extern_ptr s + length bs"] by (auto simp: wf_out_def blk_def)
  define s' where "s' = s\<lparr>extern_block := take (extern_ptr s) blk @ bs @ drop (extern_ptr s + length bs) blk,
      extern_ptr := extern_ptr s + length bs\<rparr>"
  have "put bs s = Some (Inr s')"
    using w by (auto simp: put_def resize_extern_block_def ok_def wf_out_def Let_def s'_def blk_def)
  moreover have "take (extern_ptr s) blk = out s" using w by (auto simp: blk_def out_def wf_out_def)
  then have "out s' = out s @ bs" using l w by (simp add: s'_def out_def wf_out_def min_absorb2)
  moreover have "wf_out s'" using w l by (auto simp: s'_def wf_out_def)
  ultimately show ?thesis by (auto simp: grew_def s'_def)
qed

lemma grew_trans: "grew s bs s1 \<Longrightarrow> grew s1 bs' s2 \<Longrightarrow> grew s (bs @ bs') s2"
  by (auto simp: grew_def add.assoc)

lemma grew_sel:
  assumes "grew s bs s'"
  shows "out s' = out s @ bs" "wf_out s'" "initial_ofs s' = initial_ofs s" "extern_table s' = extern_table s"
    "obj_counter s' = obj_counter s" "size_32 s' = size_32 s" "size_64 s' = size_64 s"
    "extern_ignore_sharing s' = extern_ignore_sharing s" "extern_closures s' = extern_closures s"
    "extern_ptr s' = extern_ptr s + length bs"
  using assms by (auto simp: grew_def)

section \<open>The writer writes the serialisation\<close>

text \<open>
  \<open>wrote s bs objs w s'\<close>: between the two states the bytes were added, the objects recorded are now
  \<open>objs\<close>, and \<open>w\<close> words were counted.
\<close>

definition wrote :: "extern_state \<Rightarrow> u8 list \<Rightarrow> val list \<Rightarrow> nat \<Rightarrow> extern_state \<Rightarrow> bool" where
  "wrote s bs objs w s' \<longleftrightarrow> out s' = out s @ bs \<and> wf_out s' \<and> tracks s' objs
     \<and> size_32 s' = size_32 s + word_of_nat w \<and> initial_ofs s' = initial_ofs s
     \<and> extern_ignore_sharing s' = extern_ignore_sharing s"

lemma tracks_cong:
  "initial_ofs s' = initial_ofs s \<Longrightarrow> extern_table s' = extern_table s \<Longrightarrow> obj_counter s' = obj_counter s \<Longrightarrow>
    tracks s' objs \<longleftrightarrow> tracks s objs"
  by (simp add: tracks_def)

lemma grew_wrote: "grew s bs s' \<Longrightarrow> tracks s objs \<Longrightarrow> wrote s bs objs 0 s'"
  using tracks_cong[of s' s objs] by (simp add: wrote_def grew_sel)

lemma wrote_trans: "wrote s bs objs w s1 \<Longrightarrow> wrote s1 bs' objs' w' s2 \<Longrightarrow> wrote s (bs @ bs') objs' (w + w') s2"
  by (simp add: wrote_def)

lemma wrote_sizes: "wrote s bs objs w s' \<Longrightarrow> wrote s bs objs (w + n) (add_sizes (word_of_nat n) b s')"
  using tracks_cong[of "add_sizes (word_of_nat n) b s'" s' objs] by (simp add: wrote_def add_sizes_def out_def wf_out_def)

lemma extern_int_ok: "wf_out s \<Longrightarrow> \<exists>s'. extern_int v s = Some (Inr s') \<and> grew s (int_code (Long_val v)) s'"
  unfolding extern_int_def int_code_def Write_def writecode8_def writecode16_def writecode32_def Let_def
  by (simp add: put_ok)

lemma extern_shared_ok: "wf_out s \<Longrightarrow> \<exists>s'. extern_shared d s = Some (Inr s') \<and> grew s (shared_code d) s'"
  unfolding extern_shared_def shared_code_def writecode8_def writecode16_def writecode32_def by (simp add: put_ok)

text \<open>Two stores one after the other.\<close>

lemma puts_ok:
  assumes "wf_out s"
  shows "\<exists>s'. andthen (put bs s) (put bs') = Some (Inr s') \<and> grew s (bs @ bs') s'"
proof -
  obtain s1 where s1: "put bs s = Some (Inr s1)" "grew s bs s1" using put_ok[OF assms] by blast
  obtain s2 where "put bs' s1 = Some (Inr s2)" "grew s1 bs' s2" using put_ok grew_sel(2)[OF s1(2)] by blast
  then show ?thesis using s1 grew_trans by auto
qed

lemma extern_string_ok:
  assumes r: "repr at h v (TStr bs)" and s: "wf_out s" "tracks s objs"
  shows "\<exists>s'. extern_string h v s = Some (Inr s') \<and> wrote s (str_code bs) objs (2 + length bs div 4) s'"
proof -
  let ?len = "word_of_nat (length bs) :: u32"
  have l: "string_length h v = Some ?len" "bytes_of h v 0 (length bs) = Some bs" "length bs < 16777212"
    using r by simp_all
  have u: "unat ?len = length bs" using l(3) by (simp add: unat_word32)
  define c where "c = (if ?len < 0x20 then [PREFIX_SMALL_STRING + ucast ?len]
      else if ?len < 0x100 then [CODE_STRING8, ucast ?len] else CODE_STRING32 # be32 ?len)"
  have c: "(if ?len < 0x20 then Write (PREFIX_SMALL_STRING + ucast ?len) s
       else if ?len < 0x100 then writecode8 CODE_STRING8 ?len s else writecode32 CODE_STRING32 ?len s) = put c s"
    by (simp add: c_def Write_def writecode8_def writecode32_def)
  obtain s1 where s1: "andthen (put c s) (put bs) = Some (Inr s1)" "grew s (c @ bs) s1"
    using puts_ok[OF s(1)] by blast
  have "unat ((?len + 4) div 4) = 1 + length bs div 4"
    using l(3) u unat_add32[of ?len 4] by (simp add: unat_div)
  then have n: "1 + (?len + 4) div 4 = word_of_nat (2 + length bs div 4)"
  proof -
    have "unat (word_of_nat (2 + length bs div 4) :: u32) = 2 + length bs div 4"
      using l(3) by (intro unat_word32) linarith
    then show ?thesis using l(3) unat_add32[of 1 "(?len + 4) div 4"] \<open>unat ((?len + 4) div 4) = _\<close>
      by (simp only: word_unat_eq_iff) simp
  qed
  have "extern_string h v s = Some (Inr (add_sizes (1 + (?len + 4) div 4) (1 + (?len + 8) div 8) s1))"
    using s1(1) by (simp add: extern_string_def l(1,2) u c writeblock_def ok_def)
  moreover have "str_code bs = c @ bs" by (simp add: str_code_def c_def Let_def)
  ultimately show ?thesis using wrote_sizes[OF grew_wrote[OF s1(2) s(2)], of "2 + length bs div 4"] by (simp add: n)
qed

lemma nth_word_bytes: "j < 4 \<Longrightarrow> word_bytes w ! j = byte_at j w"
  by (auto simp: word_bytes_def byte_at_def less_Suc_eq numeral_eq_Suc)

lemma length_word_bytes [simp]: "length (word_bytes w) = 4" by (simp add: word_bytes_def)

lemma double_bytes:
  assumes "aligned v" "load h v = Some lo" "load h (v + 4) = Some hi"
  shows "bytes_of h v 0 8 = Some (word_bytes lo @ word_bytes hi)"
proof -
  have "Byte_u h v (word_of_nat j) = Some ((word_bytes lo @ word_bytes hi) ! j)" if j: "j < 8" for j
  proof (cases "j < 4")
    case True
    then show ?thesis using assms by (simp add: Byte_u_nat nth_append nth_word_bytes)
  next
    case False
    then have d: "j div 4 = 1" "j mod 4 = j - 4" using j by (auto simp: le_div_geq le_mod_geq)
    then show ?thesis using assms False j nth_word_bytes[of "j - 4" hi]
      by (simp add: Byte_u_nat nth_append)
  qed
  then show ?thesis using bytes_of_iff[of h v 0 8] by simp
qed

lemma ucast_wcat: "ucast (wcat hi lo) = lo" "ucast (drop_bit 32 (wcat hi lo)) = hi"
  by (auto simp: bit_word_cat_iff bit_simps intro!: bit_word_eqI dest: bit32_less)

lemma extern_double_ok:
  assumes r: "repr at h v (TDbl d)" and v: "aligned v" and s: "wf_out s" "tracks s objs"
  shows "\<exists>s'. extern_double h v s = Some (Inr s') \<and> wrote s (dbl_code d) objs 3 s'"
proof -
  obtain lo hi where d: "load h v = Some lo" "load h (v + 4) = Some hi" "d = wcat hi lo"
    using r by (auto simp: Double_val_def split: bind_splits)
  let ?bs = "word_bytes lo @ word_bytes hi"
  obtain s1 where s1: "andthen (put [CODE_DOUBLE_LITTLE] s) (put ?bs) = Some (Inr s1)"
      "grew s ([CODE_DOUBLE_LITTLE] @ ?bs) s1"
    using puts_ok[OF s(1)] by blast
  have "extern_double h v s = Some (Inr (add_sizes 3 2 s1))"
    using s1(1) double_bytes[OF v d(1,2)] by (simp add: extern_double_def Write_def writeblock_def ok_def)
  moreover have "dbl_code d = [CODE_DOUBLE_LITTLE] @ ?bs" by (simp add: dbl_code_def d(3) ucast_wcat)
  ultimately show ?thesis using wrote_sizes[OF grew_wrote[OF s1(2) s(2)], of 3] by simp
qed

lemma extern_header_ok:
  assumes s: "wf_out s" "tracks s objs"
  shows "\<exists>s'. extern_header hdr s = Some (Inr s') \<and> wrote s (block_code hdr) objs (Suc (unat (Wosize_hd hdr))) s'"
proof -
  have e: "(if Tag_hd hdr < 16 \<and> Wosize_hd hdr < 8
      then Write (PREFIX_SMALL_BLOCK + ucast (Tag_hd hdr) + push_bit 4 (ucast (Wosize_hd hdr))) s
      else writecode32 CODE_BLOCK32 (hdr AND NOT Black) s) = put (block_code hdr) s"
    by (simp add: Write_def writecode32_def block_code_def)
  obtain s1 where s1: "put (block_code hdr) s = Some (Inr s1)" "grew s (block_code hdr) s1" using put_ok[OF s(1)] by blast
  have "extern_header hdr s = Some (Inr (add_sizes (1 + Wosize_hd hdr) (1 + Wosize_hd hdr) s1))"
    unfolding extern_header_def Let_def e s1(1) by (simp add: ok_def)
  moreover have "wrote s (block_code hdr) objs (0 + Suc (unat (Wosize_hd hdr))) (add_sizes (1 + Wosize_hd hdr) (1 + Wosize_hd hdr) s1)"
    using wrote_sizes[OF grew_wrote[OF s1(2) s(2)], of "Suc (unat (Wosize_hd hdr))" "1 + Wosize_hd hdr"]
    by (simp only: of_nat_Suc of_nat_unat ucast_id)
  ultimately show ?thesis by (metis add_0)
qed

text \<open>The lookup of an object under either setting of the sharing flag.\<close>

definition fits :: "u32 \<Rightarrow> val list \<Rightarrow> bool" where
  "fits i0 objs \<longleftrightarrow> length objs < 2147483648 \<and> unat i0 + length objs < 4294967296"

lemma lookup_ok:
  assumes s: "wf_out s" "tracks s objs" "extern_ignore_sharing s = ign"
    and f: "shared_at ign v objs = None \<Longrightarrow> fits (initial_ofs s) (note_obj ign v objs)"
  shows "\<exists>s1. (if extern_ignore_sharing s then Some (None, s) else extern_seen v s) = Some (shared_at ign v objs, s1)
    \<and> wrote s [] (if shared_at ign v objs = None then note_obj ign v objs else objs) 0 s1"
proof (cases ign)
  case True
  then show ?thesis using s by (simp add: shared_at_def note_obj_def wrote_def)
next
  case False
  have b: "v \<notin> set objs \<Longrightarrow> length objs + 1 < 2147483648 \<and> unat (initial_ofs s) + length objs + 1 < 4294967296"
    using f False by (simp add: shared_at_def note_obj_def fits_def)
  have sh: "shared_at ign v objs = (if v \<in> set objs then Some (word_of_nat (length objs - obj_index v objs)) else None)"
      "note_obj ign v objs = objs @ [v]"
    using False by (simp_all add: shared_at_def note_obj_def)
  obtain tbl n where "extern_seen v s = Some (shared_at ign v objs, s\<lparr>extern_table := tbl, obj_counter := n\<rparr>)"
      "tracks (s\<lparr>extern_table := tbl, obj_counter := n\<rparr>) (if v \<in> set objs then objs else note_obj ign v objs)"
    unfolding sh using extern_seen_ok[OF s(2), of v] b by blast
  moreover have "shared_at ign v objs = None \<longleftrightarrow> v \<notin> set objs" using False by (simp add: shared_at_def)
  ultimately show ?thesis using s False by (auto simp: wrote_def wf_out_def out_def)
qed

section \<open>The whole structure\<close>

definition aligned_heap :: "'a mlheap_scheme \<Rightarrow> bool" where
  "aligned_heap h \<longleftrightarrow> (\<forall>a. load h a \<noteq> None \<longrightarrow> aligned a)"

lemma fits_less: "fits i0 (objs @ new) \<Longrightarrow> fits i0 objs"
  by (simp add: fits_def)

lemma fits_ser:
  "ser h ign v t objs = (bs, objs', w) \<Longrightarrow> fits i0 objs' \<Longrightarrow> fits i0 objs"
  "ser_fields h ign a ts objs = (bs, objs', w) \<Longrightarrow> fits i0 objs' \<Longrightarrow> fits i0 objs"
  using ser_objs fits_less by blast+

text \<open>One step of the writer on a block that is not an atom.\<close>

lemma extern_rec_block:
  assumes "Is_block v" "in_memory at h v" "Hd_val h v = Some hdr" "Wosize_hd hdr \<noteq> 0"
    and "(if extern_ignore_sharing s then Some (None, s) else extern_seen v s) = Some (seen, s1)"
  shows "extern_rec (Suc n) ca at h v s =
    (case seen of
       Some d \<Rightarrow> extern_shared d s1
     | None \<Rightarrow>
         if Tag_hd hdr = String_tag then extern_string h v s1
         else if Tag_hd hdr = Double_tag then extern_double h v s1
         else if Tag_hd hdr = Double_array_tag then extern_double_array h v (Wosize_hd hdr) s1
         else if Tag_hd hdr = Abstract_tag \<or> Tag_hd hdr = Final_tag then
           extern_invalid_argument ''output_value: abstract value'' s1
         else if Tag_hd hdr = Infix_tag then
           andthen (writecode32 CODE_INFIXPOINTER (Infix_offset_hd hdr) s1)
             (extern_rec n ca at h (v - Infix_offset_hd hdr))
         else if Tag_hd hdr = Object_tag then extern_invalid_argument ''output_value: object value'' s1
         else andthen (extern_header hdr s1) (extern_fields n ca at h v (unat (Wosize_hd hdr))))"
  using assms(1-4) by (simp only: extern_rec.simps block_not_long(1) if_False if_True Let_def option.simps
      Option.bind.simps assms(5) prod.case)

text \<open>Writing a block: a reference when it was seen, its contents otherwise.\<close>

lemma write_block:
  assumes s: "wf_out s" "tracks s objs" "extern_ignore_sharing s = ign"
    and f: "shared_at ign v objs = None \<Longrightarrow> fits (initial_ofs s) (note_obj ign v objs)"
    and step: "\<And>seen s1. (if extern_ignore_sharing s then Some (None, s) else extern_seen v s) = Some (seen, s1) \<Longrightarrow>
      extern_rec n ca at h v s = (case seen of Some d \<Rightarrow> extern_shared d s1 | None \<Rightarrow> body s1)"
    and new: "\<And>s1. wrote s [] (note_obj ign v objs) 0 s1 \<Longrightarrow> shared_at ign v objs = None \<Longrightarrow>
      \<exists>s'. body s1 = Some (Inr s') \<and> wrote s1 bs objs' w s'"
  shows "\<exists>s'. extern_rec n ca at h v s = Some (Inr s') \<and>
    (case shared_at ign v objs of Some d \<Rightarrow> wrote s (shared_code d) objs 0 s' | None \<Rightarrow> wrote s bs objs' w s')"
proof -
  from lookup_ok[OF s, of v] f obtain s1 where
    s1: "(if extern_ignore_sharing s then Some (None, s) else extern_seen v s) = Some (shared_at ign v objs, s1)"
      "wrote s [] (if shared_at ign v objs = None then note_obj ign v objs else objs) 0 s1"
    by blast
  note e = step[OF s1(1)]
  show ?thesis
  proof (cases "shared_at ign v objs")
    case None
    then have w: "wrote s [] (note_obj ign v objs) 0 s1" using s1(2) by simp
    obtain s' where "body s1 = Some (Inr s')" "wrote s1 bs objs' w s'" using new[OF w None] by blast
    then show ?thesis using wrote_trans[OF w] e None by auto
  next
    case (Some d)
    then have w: "wrote s [] objs 0 s1" using s1(2) by simp
    obtain s' where "extern_shared d s1 = Some (Inr s')" "grew s1 (shared_code d) s'"
      using extern_shared_ok w by (auto simp: wrote_def)
    moreover have "tracks s1 objs" using w by (simp add: wrote_def)
    ultimately show ?thesis using wrote_trans[OF w grew_wrote] e Some by auto
  qed
qed

lemma block_withD:
  assumes "block_with at h v tag sz"
  obtains hdr where "Is_block v" "in_memory at h v" "Hd_val h v = Some hdr" "Tag_hd hdr = tag"
    "unat (Wosize_hd hdr) = sz"
  using assms by (auto simp: block_with_def Tag_val_def Wosize_val_def)

theorem extern_rec_ok:
  assumes al: "aligned_heap h"
  shows "repr at h v t \<Longrightarrow> wf_out s \<Longrightarrow> tracks s objs \<Longrightarrow> extern_ignore_sharing s = ign \<Longrightarrow>
      ser h ign v t objs = (bs, objs', w) \<Longrightarrow> fits (initial_ofs s) objs' \<Longrightarrow> tdepth t < n \<Longrightarrow>
      \<exists>s'. extern_rec n ca at h v s = Some (Inr s') \<and> wrote s bs objs' w s'"
    "repr_fields at h a ts \<Longrightarrow> wf_out s \<Longrightarrow> tracks s objs \<Longrightarrow> extern_ignore_sharing s = ign \<Longrightarrow>
      ser_fields h ign a ts objs = (bs, objs', w) \<Longrightarrow> fits (initial_ofs s) objs' \<Longrightarrow> tdepths ts < n \<Longrightarrow>
      \<exists>s'. extern_fields n ca at h a (length ts) s = Some (Inr s') \<and> wrote s bs objs' w s'"
  using al
proof (induction h ign v t objs and h ign a ts objs arbitrary: n s bs objs' w and n s bs objs' w rule: ser_ser_fields.induct)
  case (1 h ign v i objs)
  then obtain m where "n = Suc m" by (cases n) auto
  moreover have "Is_long v" using 1(1) by simp
  ultimately have "extern_rec n ca at h v s = extern_int v s" by simp
  moreover have "bs = int_code (Long_val v)" "objs' = objs" "w = 0" using 1(5) by auto
  ultimately show ?case using extern_int_ok[OF 1(2), of v] grew_wrote[OF _ 1(3)] by auto
next
  case (2 h ign v str objs)
  then obtain m where n: "n = Suc m" by (cases n) auto
  obtain hdr where hdr: "Is_block v" "in_memory at h v" "Hd_val h v = Some hdr" "Tag_hd hdr = String_tag"
      "unat (Wosize_hd hdr) = length str div 4 + 1"
    using 2(1) block_withD by (metis repr.simps(2))
  have nz: "Wosize_hd hdr \<noteq> 0" using hdr(5) by auto
  have f: "shared_at ign v objs = None \<Longrightarrow> fits (initial_ofs s) (note_obj ign v objs)" using 2(5,6) by simp
  have "\<exists>s'. extern_rec n ca at h v s = Some (Inr s') \<and>
    (case shared_at ign v objs of Some d \<Rightarrow> wrote s (shared_code d) objs 0 s'
     | None \<Rightarrow> wrote s (str_code str) (note_obj ign v objs) (2 + length str div 4) s')"
  proof (rule write_block[OF 2(2-4) f, where body = "extern_string h v"])
    fix seen s1
    assume "(if extern_ignore_sharing s then Some (None, s) else extern_seen v s) = Some (seen, s1)"
    from extern_rec_block[OF hdr(1-3) nz this]
    show "extern_rec n ca at h v s = (case seen of Some d \<Rightarrow> extern_shared d s1 | None \<Rightarrow> extern_string h v s1)"
      unfolding n hdr(4) by (simp only: simp_thms if_True)
  next
    fix s1 assume "wrote s [] (note_obj ign v objs) 0 s1"
    then show "\<exists>s'. extern_string h v s1 = Some (Inr s') \<and> wrote s1 (str_code str) (note_obj ign v objs) (2 + length str div 4) s'"
      by (intro extern_string_ok[OF 2(1)]) (simp_all add: wrote_def)
  qed
  then show ?case using 2(5) by (auto split: option.splits)
next
  case (3 h ign v d objs)
  then obtain m where n: "n = Suc m" by (cases n) auto
  obtain hdr where hdr: "Is_block v" "in_memory at h v" "Hd_val h v = Some hdr" "Tag_hd hdr = Double_tag"
      "unat (Wosize_hd hdr) = 2"
    using 3(1) block_withD by (metis repr.simps(3))
  have nz: "Wosize_hd hdr \<noteq> 0" using hdr(5) by auto
  have v: "aligned v" using 3(1,8) by (auto simp: aligned_heap_def Double_val_def split: bind_splits)
  have f: "shared_at ign v objs = None \<Longrightarrow> fits (initial_ofs s) (note_obj ign v objs)" using 3(5,6) by simp
  have "\<exists>s'. extern_rec n ca at h v s = Some (Inr s') \<and>
    (case shared_at ign v objs of Some d \<Rightarrow> wrote s (shared_code d) objs 0 s'
     | None \<Rightarrow> wrote s (dbl_code d) (note_obj ign v objs) 3 s')"
  proof (rule write_block[OF 3(2-4) f, where body = "extern_double h v"])
    fix seen s1
    assume "(if extern_ignore_sharing s then Some (None, s) else extern_seen v s) = Some (seen, s1)"
    from extern_rec_block[OF hdr(1-3) nz this]
    show "extern_rec n ca at h v s = (case seen of Some d \<Rightarrow> extern_shared d s1 | None \<Rightarrow> extern_double h v s1)"
      unfolding n hdr(4) by (simp only: simp_thms if_True if_False tags_distinct)
  next
    fix s1 assume "wrote s [] (note_obj ign v objs) 0 s1"
    then show "\<exists>s'. extern_double h v s1 = Some (Inr s') \<and> wrote s1 (dbl_code d) (note_obj ign v objs) 3 s'"
      by (intro extern_double_ok[OF 3(1) v]) (simp_all add: wrote_def)
  qed
  then show ?case using 3(5) by (auto split: option.splits)
next
  case (4 h ign v tag ts objs)
  then obtain m where n: "n = Suc m" by (cases n) auto
  obtain hdr where hdr: "Is_block v" "in_memory at h v" "Hd_val h v = Some hdr" "Tag_hd hdr = tag"
      "unat (Wosize_hd hdr) = length ts"
    using 4(2) block_withD by (metis repr.simps(4))
  have tag: "tag < Object_tag" and fr: "repr_fields at h v ts" using 4(2) by auto
  have ho: "hd_of h v = hdr" using hdr(3) by (simp add: hd_of_def)
  show ?case
  proof (cases "ts = []")
    case True
    then have z: "Wosize_hd hdr = 0" using hdr(5) by (simp add: word_unat_eq_iff)
    have "extern_rec n ca at h v s = put (atom_code hdr) s"
      using hdr z block_not_long(1)[OF hdr(1)] by (simp add: n Write_def writecode32_def atom_code_def)
    moreover obtain s1 where "put (atom_code hdr) s = Some (Inr s1)" "grew s (atom_code hdr) s1" using put_ok[OF 4(3)] by blast
    ultimately show ?thesis using 4(6) True grew_wrote[OF _ 4(4)] by (auto simp: ho)
  next
    case False
    have nz: "Wosize_hd hdr \<noteq> 0" using hdr(5) False by auto
    obtain bs1 objs1 w1 where sf: "ser_fields h ign v ts (note_obj ign v objs) = (bs1, objs1, w1)"
      using prod_cases3 by blast
    have so: "(case shared_at ign v objs of Some d \<Rightarrow> (shared_code d, objs, 0)
       | None \<Rightarrow> (block_code hdr @ bs1, objs1, Suc (length ts) + w1)) = (bs, objs', w)"
      using 4(6) False sf ho by (simp split: option.splits)
    have f: "fits (initial_ofs s) objs1" "fits (initial_ofs s) (note_obj ign v objs)"
      if "shared_at ign v objs = None"
      using so that 4(7) fits_ser(2)[OF sf, of "initial_ofs s"] by auto
    have "\<exists>s'. extern_rec n ca at h v s = Some (Inr s') \<and>
      (case shared_at ign v objs of Some d \<Rightarrow> wrote s (shared_code d) objs 0 s'
       | None \<Rightarrow> wrote s (block_code hdr @ bs1) objs1 (Suc (length ts) + w1) s')"
    proof (rule write_block[OF 4(3-5) f(2), where body = "\<lambda>s1. andthen (extern_header hdr s1) (extern_fields m ca at h v (unat (Wosize_hd hdr)))"])
      fix seen s1
      assume "(if extern_ignore_sharing s then Some (None, s) else extern_seen v s) = Some (seen, s1)"
      from extern_rec_block[OF hdr(1-3) nz this]
      show "extern_rec n ca at h v s = (case seen of Some d \<Rightarrow> extern_shared d s1
          | None \<Rightarrow> andthen (extern_header hdr s1) (extern_fields m ca at h v (unat (Wosize_hd hdr))))"
        unfolding n hdr(4) using tag_other[OF tag] by simp
    next
      fix s1 assume w: "wrote s [] (note_obj ign v objs) 0 s1" and nw: "shared_at ign v objs = None"
      obtain s2 where s2: "extern_header hdr s1 = Some (Inr s2)" "wrote s1 (block_code hdr) (note_obj ign v objs) (Suc (length ts)) s2"
        using extern_header_ok[of s1 "note_obj ign v objs" hdr] w hdr(5) by (auto simp: wrote_def)
      have i: "initial_ofs s2 = initial_ofs s" "extern_ignore_sharing s2 = ign" "wf_out s2" "tracks s2 (note_obj ign v objs)"
        using w s2(2) 4(5) by (simp_all add: wrote_def)
      have "\<exists>s'. extern_fields m ca at h v (length ts) s2 = Some (Inr s') \<and> wrote s2 bs1 objs1 w1 s'"
        using 4(1)[OF False nw fr i(3,4,2) sf] f(1)[OF nw] 4(8,9) by (simp add: i(1) n)
      then show "\<exists>s'. andthen (extern_header hdr s1) (extern_fields m ca at h v (unat (Wosize_hd hdr))) = Some (Inr s')
          \<and> wrote s1 (block_code hdr @ bs1) objs1 (Suc (length ts) + w1) s'"
        using wrote_trans[OF s2(2)] by (auto simp: s2(1) hdr(5))
    qed
    then show ?thesis using so by (auto split: option.splits)
  qed
next
  case (5 h ign a objs)
  then show ?case by (auto simp: ok_def wrote_def)
next
  case (6 h ign a t ts objs)
  then obtain v where v: "load h a = Some v" "repr at h v t" "repr_fields at h (a + 4) ts" by (auto split: option.splits)
  obtain b1 o1 w1 where 1: "ser h ign (the (load h a)) t objs = (b1, o1, w1)" using prod_cases3 by blast
  obtain b2 o2 w2 where 2: "ser_fields h ign (a + 4) ts o1 = (b2, o2, w2)" using prod_cases3 by blast
  have e: "bs = b1 @ b2" "objs' = o2" "w = w1 + w2" using 6(7) by (simp_all add: 1 2)
  have f: "fits (initial_ofs s) o1" using fits_ser(2)[OF 2] 6(8) by (simp add: e)
  have "\<exists>s1. extern_rec n ca at h (the (load h a)) s = Some (Inr s1) \<and> wrote s b1 o1 w1 s1"
    using 6(9) v(1,2) by (intro 6(1)[OF _ 6(4,5,6) 1 f _ 6(10)]) auto
  then obtain s1 where s1: "extern_rec n ca at h v s = Some (Inr s1)" "wrote s b1 o1 w1 s1" using v(1) by auto
  have i: "wf_out s1" "tracks s1 o1" "extern_ignore_sharing s1 = ign" "fits (initial_ofs s1) o2"
    using s1(2) 6(6,8) by (simp_all add: wrote_def e)
  have "\<exists>s2. extern_fields n ca at h (a + 4) (length ts) s1 = Some (Inr s2) \<and> wrote s1 b2 o2 w2 s2"
    using 6(2)[OF 1[symmetric] refl v(3) i(1,2,3) 2 i(4) _ 6(10)] 6(9) by simp
  then show ?case using v(1) s1 wrote_trans[OF s1(2)] by (auto simp: e)
qed

end
