(* ===== verification/Intern_Codes.thy ===== *)
theory Intern_Codes
  imports Serial
begin

text \<open>
  Reading the codes of the format back: what the reader finds at the bytes the writer puts for an
  integer, a reference, the start of a string, a number or a block.
\<close>

section \<open>Bytes of the input\<close>

definition ahead :: "intern_state \<Rightarrow> u8 list \<Rightarrow> bool" where
  "ahead s bs \<longleftrightarrow> intern_src s \<le> length (intern_input s) \<and> (\<exists>rest. drop (intern_src s) (intern_input s) = bs @ rest)"

definition skip :: "nat \<Rightarrow> intern_state \<Rightarrow> intern_state" where
  "skip n s = s\<lparr>intern_src := intern_src s + n\<rparr>"

lemma skip_sel [simp]:
  "i_heap (skip n s) = i_heap s" "intern_input (skip n s) = intern_input s" "intern_src (skip n s) = intern_src s + n"
  "intern_dest (skip n s) = intern_dest s" "i_obj_counter (skip n s) = i_obj_counter s"
  "intern_obj_table (skip n s) = intern_obj_table s" "intern_color (skip n s) = intern_color s"
  "intern_header (skip n s) = intern_header s" "intern_block (skip n s) = intern_block s"
  by (simp_all add: skip_def)

lemma skip_skip [simp]: "skip m (skip n s) = skip (n + m) s"
  by (simp add: skip_def add.assoc)

lemma skip_0 [simp]: "skip 0 s = s" by (simp add: skip_def)

lemma ahead_append:
  assumes "ahead s (bs @ bs')"
  shows "ahead s bs" "ahead (skip (length bs) s) bs'"
proof -
  obtain r where r: "drop (intern_src s) (intern_input s) = bs @ bs' @ r" using assms by (auto simp: ahead_def)
  show "ahead s bs" using assms by (auto simp: ahead_def)
  have "length (intern_input s) - intern_src s = length (bs @ bs' @ r)" using r by (metis length_drop)
  moreover have "intern_src s \<le> length (intern_input s)" using assms by (simp add: ahead_def)
  ultimately have "intern_src s + length bs \<le> length (intern_input s)" unfolding length_append by linarith
  moreover have "drop (intern_src s + length bs) (intern_input s) = bs' @ r"
    using r by (metis append_eq_conv_conj drop_drop add.commute)
  ultimately show "ahead (skip (length bs) s) bs'" by (simp add: ahead_def)
qed

lemma ahead_cong: "intern_src s' = intern_src s \<Longrightarrow> intern_input s' = intern_input s \<Longrightarrow> ahead s' bs = ahead s bs"
  by (simp add: ahead_def)

lemma read_bytes_ahead:
  assumes "ahead s (bs @ bs')" "length bs = n"
  shows "read_bytes n s = Some (bs, skip n s)"
proof -
  obtain r where r: "drop (intern_src s) (intern_input s) = bs @ r" using ahead_append(1)[OF assms(1)] ahead_def by blast
  have "length (intern_input s) - intern_src s = length (bs @ r)" using r by (metis length_drop)
  moreover have "intern_src s \<le> length (intern_input s)" using assms by (simp add: ahead_def)
  ultimately have "intern_src s + n \<le> length (intern_input s)" unfolding length_append assms(2) by linarith
  then show ?thesis using r assms(2) by (simp add: read_bytes_def skip_def)
qed

section \<open>Numbers\<close>

lemma or4:
  "push_bit 24 (ucast a) + push_bit 16 (ucast b) + push_bit 8 (ucast c) + ucast (d::u8)
    = (push_bit 24 (ucast (a::u8)) OR push_bit 16 (ucast (b::u8)) OR push_bit 8 (ucast (c::u8)) OR ucast d :: u32)"
proof -
  have 1: "(push_bit 24 (ucast a) :: u32) AND push_bit 16 (ucast b) = 0"
    "(push_bit 24 (ucast a) OR push_bit 16 (ucast b) :: u32) AND push_bit 8 (ucast c) = 0"
    "((push_bit 24 (ucast a) OR push_bit 16 (ucast b)) OR push_bit 8 (ucast c) :: u32) AND ucast d = 0"
    by (rule bit_word_eqI; auto simp: bit_simps dest!: bit_imp_le_length)+
  show ?thesis by (simp only: or.assoc[symmetric] 1[THEN word_or_eq_add, symmetric])
qed

lemma or2:
  "push_bit 8 (ucast (a::u8)) + ucast (b::u8) = (push_bit 8 (ucast a) OR ucast b :: u32)"
  "push_bit 8 (Sign_extend a) + ucast (b::u8) = (push_bit 8 (Sign_extend a) OR ucast b :: u32)"
proof -
  have "(push_bit 8 (ucast a) :: u32) AND ucast b = 0" "(push_bit 8 (Sign_extend a) :: u32) AND ucast b = 0"
    by (rule bit_word_eqI; auto simp: bit_simps dest!: bit_imp_le_length)+
  then show "push_bit 8 (ucast (a::u8)) + ucast (b::u8) = (push_bit 8 (ucast a) OR ucast b :: u32)"
    "push_bit 8 (Sign_extend a) + ucast (b::u8) = (push_bit 8 (Sign_extend a) OR ucast b :: u32)"
    by (metis word_or_eq_add)+
qed

lemma bit_Sign_extend: "bit (Sign_extend b) n \<longleftrightarrow> n < 32 \<and> bit b (min n 7)"
proof (cases "n < 8")
  case True
  then show ?thesis by (auto simp: Sign_extend_def bit_simps min_def)
next
  case False
  then show ?thesis by (auto simp: Sign_extend_def bit_simps min_def)
qed

lemma length_be [simp]: "length (be32 n) = 4" "length (be16 n) = 2"
  by (simp_all add: be32_def be16_def)

lemma read32u_be32: "ahead s (be32 n @ bs) \<Longrightarrow> read32u s = Some (n, skip 4 s)"
proof -
  assume a: "ahead s (be32 n @ bs)"
  have "push_bit 24 (ucast (be32 n ! 0)) + push_bit 16 (ucast (be32 n ! 1)) + push_bit 8 (ucast (be32 n ! 2))
      + ucast (be32 n ! 3) = n"
    unfolding or4
  proof (rule bit_word_eqI)
    fix k assume "k < LENGTH(32)"
    then consider "k < 8" | "8 \<le> k" "k < 16" | "16 \<le> k" "k < 24" | "24 \<le> k" "k < 32" by fastforce
    then show "bit (push_bit 24 (ucast (be32 n ! 0)) OR push_bit 16 (ucast (be32 n ! 1)) OR push_bit 8 (ucast (be32 n ! 2))
      OR ucast (be32 n ! 3) :: u32) k = bit n k"
      by cases (auto simp: be32_def bit_simps)
  qed
  moreover have "read_bytes 4 s = Some (be32 n, skip 4 s)" by (rule read_bytes_ahead[OF a]) simp
  ultimately show ?thesis by (simp only: read32u_def bind.bind_lunit prod.case)
qed

lemma read32s_read32u: "read32s s = read32u s"
proof -
  have "push_bit 24 (Sign_extend b) = push_bit 24 (ucast b)" for b
    by (rule bit_word_eqI) (auto simp: bit_simps bit_Sign_extend min_def)
  then show ?thesis by (simp add: read32s_def read32u_def)
qed

lemma read16u_be16: "ahead s (be16 n @ bs) \<Longrightarrow> unat n < 65536 \<Longrightarrow> read16u s = Some (n, skip 2 s)"
proof -
  assume a: "ahead s (be16 n @ bs)" and n: "unat n < 65536"
  have h: "\<not> bit n k" if "16 \<le> k" for k
  proof -
    have "n = take_bit 16 n" using n by (simp add: word_unat_eq_iff unat_take_bit32)
    then show ?thesis using that by (metis bit_take_bit_iff not_le)
  qed
  have "push_bit 8 (ucast (be16 n ! 0)) + ucast (be16 n ! 1) = n"
    unfolding or2
  proof (rule bit_word_eqI)
    fix k assume "k < LENGTH(32)"
    then consider "k < 8" | "8 \<le> k" "k < 16" | "16 \<le> k" "k < 32" by fastforce
    then show "bit (push_bit 8 (ucast (be16 n ! 0)) OR ucast (be16 n ! 1) :: u32) k = bit n k"
      by cases (auto simp: be16_def bit_simps h)
  qed
  moreover have "read_bytes 2 s = Some (be16 n, skip 2 s)" by (rule read_bytes_ahead[OF a]) simp
  ultimately show ?thesis by (simp only: read16u_def bind.bind_lunit prod.case)
qed

text \<open>A signed number in a range has copies of its sign in the bits above.\<close>

lemma bit_signed:
  assumes "- (2 ^ m) \<le> sint (n::u32)" "sint n < 2 ^ m" "m \<le> k" "k < 32"
  shows "bit n k = bit n m"
proof -
  have "signed_take_bit m (sint n) = sint n" using assms(1,2) by (simp add: signed_take_bit_int_eq_self)
  moreover have "bit (signed_take_bit m (sint n)) k = bit (signed_take_bit m (sint n)) m"
    using assms(3) by (simp add: bit_signed_take_bit_iff min_def)
  ultimately have "bit (sint n) k = bit (sint n) m" by (simp only:)
  then show ?thesis using assms(3,4) by (simp add: bit_sint_iff)
qed

lemma read16s_be16:
  assumes a: "ahead s (be16 n @ bs)" and n: "- 32768 \<le> sint n" "sint n < 32768"
  shows "read16s s = Some (n, skip 2 s)"
proof -
  have h: "bit n k = bit n 15" if "15 < k" "k < 32" for k using bit_signed[of 15 n k] n that by simp
  have "push_bit 8 (Sign_extend (be16 n ! 0)) + ucast (be16 n ! 1) = n"
    unfolding or2
  proof (rule bit_word_eqI)
    fix k assume "k < LENGTH(32)"
    then consider "k < 8" | "8 \<le> k" "k < 16" | "16 \<le> k" "k < 32" by fastforce
    then show "bit (push_bit 8 (Sign_extend (be16 n ! 0)) OR ucast (be16 n ! 1) :: u32) k = bit n k"
    proof cases
      case 1
      then show ?thesis by (simp add: be16_def bit_simps)
    next
      case 2
      then have "min (k - 8) 7 = k - 8" by simp
      then show ?thesis using 2 by (auto simp: be16_def bit_simps bit_Sign_extend)
    next
      case 3
      then have "min (k - 8) 7 = 7" by simp
      then show ?thesis using 3 h[of k] by (auto simp: be16_def bit_simps bit_Sign_extend)
    qed
  qed
  moreover have "read_bytes 2 s = Some (be16 n, skip 2 s)" by (rule read_bytes_ahead[OF a]) simp
  ultimately show ?thesis by (simp only: read16s_def bind.bind_lunit prod.case)
qed

lemma read8s_ahead:
  assumes a: "ahead s (ucast n # bs)" and n: "- 128 \<le> sint n" "sint n < 128"
  shows "read8s s = Some (n, skip 1 s)"
proof -
  have h: "bit n k = bit n 7" if "7 < k" "k < 32" for k using bit_signed[of 7 n k] n that by simp
  have "Sign_extend (ucast n) = n"
  proof (rule bit_word_eqI)
    fix k assume k: "k < LENGTH(32)"
    show "bit (Sign_extend (ucast n)) k = bit n k"
      using k h by (cases "k < 8") (auto simp: bit_simps bit_Sign_extend min_def)
  qed
  then show ?thesis using read_bytes_ahead[of s "[ucast n]" bs 1] a by (simp add: read8s_def)
qed

lemma read8u_byte: "ahead s (b # bs) \<Longrightarrow> read8u s = Some (ucast b, skip 1 s)"
  using read_bytes_ahead[of s "[b]" bs 1] by (simp add: read8u_def)

lemma read8u_ahead: "ahead s (ucast n # bs) \<Longrightarrow> unat n < 256 \<Longrightarrow> read8u s = Some (n, skip 1 s)"
proof -
  assume "ahead s (ucast n # bs)" "unat n < 256"
  then have "n = take_bit 8 n" by (simp add: word_unat_eq_iff unat_take_bit32)
  then have "(ucast (ucast n :: u8) :: u32) = n" by (auto simp: bit_simps intro!: bit_word_eqI) (metis bit_take_bit_iff)
  then show ?thesis using read8u_byte[OF \<open>ahead s (ucast n # bs)\<close>] by simp
qed

section \<open>Items\<close>

definition next_item :: "code_area \<Rightarrow> intern_state \<Rightarrow> (item \<times> intern_state) ires" where
  "next_item ca s = do { (code, s) \<leftarrow> read8u s; intern_item ca code s }"

text \<open>The codes, as numbers.\<close>

lemmas code_values =
  PREFIX_SMALL_BLOCK_def PREFIX_SMALL_INT_def PREFIX_SMALL_STRING_def CODE_INT8_def CODE_INT16_def CODE_INT32_def
  CODE_INT64_def CODE_SHARED8_def CODE_SHARED16_def CODE_SHARED32_def CODE_BLOCK32_def CODE_STRING8_def
  CODE_STRING32_def CODE_DOUBLE_BIG_def CODE_DOUBLE_LITTLE_def CODE_DOUBLE_ARRAY8_BIG_def
  CODE_DOUBLE_ARRAY8_LITTLE_def CODE_DOUBLE_ARRAY32_BIG_def CODE_DOUBLE_ARRAY32_LITTLE_def
  CODE_CODEPOINTER_def CODE_INFIXPOINTER_def

lemma one_small [simp]: "\<not> (32::u32) \<le> 1" "\<not> (64::u32) \<le> 1" "\<not> (128::u32) \<le> 1"
  by code_simp+

lemma next_item_byte: "ahead s (b # bs) \<Longrightarrow> next_item ca s = intern_item ca (ucast b) (skip 1 s)"
  by (simp add: next_item_def read8u_byte)

lemma small_codes:
  "n < 0x40 \<Longrightarrow> ucast (PREFIX_SMALL_INT + ucast n :: u8) = 0x40 + (n::u32)"
  "n < 0x20 \<Longrightarrow> ucast (PREFIX_SMALL_STRING + ucast n :: u8) = 0x20 + (n::u32)"
  "n < 16 \<Longrightarrow> m < 8 \<Longrightarrow> ucast (PREFIX_SMALL_BLOCK + ucast n + push_bit 4 (ucast m) :: u8) = 0x80 + (n::u32) + 16 * (m::u32)"
proof -
  have a: "list_all (\<lambda>k. ucast (PREFIX_SMALL_INT + ucast (word_of_nat k :: u32) :: u8) = 0x40 + (word_of_nat k :: u32)) [0..<64]"
    by code_simp
  have b: "list_all (\<lambda>k. ucast (PREFIX_SMALL_STRING + ucast (word_of_nat k :: u32) :: u8) = 0x20 + (word_of_nat k :: u32)) [0..<32]"
    by code_simp
  have c: "list_all (\<lambda>k. list_all (\<lambda>j. ucast (PREFIX_SMALL_BLOCK + ucast (word_of_nat k :: u32) + push_bit 4 (ucast (word_of_nat j :: u32)) :: u8)
      = 0x80 + (word_of_nat k :: u32) + 16 * (word_of_nat j :: u32)) [0..<8]) [0..<16]"
    by code_simp
  have e: "(n::u32) = word_of_nat (unat n)" for n by simp
  show "ucast (PREFIX_SMALL_INT + ucast n :: u8) = 0x40 + (n::u32)" if "n < 0x40"
    using a[unfolded list_all_iff, rule_format, of "unat n"] that by (simp add: word_less_nat_alt)
  show "ucast (PREFIX_SMALL_STRING + ucast n :: u8) = 0x20 + (n::u32)" if "n < 0x20"
    using b[unfolded list_all_iff, rule_format, of "unat n"] that by (simp add: word_less_nat_alt)
  show "ucast (PREFIX_SMALL_BLOCK + ucast n + push_bit 4 (ucast m) :: u8) = 0x80 + (n::u32) + 16 * (m::u32)"
    if "n < 16" "m < 8"
    using c[unfolded list_all_iff, rule_format, of "unat n" "unat m"] that by (simp add: word_less_nat_alt)
qed

lemma small_parts:
  "n < 0x40 \<Longrightarrow> (0x40 + n AND 0x3F = (n::u32)) \<and> \<not> 0x80 \<le> 0x40 + n \<and> 0x40 \<le> 0x40 + n"
  "n < 0x20 \<Longrightarrow> (0x20 + n AND 0x1F = (n::u32)) \<and> \<not> 0x40 \<le> 0x20 + n \<and> \<not> 0x80 \<le> 0x20 + n \<and> 0x20 \<le> 0x20 + n"
  "n < 16 \<Longrightarrow> m < 8 \<Longrightarrow> 0x80 \<le> 0x80 + n + 16 * m \<and> (0x80 + n + 16 * m AND 0xF = (n::u32))
    \<and> (drop_bit 4 (0x80 + n + 16 * m) AND 0x7 = (m::u32))"
proof -
  have a: "list_all (\<lambda>k. let n = word_of_nat k :: u32 in (0x40 + n AND 0x3F = n) \<and> \<not> 0x80 \<le> 0x40 + n \<and> 0x40 \<le> 0x40 + n) [0..<64]"
    by code_simp
  have b: "list_all (\<lambda>k. let n = word_of_nat k :: u32 in (0x20 + n AND 0x1F = n) \<and> \<not> 0x40 \<le> 0x20 + n \<and> \<not> 0x80 \<le> 0x20 + n
      \<and> 0x20 \<le> 0x20 + n) [0..<32]"
    by code_simp
  have c: "list_all (\<lambda>k. list_all (\<lambda>j. let n = word_of_nat k :: u32; m = word_of_nat j :: u32 in
      0x80 \<le> 0x80 + n + 16 * m \<and> (0x80 + n + 16 * m AND 0xF = n) \<and> (drop_bit 4 (0x80 + n + 16 * m) AND 0x7 = m)) [0..<8]) [0..<16]"
    by code_simp
  show "n < 0x40 \<Longrightarrow> (0x40 + n AND 0x3F = (n::u32)) \<and> \<not> 0x80 \<le> 0x40 + n \<and> 0x40 \<le> 0x40 + n"
    using a[unfolded list_all_iff, rule_format, of "unat n"] by (simp add: word_less_nat_alt Let_def)
  show "n < 0x20 \<Longrightarrow> (0x20 + n AND 0x1F = (n::u32)) \<and> \<not> 0x40 \<le> 0x20 + n \<and> \<not> 0x80 \<le> 0x20 + n \<and> 0x20 \<le> 0x20 + n"
    using b[unfolded list_all_iff, rule_format, of "unat n"] by (simp add: word_less_nat_alt Let_def)
  show "n < 16 \<Longrightarrow> m < 8 \<Longrightarrow> 0x80 \<le> 0x80 + n + 16 * m \<and> (0x80 + n + 16 * m AND 0xF = (n::u32))
    \<and> (drop_bit 4 (0x80 + n + 16 * m) AND 0x7 = (m::u32))"
    using c[unfolded list_all_iff, rule_format, of "unat n" "unat m"] by (simp add: word_less_nat_alt Let_def)
qed

lemma next_int:
  assumes "ahead s (int_code n @ bs)"
  shows "next_item ca s = Some (Inr (Item (Val_long n), skip (length (int_code n)) s))"
proof -
  consider "0 \<le> sint n" "sint n < 0x40" | "\<not> (0 \<le> sint n \<and> sint n < 0x40)" "- 128 \<le> sint n" "sint n < 128"
    | "\<not> (- 128 \<le> sint n \<and> sint n < 128)" "- 32768 \<le> sint n" "sint n < 32768"
    | "\<not> (- 32768 \<le> sint n \<and> sint n < 32768)"
    by linarith
  then show ?thesis
  proof cases
    case 1
    then have "unat n < 64" using unat_nonneg[OF 1(1)] by linarith
    then have n: "n < 0x40" by (simp add: word_less_nat_alt)
    have "int_code n = [PREFIX_SMALL_INT + ucast n]" using 1 by (simp add: int_code_def)
    then show ?thesis using assms small_codes(1)[OF n] small_parts(1)[OF n]
      by (simp add: next_item_byte intern_item_def code_values)
  next
    case 2
    then have e: "int_code n = [CODE_INT8, ucast n]" by (auto simp: int_code_def)
    have a: "ahead (skip 1 s) (ucast n # bs)" using ahead_append(2)[of s "[CODE_INT8]"] assms by (simp add: e)
    show ?thesis using assms read8s_ahead[OF a 2(2,3)] by (simp add: e next_item_byte intern_item_def code_values Let_def)
  next
    case 3
    then have e: "int_code n = CODE_INT16 # be16 n" by (auto simp: int_code_def)
    have a: "ahead (skip 1 s) (be16 n @ bs)" using ahead_append(2)[of s "[CODE_INT16]"] assms by (simp add: e)
    show ?thesis using assms read16s_be16[OF a 3(2,3)]
      by (simp add: e next_item_byte intern_item_def code_values Let_def)
  next
    case 4
    then have e: "int_code n = CODE_INT32 # be32 n" by (auto simp: int_code_def)
    have a: "ahead (skip 1 s) (be32 n @ bs)" using ahead_append(2)[of s "[CODE_INT32]"] assms by (simp add: e)
    show ?thesis using assms read32u_be32[OF a]
      by (simp add: e next_item_byte intern_item_def code_values Let_def read32s_read32u)
  qed
qed

lemma next_shared:
  assumes "ahead s (shared_code d @ bs)"
  shows "next_item ca s = map_option (\<lambda>(v, s). Inr (Item v, s)) (read_shared d (skip (length (shared_code d)) s))"
proof -
  consider "d < 0x100" | "\<not> d < 0x100" "d < 0x10000" | "\<not> d < 0x10000" by blast
  then show ?thesis
  proof cases
    case 1
    then have e: "shared_code d = [CODE_SHARED8, ucast d]" by (simp add: shared_code_def)
    have a: "ahead (skip 1 s) (ucast d # bs)" using ahead_append(2)[of s "[CODE_SHARED8]"] assms by (simp add: e)
    show ?thesis using assms read8u_ahead[OF a] 1
      by (simp add: e next_item_byte intern_item_def code_values Let_def word_less_nat_alt)
  next
    case 2
    then have e: "shared_code d = CODE_SHARED16 # be16 d" by (simp add: shared_code_def)
    have a: "ahead (skip 1 s) (be16 d @ bs)" using ahead_append(2)[of s "[CODE_SHARED16]"] assms by (simp add: e)
    have "read16u (skip (Suc 0) s) = Some (d, skip 3 s)"
      using read16u_be16[OF a] 2(2) by (simp add: word_less_nat_alt)
    then show ?thesis using assms by (simp add: e next_item_byte intern_item_def code_values Let_def)
  next
    case 3
    then have e: "shared_code d = CODE_SHARED32 # be32 d" by (simp add: shared_code_def word_less_nat_alt)
    have a: "ahead (skip 1 s) (be32 d @ bs)" using ahead_append(2)[of s "[CODE_SHARED32]"] assms by (simp add: e)
    show ?thesis using assms read32u_be32[OF a]
      by (simp add: e next_item_byte intern_item_def code_values Let_def)
  qed
qed

lemma next_str:
  assumes "ahead s (str_code bs @ rest)" "length bs < 4294967296"
  shows "\<exists>k. next_item ca s = map_option (\<lambda>(v, s). Inr (Item v, s)) (read_string (word_of_nat (length bs)) (skip k s))
    \<and> ahead (skip k s) (bs @ rest) \<and> length (str_code bs) = k + length bs"
proof -
  define len where "len = (word_of_nat (length bs) :: u32)"
  consider "len < 0x20" | "\<not> len < 0x20" "len < 0x100" | "\<not> len < 0x100" by blast
  then show ?thesis
  proof cases
    case 1
    then have e: "str_code bs = [PREFIX_SMALL_STRING + ucast len] @ bs" by (simp add: str_code_def len_def Let_def)
    show ?thesis using assms(1) small_codes(2)[OF 1] small_parts(2)[OF 1] ahead_append(2)[of s "[PREFIX_SMALL_STRING + ucast len]" "bs @ rest"]
      by (auto simp: e next_item_byte intern_item_def code_values Let_def len_def[symmetric] intro!: exI[of _ 1])
  next
    case 2
    then have e: "str_code bs = [CODE_STRING8, ucast len] @ bs" by (simp add: str_code_def len_def Let_def)
    have a: "ahead (skip 1 s) (ucast len # bs @ rest)" using ahead_append(2)[of s "[CODE_STRING8]"] assms by (simp add: e)
    have r: "read8u (skip (Suc 0) s) = Some (len, skip 2 s)"
    proof -
      have "unat len < 256" using 2(2) by (simp add: word_less_nat_alt)
      then show ?thesis using read8u_ahead[OF a] by (simp add: numeral_2_eq_2)
    qed
    have "ahead (skip 2 s) (bs @ rest)"
      using ahead_append(2)[of s "[CODE_STRING8, ucast len]" "bs @ rest"] assms(1) by (simp add: e numeral_2_eq_2)
    then show ?thesis using assms(1) r
      by (auto simp: e next_item_byte intern_item_def code_values Let_def len_def[symmetric] intro!: exI[of _ 2])
  next
    case 3
    then have "\<not> len < 0x20" by (auto simp: word_less_nat_alt)
    then have e: "str_code bs = (CODE_STRING32 # be32 len) @ bs" using 3 by (simp add: str_code_def len_def Let_def)
    have a: "ahead (skip 1 s) (be32 len @ bs @ rest)" using ahead_append(2)[of s "[CODE_STRING32]"] assms by (simp add: e)
    show ?thesis using assms(1) read32u_be32[OF a] ahead_append(2)[of s "CODE_STRING32 # be32 len" "bs @ rest"]
      by (auto simp: e next_item_byte intern_item_def code_values Let_def len_def[symmetric] intro!: exI[of _ 5])
  qed
qed

lemma next_dbl:
  assumes "ahead s (dbl_code d @ rest)"
  shows "next_item ca s = map_option (\<lambda>(v, s). Inr (Item v, s)) (read_double True (skip 1 s))"
    "ahead (skip 1 s) (word_bytes (ucast d) @ word_bytes (ucast (drop_bit 32 d)))"
  using assms ahead_append(2)[of s "[CODE_DOUBLE_LITTLE]"] ahead_append(1)
  by (auto simp: dbl_code_def next_item_byte intern_item_def code_values Let_def)

lemma next_atom:
  assumes "ahead s (atom_code hdr @ bs)" "Wosize_hd hdr = 0"
  shows "next_item ca s = Some (Inr (Block (Tag_hd hdr) 0, skip (length (atom_code hdr)) s))"
proof (cases "Tag_hd hdr < 16")
  case True
  then have e: "atom_code hdr = [PREFIX_SMALL_BLOCK + ucast (Tag_hd hdr)]" by (simp add: atom_code_def)
  have z: "(0::u32) < 8" by simp
  show ?thesis using assms(1) small_codes(3)[OF True z] small_parts(3)[OF True z]
    by (simp add: e next_item_byte intern_item_def PREFIX_SMALL_BLOCK_def Let_def)
next
  case False
  then have e: "atom_code hdr = CODE_BLOCK32 # be32 hdr" by (simp add: atom_code_def)
  have a: "ahead (skip 1 s) (be32 hdr @ bs)" using ahead_append(2)[of s "[CODE_BLOCK32]"] assms by (simp add: e)
  show ?thesis using assms read32u_be32[OF a]
    by (simp add: e next_item_byte intern_item_def code_values Let_def)
qed

lemma uncoloured:
  "Tag_hd (hdr AND NOT Black) = Tag_hd hdr" "Wosize_hd (hdr AND NOT Black) = Wosize_hd hdr"
proof -
  have b: "\<not> bit Black n" if "n < 8 \<or> 10 \<le> n" for n
  proof -
    have "Black = push_bit 8 (mask 2)" by code_simp
    then have "bit Black n \<longleftrightarrow> bit (push_bit 8 (mask 2) :: u32) n" by (simp only:)
    then show ?thesis using that by (auto simp: bit_simps)
  qed
  have ff: "(0xFF :: u32) = mask 8" by code_simp
  show "Tag_hd (hdr AND NOT Black) = Tag_hd hdr" unfolding Tag_hd_def ff
    by (rule bit_word_eqI) (auto simp: bit_simps b)
  show "Wosize_hd (hdr AND NOT Black) = Wosize_hd hdr" unfolding Wosize_hd_def
    by (rule bit_word_eqI) (auto simp: bit_simps b dest: bit32_less)
qed

lemma next_block:
  assumes "ahead s (block_code hdr @ bs)"
  shows "next_item ca s = Some (Inr (Block (Tag_hd hdr) (Wosize_hd hdr), skip (length (block_code hdr)) s))"
    "ahead (skip (length (block_code hdr)) s) bs"
proof -
  show "next_item ca s = Some (Inr (Block (Tag_hd hdr) (Wosize_hd hdr), skip (length (block_code hdr)) s))"
  proof (cases "Tag_hd hdr < 16 \<and> Wosize_hd hdr < 8")
    case True
    then have e: "block_code hdr = [PREFIX_SMALL_BLOCK + ucast (Tag_hd hdr) + push_bit 4 (ucast (Wosize_hd hdr))]"
      by (simp add: block_code_def)
    show ?thesis using assms(1) small_codes(3)[of "Tag_hd hdr" "Wosize_hd hdr"] small_parts(3)[of "Tag_hd hdr" "Wosize_hd hdr"] True
      by (simp add: e next_item_byte intern_item_def PREFIX_SMALL_BLOCK_def Let_def)
  next
    case False
    then have e: "block_code hdr = CODE_BLOCK32 # be32 (hdr AND NOT Black)" by (auto simp: block_code_def)
    have a: "ahead (skip 1 s) (be32 (hdr AND NOT Black) @ bs)" using ahead_append(2)[of s "[CODE_BLOCK32]"] assms by (simp add: e)
    show ?thesis using assms read32u_be32[OF a]
      by (simp add: e next_item_byte intern_item_def code_values Let_def uncoloured)
  qed
  show "ahead (skip (length (block_code hdr)) s) bs" using ahead_append(2)[OF assms] .
qed

end
