(* ===== verification/Intern_Read.thy ===== *)
theory Intern_Read
  imports Intern_Codes
begin

text \<open>
  The reader rebuilds the data the writer put down. Addresses are closed once they hold their final
  word: \<open>within C h\<close> is the memory \<open>h\<close> with the addresses \<open>C\<close> only, so that data represented in it does
  not change when the other addresses are written.
\<close>

section \<open>Closed parts of the memory\<close>

definition within :: "u32 set \<Rightarrow> 'a mlheap_scheme \<Rightarrow> 'a mlheap_scheme" where
  "within C h = h\<lparr>h_mem := (h_mem h) |` C\<rparr>"

lemma load_within: "load (within C h) a = (if a \<in> C then load h a else None)"
  by (simp add: within_def load_def restrict_map_def)

text \<open>\<open>sub h h'\<close>: the memory \<open>h'\<close> has the words of \<open>h\<close>, and the same ranges.\<close>

definition sub :: "'a mlheap_scheme \<Rightarrow> 'b mlheap_scheme \<Rightarrow> bool" where
  "sub h h' \<longleftrightarrow> (\<forall>a x. load h a = Some x \<longrightarrow> load h' a = Some x)
     \<and> young_start h' = young_start h \<and> young_end h' = young_end h \<and> in_heap h' = in_heap h"

lemma sub_load: "sub h h' \<Longrightarrow> load h a = Some x \<Longrightarrow> load h' a = Some x"
  by (simp add: sub_def)

lemma sub_in_memory: "sub h h' \<Longrightarrow> in_memory at h' v = in_memory at h v"
  by (simp add: sub_def in_memory_def Is_young_def)

lemma sub_Byte: "sub h h' \<Longrightarrow> Byte_u h v i = Some b \<Longrightarrow> Byte_u h' v i = Some b"
  by (auto simp: Byte_u_def Let_def dest: sub_load)

lemma sub_bytes_of: "sub h h' \<Longrightarrow> bytes_of h v i n = Some bs \<Longrightarrow> bytes_of h' v i n = Some bs"
  by (induction n arbitrary: i bs) (auto split: bind_splits dest: sub_Byte)

lemma sub_block: "sub h h' \<Longrightarrow> block_with at h v tag n \<Longrightarrow> block_with at h' v tag n"
  by (auto simp: block_with_def sub_in_memory Tag_val_def Wosize_val_def Hd_val_def dest: sub_load)

lemma sub_string_length: "sub h h' \<Longrightarrow> string_length h v = Some n \<Longrightarrow> string_length h' v = Some n"
proof -
  assume s: "sub h h'" and l: "string_length h v = Some n"
  obtain hdr c where h: "load h (v - 4) = Some hdr" "Byte_u h v (Bsize_wsize (Wosize_hd hdr) - 1) = Some c"
      "n = Bsize_wsize (Wosize_hd hdr) - 1 - scast c"
    using l by (auto simp: string_length_def Bosize_val_def Wosize_val_def Hd_val_def Let_def split: bind_splits)
  then show ?thesis using sub_load[OF s h(1)] sub_Byte[OF s h(2)]
    by (simp add: string_length_def Bosize_val_def Wosize_val_def Hd_val_def Let_def)
qed

lemma repr_sub:
  "repr at h v t \<Longrightarrow> sub h h' \<Longrightarrow> repr at h' v t"
  "repr_fields at h a ts \<Longrightarrow> sub h h' \<Longrightarrow> repr_fields at h' a ts"
proof (induction at h v t and at h a ts rule: repr_repr_fields.induct)
  case (3 at h v d)
  then obtain lo hi where "load h v = Some lo" "load h (v + 4) = Some hi" "d = wcat hi lo" "block_with at h v Double_tag 2"
    by (auto simp: Double_val_def split: bind_splits)
  then show ?case using sub_load[OF 3(2)] sub_block[OF 3(2)] by (simp add: Double_val_def)
next
  case (6 at h a t ts)
  then show ?case by (auto split: option.splits dest: sub_load)
qed (auto dest: sub_block sub_string_length sub_bytes_of)

lemma within_sel [simp]: "young_start (within C h) = young_start h" "young_end (within C h) = young_end h"
  "in_heap (within C h) = in_heap h"
  by (simp_all add: within_def)

lemma sub_within: "only h A h' \<Longrightarrow> C \<inter> A = {} \<Longrightarrow> C \<subseteq> C' \<Longrightarrow> sub (within C h) (within C' h')"
proof -
  assume o: "only h A h'" and c: "C \<inter> A = {}" "C \<subseteq> C'"
  have "h' = h\<lparr>h_mem := h_mem h'\<rparr>" using o by (simp add: only_def)
  then have "young_start h' = young_start h \<and> young_end h' = young_end h \<and> in_heap h' = in_heap h"
    by (metis mlheap.select_convs(2,3,6) mlheap.surjective mlheap.update_convs(1))
  moreover have "load h' a = load h a" if "a \<in> C" for a using only_load[OF o] that c(1) by auto
  ultimately show ?thesis using c(2) by (auto simp: sub_def load_within split: if_splits)
qed

lemma sub_within_mono: "C \<subseteq> C' \<Longrightarrow> sub (within C h) (within C' h)"
  using sub_within[of h "{}" h C C'] by simp

lemma sub_within_id: "sub (within C h) h"
  by (auto simp: sub_def load_within split: if_splits)

section \<open>The region being filled\<close>

definition rgn :: "u32 \<Rightarrow> nat \<Rightarrow> u32 set" where "rgn D n = {word_at D k | k. k < n}"

lemma rgn_split: "rgn D (n + m) = rgn D n \<union> rgn (word_at D n) m"
proof (intro equalityI subsetI)
  fix a assume "a \<in> rgn D (n + m)"
  then obtain k where k: "k < n + m" "a = word_at D k" by (auto simp: rgn_def)
  show "a \<in> rgn D n \<union> rgn (word_at D n) m"
  proof (cases "k < n")
    case False
    then have "a = word_at (word_at D n) (k - n)" "k - n < m" using k by simp_all
    then show ?thesis unfolding rgn_def by blast
  qed (use k in \<open>auto simp: rgn_def\<close>)
next
  fix a assume "a \<in> rgn D n \<union> rgn (word_at D n) m"
  then show "a \<in> rgn D (n + m)" unfolding rgn_def word_at_simps by force
qed

lemma rgn_disjoint: "n + m < 1073741824 \<Longrightarrow> rgn D n \<inter> rgn (word_at D n) m = {}"
  unfolding rgn_def word_at_simps using word_at_inj[of _ _ D] by fastforce

lemma rgn_0 [simp]: "rgn D 0 = {}" by (simp add: rgn_def)

lemma rgn_Suc: "rgn D (Suc n) = insert D (rgn (D + 4) n)"
  using rgn_split[of D 1 n] by (auto simp: rgn_def)

lemma in_rgn: "k < n \<Longrightarrow> word_at D k \<in> rgn D n" by (auto simp: rgn_def)

text \<open>\<open>m\<close> words are left to be filled.\<close>

definition room :: "u32 \<Rightarrow> intern_state \<Rightarrow> nat \<Rightarrow> bool" where
  "room at s m \<longleftrightarrow> aligned (intern_dest s) \<and> m < 1073741824 \<and> mapped (i_heap s) (intern_dest s) m
     \<and> (\<forall>k. Suc k < m \<longrightarrow> in_memory at (i_heap s) (word_at (intern_dest s) (Suc k)))
     \<and> intern_color s \<in> {White, Gray, Blue, Black}"

text \<open>The objects read so far, and the room for more.\<close>

definition objs_read :: "intern_state \<Rightarrow> val list" where
  "objs_read s = (case intern_obj_table s of None \<Rightarrow> [] | Some tbl \<Rightarrow> take (unat (i_obj_counter s)) tbl)"

definition tbl_room :: "intern_state \<Rightarrow> nat \<Rightarrow> bool" where
  "tbl_room s n \<longleftrightarrow> (case intern_obj_table s of None \<Rightarrow> n = 0
     | Some tbl \<Rightarrow> unat (i_obj_counter s) + n \<le> length tbl \<and> length tbl < 4294967296)"

text \<open>
  \<open>moved s b w A new s'\<close>: between the states \<open>b\<close> bytes were read, \<open>w\<close> words of the region were taken, the
  addresses \<open>A\<close> were written and the objects \<open>new\<close> were recorded.
\<close>

definition moved :: "intern_state \<Rightarrow> nat \<Rightarrow> nat \<Rightarrow> u32 set \<Rightarrow> val list \<Rightarrow> intern_state \<Rightarrow> bool" where
  "moved s b w A new s' \<longleftrightarrow> intern_input s' = intern_input s \<and> intern_src s' = intern_src s + b
     \<and> intern_dest s' = word_at (intern_dest s) w \<and> intern_color s' = intern_color s
     \<and> only (i_heap s) A (i_heap s') \<and> objs_read s' = objs_read s @ new
     \<and> (intern_obj_table s' = None \<longleftrightarrow> intern_obj_table s = None)
     \<and> (\<forall>n. tbl_room s (length new + n) \<longrightarrow> tbl_room s' n)"

lemma moved_trans:
  assumes "moved s b w A new s1" "moved s1 b' w' A' new' s2"
  shows "moved s (b + b') (w + w') (A \<union> A') (new @ new') s2"
proof -
  have "only (i_heap s) (A \<union> A') (i_heap s2)" using assms only_trans by (auto simp: moved_def)
  then show ?thesis using assms by (auto simp: moved_def add.assoc)
qed

lemma moved_mono: "moved s b w A new s' \<Longrightarrow> A \<subseteq> B \<Longrightarrow> moved s b w B new s'"
  by (auto simp: moved_def dest: only_mono)

lemma moved_refl: "moved s 0 0 {} [] s"
  by (simp add: moved_def)

lemma moved_skip: "moved s n 0 {} [] (skip n s)"
  by (simp add: moved_def objs_read_def tbl_room_def split: option.splits)

lemma objs_cong:
  assumes "intern_obj_table s' = intern_obj_table s" "i_obj_counter s' = i_obj_counter s"
  shows "objs_read s' = objs_read s" "tbl_room s' n = tbl_room s n"
  by (simp_all only: objs_read_def tbl_room_def assms)

lemma moved_heap:
  "only (i_heap s) A h \<Longrightarrow> moved s 0 0 A [] (s\<lparr>i_heap := h\<rparr>)"
  "only (i_heap s) A h \<Longrightarrow> moved s 0 w A [] (s\<lparr>i_heap := h, intern_dest := word_at (intern_dest s) w\<rparr>)"
  unfolding moved_def using objs_cong[of "s\<lparr>i_heap := h\<rparr>" s]
    objs_cong[of "s\<lparr>i_heap := h, intern_dest := word_at (intern_dest s) w\<rparr>" s]
  by simp_all

lemma moved_ahead: "moved s b w A new s' \<Longrightarrow> ahead (skip b s) bs \<Longrightarrow> ahead s' bs"
  by (simp add: moved_def ahead_def)

lemma moved_room:
  assumes "moved s b w A new s'" "room at s (w + m)"
  shows "room at s' m"
proof -
  have h: "i_heap s' = (i_heap s)\<lparr>h_mem := h_mem (i_heap s')\<rparr>" using assms(1) by (simp add: moved_def only_def)
  have "in_memory at (i_heap s') a = in_memory at (i_heap s) a" for a
    by (subst h) (simp add: in_memory_def Is_young_def)
  moreover have "mapped (i_heap s') (word_at (intern_dest s) w) m"
    using assms only_mapped[of "i_heap s" A "i_heap s'"] by (auto simp: moved_def room_def mapped_def)
  ultimately show ?thesis using assms by (auto simp: moved_def room_def)
qed

section \<open>New objects\<close>

definition note_new :: "bool \<Rightarrow> val \<Rightarrow> val list" where "note_new ign v = (if ign then [] else [v])"

lemma note_obj_new: "note_obj ign v objs = objs @ note_new ign v"
  by (simp add: note_obj_def note_new_def)

definition tbl_fits :: "bool \<Rightarrow> intern_state \<Rightarrow> nat \<Rightarrow> bool" where
  "tbl_fits ign s n \<longleftrightarrow> (ign \<longrightarrow> intern_obj_table s = None) \<and> tbl_room s n"

lemma moved_fits: "moved s b w A new s' \<Longrightarrow> tbl_fits ign s (length new + n) \<Longrightarrow> tbl_fits ign s' n"
  by (auto simp: moved_def tbl_fits_def)

lemma record_obj_ok:
  assumes "tbl_fits ign s (length (note_new ign v) + n)"
  shows "\<exists>tbl k. record_obj v s = Some (s\<lparr>intern_obj_table := tbl, i_obj_counter := k\<rparr>)
    \<and> moved s 0 0 {} (note_new ign v) (s\<lparr>intern_obj_table := tbl, i_obj_counter := k\<rparr>)"
proof (cases "intern_obj_table s")
  case None
  then have "record_obj v s = Some s" "note_new ign v = []"
    using assms by (auto simp: record_obj_def tbl_fits_def tbl_room_def note_new_def)
  then show ?thesis using moved_refl[of s] by (auto intro!: exI[of _ "intern_obj_table s"] exI[of _ "i_obj_counter s"])
next
  case (Some tbl)
  then have ign: "\<not> ign" and r: "unat (i_obj_counter s) + 1 \<le> length tbl" "length tbl < 4294967296"
    using assms by (auto simp: tbl_fits_def tbl_room_def note_new_def)
  have u: "unat (i_obj_counter s + 1) = unat (i_obj_counter s) + 1" using r unat_add32[of "i_obj_counter s" 1] by simp
  let ?s' = "s\<lparr>intern_obj_table := Some (tbl[unat (i_obj_counter s) := v]), i_obj_counter := i_obj_counter s + 1\<rparr>"
  have "record_obj v s = Some ?s'" using Some r by (simp add: record_obj_def wr_def)
  moreover have "moved s 0 0 {} (note_new ign v) ?s'"
    using Some r ign u by (auto simp: moved_def objs_read_def tbl_room_def note_new_def take_Suc_conv_app_nth)
  ultimately show ?thesis by blast
qed

lemma intern_new_ok:
  assumes r: "room at s (Suc (unat sz) + m)" and f: "tbl_fits ign s (length (note_new ign (intern_dest s + 4)) + n)"
  shows "\<exists>s'. intern_new sz tag s = Some (intern_dest s + 4, s')
    \<and> moved s 0 (Suc (unat sz)) {intern_dest s} (note_new ign (intern_dest s + 4)) s'
    \<and> load (i_heap s') (intern_dest s) = Some (Make_header sz tag (intern_color s))"
proof -
  obtain tbl k where k: "record_obj (intern_dest s + 4) s = Some (s\<lparr>intern_obj_table := tbl, i_obj_counter := k\<rparr>)"
      "moved s 0 0 {} (note_new ign (intern_dest s + 4)) (s\<lparr>intern_obj_table := tbl, i_obj_counter := k\<rparr>)"
    using record_obj_ok[OF f] by blast
  have "load (i_heap s) (word_at (intern_dest s) 0) \<noteq> None"
    using r unfolding room_def mapped_def by (metis zero_less_Suc add_Suc)
  then obtain h where h: "store (intern_dest s) (Make_header sz tag (intern_color s)) (i_heap s) = Some h"
      "only (i_heap s) {intern_dest s} h" "load h (intern_dest s) = Some (Make_header sz tag (intern_color s))"
    using store_mapped[of "i_heap s" "intern_dest s"] by auto
  have d: "intern_dest s + 4 * (1 + sz) = word_at (intern_dest s) (Suc (unat sz))"
    by (simp add: word_at_def)
  let ?s1 = "s\<lparr>intern_obj_table := tbl, i_obj_counter := k\<rparr>"
  let ?s' = "?s1\<lparr>i_heap := h, intern_dest := intern_dest s + 4 * (1 + sz)\<rparr>"
  have "intern_new sz tag s = Some (intern_dest s + 4, ?s')" by (simp add: intern_new_def Let_def k(1) h(1))
  moreover have "moved s (0 + 0) (0 + Suc (unat sz)) ({} \<union> {intern_dest s}) (note_new ign (intern_dest s + 4) @ []) ?s'"
    by (rule moved_trans[OF k(2)]) (use moved_heap(2)[of ?s1] h(2) d in simp)
  ultimately show ?thesis using h(3) by auto
qed

section \<open>Strings and numbers\<close>

lemma aligned_block: "aligned v \<Longrightarrow> Is_block v"
proof -
  assume "aligned v"
  then have z: "\<not> bit (v AND 3) 0" by (simp add: aligned_def)
  have "v AND 1 = 0"
    by (rule bit_word_eqI) (use z in \<open>auto simp: bit_simps bit_1_iff bit_numeral_rec intro: gr0I\<close>)
  then show ?thesis by (simp add: Is_block_def)
qed

lemma only_ranges:
  assumes "only h A h'"
  shows "in_memory at (within C h') v = in_memory at h v" "in_memory at h' v = in_memory at h v"
proof -
  have "h' = h\<lparr>h_mem := h_mem h'\<rparr>" using assms by (simp add: only_def)
  then show "in_memory at (within C h') v = in_memory at h v" "in_memory at h' v = in_memory at h v"
    by (metis in_memory_def Is_young_def mlheap.select_convs(2,3,6) mlheap.surjective mlheap.update_convs(1) within_sel)+
qed

text \<open>A block that was just filled.\<close>

lemma filled_block:
  assumes r: "room at s (Suc q + m)" and o: "only (i_heap s) A h"
    and hd: "load h (intern_dest s) = Some (Make_header sz tag (intern_color s))"
    and q: "unat sz = q" "q < 4194304" "tag < 256" "0 < q" and C: "intern_dest s \<in> C"
  shows "block_with at (within C h) (intern_dest s + 4) tag q"
proof -
  have "Is_block (intern_dest s + 4)" using r by (auto simp: room_def intro!: aligned_block aligned_add)
  moreover have "in_memory at (within C h) (intern_dest s + 4)"
  proof -
    have "\<forall>k. Suc k < Suc q + m \<longrightarrow> in_memory at (i_heap s) (word_at (intern_dest s) (Suc k))" using r by (simp add: room_def)
    from this[rule_format, of 0] show ?thesis using q(4) by (simp add: only_ranges(1)[OF o])
  qed
  moreover have "Hd_val (within C h) (intern_dest s + 4) = Some (Make_header sz tag (intern_color s))"
    using hd C by (simp add: Hd_val_def load_within)
  moreover have "Wosize_hd (Make_header sz tag (intern_color s)) = sz" "Tag_hd (Make_header sz tag (intern_color s)) = tag"
    using r q Make_header_parts[of sz tag "intern_color s"] by (auto simp: room_def)
  ultimately show ?thesis using q(1) by (simp add: block_with_def Tag_val_def Wosize_val_def)
qed

lemma Byte_within:
  assumes "aligned v" "\<forall>k < q. word_at v k \<in> C" "j < 4 * q"
  shows "Byte_u (within C h) v (word_of_nat j) = Byte_u h v (word_of_nat j)"
proof -
  have "j div 4 < q" using assms(3) by simp
  then show ?thesis using assms(2) by (simp add: Byte_u_nat[OF assms(1)] load_within)
qed

lemma small_byte: "r < 4 \<Longrightarrow> scast (ucast (word_of_nat r :: u32) :: u8) = (word_of_nat r :: u32)"
proof -
  have a: "list_all (\<lambda>r. scast (ucast (word_of_nat r :: u32) :: u8) = (word_of_nat r :: u32)) [0..<4]" by code_simp
  assume "r < 4"
  then show ?thesis using a by (simp add: list_all_iff)
qed

lemma string_words:
  assumes "n < 16777212"
  shows "unat (((word_of_nat n :: u32) + 4) div 4) = n div 4 + 1"
    "Bsize_wsize (((word_of_nat n :: u32) + 4) div 4) - 1 = word_of_nat (4 * (n div 4) + 3)"
    "Bsize_wsize (((word_of_nat n :: u32) + 4) div 4) - 1 - word_of_nat n = word_of_nat (3 - n mod 4)"
proof -
  have "unat ((word_of_nat n :: u32) + 4) = n + 4" using assms unat_add32[of "word_of_nat n" 4] by (simp add: unat_word32)
  then show u: "unat (((word_of_nat n :: u32) + 4) div 4) = n div 4 + 1" by (simp add: unat_div)
  then have w: "((word_of_nat n :: u32) + 4) div 4 = word_of_nat (n div 4 + 1)" unfolding u[symmetric] by simp
  have "word_of_nat (n div 4 + 1) * 4 = (word_of_nat (4 * (n div 4) + 3) + 1 :: u32)" by simp
  then show b: "Bsize_wsize (((word_of_nat n :: u32) + 4) div 4) - 1 = word_of_nat (4 * (n div 4) + 3)"
    by (simp only: w Bsize_wsize_def add_diff_cancel)
  have "4 * (n div 4) + 3 = (3 - n mod 4) + n" by presburger
  then have "(word_of_nat (4 * (n div 4) + 3) :: u32) = word_of_nat (3 - n mod 4) + word_of_nat n" by (metis of_nat_add)
  then show "Bsize_wsize (((word_of_nat n :: u32) + 4) div 4) - 1 - word_of_nat n = word_of_nat (3 - n mod 4)"
    by (simp only: b add_diff_cancel)
qed

lemma read_string_ok:
  assumes r: "room at s (2 + length bs div 4 + m)" and f: "tbl_fits ign s (length (note_new ign (intern_dest s + 4)) + n)"
    and a: "ahead s (bs @ rest)" and len: "length bs < 16777212"
  shows "\<exists>s'. read_string (word_of_nat (length bs)) s = Some (intern_dest s + 4, s')
    \<and> moved s (length bs) (2 + length bs div 4) (rgn (intern_dest s) (2 + length bs div 4)) (note_new ign (intern_dest s + 4)) s'
    \<and> repr at (within (rgn (intern_dest s) (2 + length bs div 4)) (i_heap s')) (intern_dest s + 4) (TStr bs)"
proof -
  define D where "D = intern_dest s"
  define v where "v = D + 4"
  define q where "q = length bs div 4 + 1"
  define sz where "sz = ((word_of_nat (length bs) :: u32) + 4) div 4"
  define pad where "pad = 3 - length bs mod 4"
  let ?len = "word_of_nat (length bs) :: u32"
  define lst where "lst = 4 * (length bs div 4) + 3"
  have pad: "pad < 4" by (simp add: pad_def)
  have sz: "unat sz = q" "Bsize_wsize sz - 1 = word_of_nat lst"
      "Bsize_wsize sz - 1 - ?len = word_of_nat pad"
    using string_words[OF len] by (simp_all only: sz_def q_def pad_def lst_def)
  have pd: "word_of_nat lst - ?len = (word_of_nat pad :: u32)" using sz(3) unfolding sz(2) .
  have q: "0 < q" "q < 4194304" using len by (simp_all add: q_def)
  have lst: "lst < 4 * q" "lst < 4294967296" "\<not> lst < length bs" and lq: "length bs \<le> 4 * q"
    using len by (simp_all add: q_def lst_def)
  have rq: "room at s (Suc q + m)" using r by (simp add: q_def)
  have v: "aligned v" using r by (simp add: v_def D_def room_def aligned_add)
  have vk: "word_at v k = word_at D (Suc k)" for k by (simp add: v_def)
  have mv: "mapped (i_heap s) v q" using rq by (auto simp: mapped_def room_def vk D_def)
  define W where "W = {word_at v k | k. k < q}"
  have sub: "W \<subseteq> rgn D (Suc q)" "D \<in> rgn D (Suc q)" "word_at v (q - 1) \<in> rgn D (Suc q)"
    using in_rgn[of 0 "Suc q" D] in_rgn[of q "Suc q" D] q(1) by (auto simp: rgn_def vk W_def)
  have Dv: "D \<notin> W" "D \<noteq> word_at v (q - 1)"
  proof -
    have ne: "D \<noteq> word_at v k" if "k < q" for k using word_at_inj[of 0 "Suc k" D] q that by (simp add: vk)
    show "D \<notin> W" "D \<noteq> word_at v (q - 1)" using ne q(1) by (auto simp: W_def)
  qed
  obtain s1 where s1: "intern_new sz String_tag s = Some (v, s1)"
      "moved s 0 (Suc q) {D} (note_new ign v) s1"
      "load (i_heap s1) D = Some (Make_header sz String_tag (intern_color s))"
    using intern_new_ok[of at s sz m ign n String_tag] rq f by (auto simp: sz(1) v_def D_def)
  have o1: "only (i_heap s) {D} (i_heap s1)" using s1(2) by (simp add: moved_def)
  have m1: "mapped (i_heap s1) v q" using mv only_mapped[OF o1] by (simp add: mapped_def)
  have fa: "Field_addr v (sz - 1) = word_at v (q - 1)"
  proof -
    have "sz = word_of_nat q" unfolding sz(1)[symmetric] by simp
    then have "sz - 1 = word_of_nat (q - 1)" using q(1) by (cases q) simp_all
    then show ?thesis by (simp add: Field_addr_def word_at_def)
  qed
  obtain h2 where h2: "store (word_at v (q - 1)) 0 (i_heap s1) = Some h2" "only (i_heap s1) {word_at v (q - 1)} h2"
    using store_mapped[of "i_heap s1" "word_at v (q - 1)" 0] m1 q(1) by (auto simp: mapped_def)
  have m2: "mapped h2 v q" using m1 only_mapped[OF h2(2)] by (simp add: mapped_def)
  obtain h3 where h3: "Byte_set v (word_of_nat lst) (ucast (word_of_nat pad :: u32)) h2 = Some h3"
      "only h2 W h3"
    using Byte_set_mapped[OF v m2 lst(1)] unfolding W_def by blast
  have m3: "mapped h3 v q" using m2 only_mapped[OF h3(2)] by (simp add: mapped_def)
  obtain h4 where h4: "copy_bytes v (word_of_nat 0) bs h3 = Some h4" "only h3 W h4"
      "\<forall>j < 4 * q. Byte_u h4 v (word_of_nat j) = (if 0 \<le> j \<and> j < 0 + length bs then Some (bs ! (j - 0)) else Byte_u h3 v (word_of_nat j))"
    using copy_bytes_ok[OF v m3, of 0 bs] lq q unfolding W_def by auto
  define s2 where "s2 = skip (length bs) (s1\<lparr>i_heap := h3\<rparr>)"
  have a3: "ahead (s1\<lparr>i_heap := h3\<rparr>) (bs @ rest)" using s1(2) a by (simp add: ahead_def moved_def)
  have val: "read_string ?len s = Some (v, s2\<lparr>i_heap := h4\<rparr>)"
    using h2(1) h3(1) h4(1) s1(1) fa read_bytes_ahead[OF a3 refl] len
    by (simp add: read_string_def Let_def sz_def[symmetric] sz(2) pd readblock_def unat_word32 s2_def)
  have all: "only (i_heap s) (rgn D (Suc q)) h4"
    by (rule only_mono[OF only_trans[OF only_trans[OF only_trans[OF o1 h2(2)] h3(2)] h4(2)]]) (use sub in simp)
  have s2h: "only (i_heap s2) (rgn D (Suc q)) h4"
    using only_mono[OF h4(2) sub(1)] by (simp add: s2_def)
  have m13: "moved s1 0 0 (rgn D (Suc q)) [] (s1\<lparr>i_heap := h3\<rparr>)"
    by (rule moved_heap(1), rule only_mono[OF only_trans[OF h2(2) h3(2)]]) (use sub in simp)
  have "moved (s1\<lparr>i_heap := h3\<rparr>) (length bs) 0 {} [] s2" unfolding s2_def by (rule moved_skip)
  note m = moved_trans[OF s1(2) moved_trans[OF m13 moved_trans[OF this moved_heap(1)[OF s2h]]]]
  let ?H = "within (rgn D (Suc q)) h4"
  have ld: "load h4 D = Some (Make_header sz String_tag (intern_color s))"
    using s1(3) only_load[OF h2(2), of D] only_load[OF h3(2) Dv(1)] only_load[OF h4(2) Dv(1)] Dv(2) by auto
  have bl: "block_with at ?H v String_tag q"
    using filled_block[OF rq all, of sz String_tag "rgn D (Suc q)"] ld sz(1) q sub(2)
    by (simp add: D_def v_def String_tag_def)
  have bt: "Byte_u ?H v (word_of_nat j) = Byte_u h4 v (word_of_nat j)" if "j < 4 * q" for j
    using Byte_within[OF v _ that, of "rgn D (Suc q)" h4] in_rgn[of "Suc _" "Suc q" D] by (simp add: vk)
  have sl: "string_length ?H v = Some ?len"
  proof -
    have b: "Bosize_val ?H v = Some (Bsize_wsize sz)"
      using bl sz(1) unfolding block_with_def Bosize_val_def by (auto simp: word_unat_eq_iff)
    have c: "Byte_u ?H v (word_of_nat lst) = Some (ucast (word_of_nat pad :: u32))"
      using bt[OF lst(1)] h4(3)[rule_format, OF lst(1)] lst(3) Byte_u_set[OF v lst(2,2) h3(1)] by simp
    have "word_of_nat lst - word_of_nat pad = ?len"
      unfolding pd[symmetric] by simp
    then show ?thesis using b c small_byte[OF pad] by (simp add: string_length_def Let_def sz(2))
  qed
  have "bytes_of ?H v (word_of_nat 0) (length bs) = Some bs"
    unfolding bytes_of_iff using bt h4(3) lq by auto
  then have "repr at ?H v (TStr bs)" using bl sl len by (simp add: q_def)
  moreover have "rgn D (2 + length bs div 4) = rgn D (Suc q)" by (simp add: q_def)
  moreover have "moved s (length bs) (2 + length bs div 4) (rgn D (2 + length bs div 4)) (note_new ign v) (s2\<lparr>i_heap := h4\<rparr>)"
    using moved_mono[OF m, of "rgn D (Suc q)"] sub(2) by (simp add: q_def)
  ultimately show ?thesis using val unfolding v_def D_def[symmetric] by auto
qed

lemma word_of_bytes:
  assumes v: "aligned v" and k: "load h (word_at v k) = Some w" "k < 1000"
    and b: "\<forall>j < 4. Byte_u h v (word_of_nat (4 * k + j)) = Some (word_bytes x ! j)"
  shows "w = x"
proof (rule word_bytes_eqI, intro allI impI)
  fix j :: nat assume j: "j < 4"
  have "(4 * k + j) div 4 = k" "(4 * k + j) mod 4 = j" using j by simp_all
  then have "Byte_u h v (word_of_nat (4 * k + j)) = Some (byte_at j w)" unfolding Byte_u_nat[OF v] by (simp add: k(1))
  then show "byte_at j w = byte_at j x" using b[rule_format, OF j] nth_word_bytes[OF j, of x] by simp
qed

lemma read_double_ok:
  assumes r: "room at s (3 + m)" and f: "tbl_fits ign s (length (note_new ign (intern_dest s + 4)) + n)"
    and a: "ahead s ((word_bytes lo @ word_bytes hi) @ rest)"
  shows "\<exists>s'. read_double True s = Some (intern_dest s + 4, s')
    \<and> moved s 8 3 (rgn (intern_dest s) 3) (note_new ign (intern_dest s + 4)) s'
    \<and> repr at (within (rgn (intern_dest s) 3) (i_heap s')) (intern_dest s + 4) (TDbl (wcat hi lo))"
proof -
  define D where "D = intern_dest s"
  define v where "v = D + 4"
  let ?bs = "word_bytes lo @ word_bytes hi"
  have rq: "room at s (Suc 2 + m)" using r by simp
  have v: "aligned v" using r by (simp add: v_def D_def room_def aligned_add)
  have vk: "word_at v k = word_at D (Suc k)" for k by (simp add: v_def)
  have mv: "mapped (i_heap s) v 2" using rq by (auto simp: mapped_def room_def vk D_def)
  define W where "W = {word_at v k | k. k < 2}"
  have sub: "W \<subseteq> rgn D 3" "D \<in> rgn D 3" "v \<in> rgn D 3" "v + 4 \<in> rgn D 3"
    using in_rgn[of 0 3 D] in_rgn[of 1 3 D] in_rgn[of 2 3 D] vk[of 0] vk[of 1]
    by (auto simp: rgn_def vk W_def numeral_2_eq_2)
  have Dv: "D \<notin> W"
  proof -
    have "D \<noteq> word_at v k" if "k < 2" for k using word_at_inj[of 0 "Suc k" D] that by (simp add: vk)
    then show ?thesis by (auto simp: W_def)
  qed
  have u2: "Suc (unat (2::u32)) = 3" by simp
  obtain s1 where s1: "intern_new 2 Double_tag s = Some (v, s1)"
      "moved s 0 3 {D} (note_new ign v) s1"
      "load (i_heap s1) D = Some (Make_header 2 Double_tag (intern_color s))"
    using intern_new_ok[of at s 2 m ign n Double_tag] r f unfolding u2 v_def D_def by blast
  have o1: "only (i_heap s) {D} (i_heap s1)" using s1(2) by (simp add: moved_def)
  have m1: "mapped (i_heap s1) v 2" using mv only_mapped[OF o1] by (simp add: mapped_def)
  obtain h4 where h4: "copy_bytes v (word_of_nat 0) ?bs (i_heap s1) = Some h4" "only (i_heap s1) W h4"
      "\<forall>j < 4 * 2. Byte_u h4 v (word_of_nat j) = (if 0 \<le> j \<and> j < 0 + length ?bs then Some (?bs ! (j - 0)) else Byte_u (i_heap s1) v (word_of_nat j))"
    using copy_bytes_ok[OF v m1, of 0 ?bs] unfolding W_def by auto
  define s2 where "s2 = skip 8 s1"
  have a1: "ahead s1 (?bs @ rest)" using moved_ahead[OF s1(2)] a by simp
  have val: "read_double True s = Some (v, s2\<lparr>i_heap := h4\<rparr>)"
    using read_bytes_ahead[OF a1, of 8] s1(1) h4(1) by (simp add: read_double_def readblock_def s2_def)
  have s2h: "only (i_heap s2) (rgn D 3) h4" using only_mono[OF h4(2) sub(1)] by (simp add: s2_def)
  have "moved s1 8 0 {} [] s2" unfolding s2_def by (rule moved_skip)
  note m = moved_trans[OF s1(2) moved_trans[OF this moved_heap(1)[OF s2h]]]
  have all: "only (i_heap s) (rgn D 3) h4"
    by (rule only_mono[OF only_trans[OF o1 h4(2)]]) (use sub in simp)
  let ?H = "within (rgn D 3) h4"
  have ld: "load h4 D = Some (Make_header 2 Double_tag (intern_color s))" using s1(3) only_load[OF h4(2) Dv] by simp
  have bl: "block_with at ?H v Double_tag 2"
    using filled_block[OF rq all, of 2 Double_tag "rgn D 3"] ld sub(2) by (simp add: D_def v_def Double_tag_def)
  have m4: "mapped h4 v 2" using m1 only_mapped[OF h4(2)] by (simp add: mapped_def)
  have w: "load h4 (word_at v k) = Some x" if "k < 2" "\<forall>j < 4. ?bs ! (4 * k + j) = word_bytes x ! j" for k x
  proof -
    obtain w where w: "load h4 (word_at v k) = Some w" using m4 \<open>k < 2\<close> by (auto simp: mapped_def)
    have "\<forall>j < 4. Byte_u h4 v (word_of_nat (4 * k + j)) = Some (word_bytes x ! j)"
      using h4(3) that by (auto simp del: of_nat_add of_nat_mult)
    then show ?thesis using word_of_bytes[OF v w] w that(1) by simp
  qed
  have "load h4 v = Some lo" "load h4 (v + 4) = Some hi"
    using w[of 0 lo] w[of 1 hi] by (simp_all add: nth_append)
  then have "repr at ?H v (TDbl (wcat hi lo))" using bl sub by (simp add: Double_val_def load_within)
  moreover have "moved s 8 3 (rgn D 3) (note_new ign v) (s2\<lparr>i_heap := h4\<rparr>)"
    using moved_mono[OF m, of "rgn D 3"] sub(2) by simp
  ultimately show ?thesis using val unfolding v_def D_def[symmetric] by auto
qed

end
