(* ===== verification/Marshal.thy ===== *)
theory Marshal
  imports Intern_Read
begin

text \<open>
  The reader on the output of the writer: the data read back is the data written.
\<close>

section \<open>States of the reader\<close>

text \<open>The object \<open>o\<close> of the source was copied to \<open>x\<close>, for the data with \<open>P\<close>.\<close>

definition copied ::
  "u32 \<Rightarrow> 'a mlheap_scheme \<Rightarrow> u32 \<Rightarrow> 'b mlheap_scheme \<Rightarrow> (mltree \<Rightarrow> bool) \<Rightarrow> val \<Rightarrow> val \<Rightarrow> bool" where
  "copied ats hs at h P obj x \<longleftrightarrow> (\<forall>u. repr ats hs obj u \<and> P u \<longrightarrow> repr at h x u)"

lemma copied_sub: "copied ats hs at h P obj x \<Longrightarrow> sub h h' \<Longrightarrow> (\<And>u. P' u \<Longrightarrow> P u) \<Longrightarrow> copied ats hs at h' P' obj x"
  using repr_sub(1) by (fastforce simp: copied_def)

lemma copied_list_sub:
  "list_all2 (copied ats hs at h P) xs ys \<Longrightarrow> sub h h' \<Longrightarrow> (\<And>u. P' u \<Longrightarrow> P u) \<Longrightarrow> list_all2 (copied ats hs at h' P') xs ys"
  by (erule list_all2_mono) (rule copied_sub)

text \<open>The atoms of the runtime: blocks without fields, one for each tag.\<close>

definition atoms :: "u32 \<Rightarrow> 'a mlheap_scheme \<Rightarrow> bool" where
  "atoms at h \<longleftrightarrow> (\<forall>tag < 256. block_with at h (at + 4 * tag + 4) tag 0)"

lemma atoms_sub: "atoms at h \<Longrightarrow> sub h h' \<Longrightarrow> atoms at h'"
  unfolding atoms_def by (blast intro: sub_block)

definition ready ::
  "u32 \<Rightarrow> 'a mlheap_scheme \<Rightarrow> u32 \<Rightarrow> bool \<Rightarrow> u32 set \<Rightarrow> val list \<Rightarrow> nat \<Rightarrow> nat \<Rightarrow> intern_state \<Rightarrow> bool" where
  "ready ats hs at ign C objs N m s \<longleftrightarrow> room at s m \<and> C \<inter> rgn (intern_dest s) m = {} \<and> atoms at (within C (i_heap s))
     \<and> list_all2 (copied ats hs at (within C (i_heap s)) (\<lambda>u. size u \<le> N)) objs (objs_read s)
     \<and> (ign \<longrightarrow> intern_obj_table s = None)"

lemma ready_moved:
  assumes r: "ready ats hs at ign C objs N (w + m) s" and m: "moved s b w A new' s'"
    and C: "A \<inter> C = {}" "C \<subseteq> C'" "C' \<inter> rgn (word_at (intern_dest s) w) m = {}"
    and new: "list_all2 (copied ats hs at (within C' (i_heap s')) (\<lambda>u. size u \<le> N')) new new'" and N: "N' \<le> N"
  shows "ready ats hs at ign C' (objs @ new) N' m s'"
proof -
  have s: "sub (within C (i_heap s)) (within C' (i_heap s'))"
    using sub_within[of "i_heap s" A "i_heap s'" C C'] m C by (auto simp: moved_def)
  have "list_all2 (copied ats hs at (within C' (i_heap s')) (\<lambda>u. size u \<le> N')) objs (objs_read s)"
  proof (rule copied_list_sub)
    show "list_all2 (copied ats hs at (within C (i_heap s)) (\<lambda>u. size u \<le> N)) objs (objs_read s)" using r by (simp add: ready_def)
  qed (use s N in auto)
  then show ?thesis using r m C(3) moved_room[OF m] new atoms_sub[OF _ s]
    by (auto simp: ready_def moved_def intro: list_all2_appendI)
qed

lemma ready_less: "ready ats hs at ign C objs N m s \<Longrightarrow> N' \<le> N \<Longrightarrow> ready ats hs at ign C objs N' m s"
  using ready_moved[of ats hs at ign C objs N 0 m s 0 "{}" "[]" s C N' "[]"] moved_refl[of s] by (simp add: ready_def)

text \<open>The place the result goes to is outside the closed part and the region.\<close>

definition free_dest :: "u32 set \<Rightarrow> nat \<Rightarrow> u32 option \<Rightarrow> intern_state \<Rightarrow> bool" where
  "free_dest C m dest s \<longleftrightarrow> (\<forall>a. dest = Some a \<longrightarrow> a \<notin> C \<and> a \<notin> rgn (intern_dest s) m \<and> load (i_heap s) a \<noteq> None)"

lemma free_moved:
  "free_dest C m dest s \<Longrightarrow> moved s b 0 A new s' \<Longrightarrow> free_dest C m dest s'"
  by (auto simp: free_dest_def moved_def only_def)

lemma store_dest_ok:
  assumes "free_dest C m dest s"
  shows "\<exists>s'. store_dest dest v s = Some s' \<and> moved s 0 0 (set_option dest) [] s' \<and> (\<forall>a. dest = Some a \<longrightarrow> load (i_heap s') a = Some v)"
proof (cases dest)
  case None
  then show ?thesis using moved_refl by (simp add: store_dest_def)
next
  case (Some a)
  then obtain h where "store a v (i_heap s) = Some h" "only (i_heap s) {a} h" "load h a = Some v"
    using assms store_mapped[of "i_heap s" a v] by (auto simp: free_dest_def)
  then show ?thesis using Some moved_heap(1) by (auto simp: store_dest_def)
qed

section \<open>What reading gives\<close>

definition rebuilt ::
  "u32 \<Rightarrow> 'a mlheap_scheme \<Rightarrow> u32 \<Rightarrow> u32 set \<Rightarrow> u32 option \<Rightarrow> nat \<Rightarrow> nat \<Rightarrow> val list \<Rightarrow> mltree \<Rightarrow> intern_state
   \<Rightarrow> val \<Rightarrow> intern_state \<Rightarrow> bool" where
  "rebuilt ats hs at C dest b w new t s v s' \<longleftrightarrow>
     (\<exists>new'. moved s b w (rgn (intern_dest s) w \<union> set_option dest) new' s'
        \<and> list_all2 (copied ats hs at (within (C \<union> rgn (intern_dest s) w) (i_heap s')) (\<lambda>_. True)) new new')
     \<and> (\<forall>a. dest = Some a \<longrightarrow> load (i_heap s') a = Some v)
     \<and> repr at (within (C \<union> rgn (intern_dest s) w) (i_heap s')) v t"

lemma intern_rec_step:
  "intern_rec (Suc n) ca at dest s = andthen (next_item ca s) (\<lambda>(item, s).
       case item of
         Item v \<Rightarrow> map_option (\<lambda>s. Inr (v, s)) (store_dest dest v s)
       | Block tag sz \<Rightarrow>
           if sz = 0 then map_option (\<lambda>s. Inr (at + 4 * tag + 4, s)) (store_dest dest (at + 4 * tag + 4) s)
           else do {
             s \<leftarrow> store_dest dest (intern_dest s + 4) s;
             (v, s) \<leftarrow> intern_new sz tag s;
             andthen (intern_fields n ca at v (unat sz) s) (\<lambda>s. Some (Inr (v, s))) }
       | Infix ofs \<Rightarrow>
           andthen (intern_rec n ca at None s) (\<lambda>(clos, s).
             map_option (\<lambda>s. Inr (clos + ofs, s)) (store_dest dest (clos + ofs) s)))"
  by (cases "read8u s") (auto simp: next_item_def split: prod.split)

lemma item_done:
  assumes n: "next_item ca s = Some (Inr (Item v, s1))" and m: "moved s b w (rgn (intern_dest s) w) new' s1"
    and r: "repr at (within (C \<union> rgn (intern_dest s) w) (i_heap s1)) v t"
    and new: "list_all2 (copied ats hs at (within (C \<union> rgn (intern_dest s) w) (i_heap s1)) (\<lambda>_. True)) new new'"
    and f: "free_dest C (w + k) dest s"
  shows "\<exists>s'. intern_rec (Suc i) ca at dest s = Some (Inr (v, s')) \<and> rebuilt ats hs at C dest b w new t s v s'"
proof -
  let ?C = "C \<union> rgn (intern_dest s) w"
  have "free_dest C 0 dest s1" using f m by (auto simp: free_dest_def moved_def only_def)
  from store_dest_ok[OF this, of v] obtain s2 where
    s2: "store_dest dest v s1 = Some s2" "moved s1 0 0 (set_option dest) [] s2"
      "\<forall>a. dest = Some a \<longrightarrow> load (i_heap s2) a = Some v" by blast
  have "?C \<inter> set_option dest = {}" using f by (auto simp: free_dest_def rgn_split)
  then have s: "sub (within ?C (i_heap s1)) (within ?C (i_heap s2))"
    using sub_within[of "i_heap s1" "set_option dest" "i_heap s2" ?C ?C] s2(2) by (simp add: moved_def)
  have "moved s b w (rgn (intern_dest s) w \<union> set_option dest) new' s2" using moved_trans[OF m s2(2)] by simp
  moreover have "list_all2 (copied ats hs at (within ?C (i_heap s2)) (\<lambda>_. True)) new new'"
    by (rule copied_list_sub[OF new s]) simp
  ultimately show ?thesis using s2 n repr_sub(1)[OF r s] by (auto simp: intern_rec_step rebuilt_def simp del: intern_rec.simps)
qed

lemma Val_long_Long_val: "Is_long v \<Longrightarrow> Val_long (Long_val v) = v"
proof -
  assume "Is_long v"
  then have "odd v" by (simp add: Is_long_def and_one_eq mod_2_eq_odd)
  then have o: "sint v mod 2 = 1" by (metis bit_0 bit_sint_iff even_iff_mod_2_eq_zero not_mod_2_eq_0_eq_1 zero_le)
  have "Val_long (Long_val v) = word_of_int (2 * sint (Long_val v) + 1)"
    by (simp add: Val_long_def push_bit_eq_mult)
  also have "2 * sint (Long_val v) + 1 = sint v" using o by (simp add: sint_Long_val minus_mod_eq_mult_div[symmetric])
  finally show ?thesis by simp
qed

lemma tbl_room_mono: "tbl_room s n \<Longrightarrow> k \<le> n \<Longrightarrow> tbl_room s k"
  by (auto simp: tbl_room_def split: option.splits)

lemma read_shared_ok:
  assumes r: "ready ats hs at ign C objs N m s" and t: "tbl_room s n" and sh: "shared_at ign v objs = Some d"
    and v: "repr ats hs v t" "size t \<le> N"
  shows "\<exists>x. read_shared d (skip k s) = Some (x, skip k s) \<and> repr at (within C (i_heap s)) x t"
proof -
  define i where "i = obj_index v objs"
  have d: "d = word_of_nat (length objs - i)" "v \<in> set objs" using sh by (auto simp: shared_at_def i_def split: if_splits)
  have i: "i < length objs" "objs ! i = v" using obj_index[OF d(2)] by (simp_all add: i_def)
  have l: "list_all2 (copied ats hs at (within C (i_heap s)) (\<lambda>u. size u \<le> N)) objs (objs_read s)" using r by (simp add: ready_def)
  obtain tbl where tbl: "intern_obj_table s = Some tbl" using l i(1) by (cases "intern_obj_table s") (auto simp: objs_read_def)
  then have c: "unat (i_obj_counter s) \<le> length tbl" using t by (simp add: tbl_room_def)
  then have len: "length objs = unat (i_obj_counter s)" "objs_read s = take (length objs) tbl"
    using list_all2_lengthD[OF l] tbl by (simp_all add: objs_read_def)
  have "unat d = length objs - i" using len(1) unat32_less[of "i_obj_counter s"] by (simp add: d(1) unat_word32)
  then have u: "unat (i_obj_counter s - d) = i" using i(1) len(1) unat_sub32[of d "i_obj_counter s"] by simp
  have "copied ats hs at (within C (i_heap s)) (\<lambda>u. size u \<le> N) (objs ! i) (objs_read s ! i)"
    using l i(1) by (simp add: list_all2_conv_all_nth)
  then have "repr at (within C (i_heap s)) (tbl ! i) t" using v i len(2) by (simp add: copied_def)
  moreover have "read_shared d (skip k s) = Some (tbl ! i, skip k s)" using tbl u i(1) len(1) c by (simp add: read_shared_def rd_def)
  ultimately show ?thesis by blast
qed

text \<open>A leaf that was not shared: the object is new and complete.\<close>

lemma copied_leaf: "repr ats hs v t \<Longrightarrow> repr at h x t \<Longrightarrow> copied ats hs at h P v x"
  using repr_unique(1) by (fastforce simp: copied_def)

lemma note_new_list: "R v x \<Longrightarrow> list_all2 R (note_new ign v) (note_new ign x)"
  by (simp add: note_new_def)

lemma shared_done:
  assumes r: "ready ats hs at ign C objs (size t) m s" and t: "tbl_room s n" and sh: "shared_at ign v objs = Some d"
    and v: "repr ats hs v t" and a: "ahead s (shared_code d @ rest)" and f: "free_dest C k dest s"
  shows "\<exists>v' s'. intern_rec (Suc i) ca at dest s = Some (Inr (v', s'))
    \<and> rebuilt ats hs at C dest (length (shared_code d)) 0 [] t s v' s'"
proof -
  obtain x where x: "read_shared d (skip (length (shared_code d)) s) = Some (x, skip (length (shared_code d)) s)"
      "repr at (within C (i_heap s)) x t"
    using read_shared_ok[OF r t sh v order_refl] by blast
  have n: "next_item ca s = Some (Inr (Item x, skip (length (shared_code d)) s))"
    by (simp add: next_shared[OF a] x(1))
  show ?thesis
    using item_done[OF n, of "length (shared_code d)" 0 "[]" at C t ats hs "[]" k dest i] moved_skip x(2) f by auto
qed

text \<open>A leaf read for the first time.\<close>

lemma leaf_done:
  assumes n: "next_item ca s = Some (Inr (Item x, s1))" and m: "moved s b w (rgn (intern_dest s) w) (note_new ign x) s1"
    and r: "repr at (within (rgn (intern_dest s) w) (i_heap s1)) x t" and v: "repr ats hs v t" and f: "free_dest C (w + k) dest s"
  shows "\<exists>v' s'. intern_rec (Suc i) ca at dest s = Some (Inr (v', s'))
    \<and> rebuilt ats hs at C dest b w (note_new ign v) t s v' s'"
proof -
  let ?H = "within (C \<union> rgn (intern_dest s) w) (i_heap s1)"
  have H: "repr at ?H x t" using repr_sub(1)[OF r sub_within_mono[of "rgn (intern_dest s) w" "C \<union> rgn (intern_dest s) w"]] by simp
  have "list_all2 (copied ats hs at ?H (\<lambda>_. True)) (note_new ign v) (note_new ign x)"
    by (intro note_new_list copied_leaf[OF v H])
  then show ?thesis using item_done[OF n m H _ f] by blast
qed

text \<open>What a block has when its fields are read: a closed header, and slots that are still open.\<close>

lemma block_opened:
  assumes r: "ready ats hs at ign C objs N (Suc q + m) s" and f: "free_dest C (Suc q + m) dest s"
    and sz: "unat sz = q" "q < 4194304" and t: "tbl_fits ign s (length (note_new ign v) + k)"
    and N: "N' \<le> N" "\<And>u. repr ats hs v u \<Longrightarrow> \<not> size u \<le> N'"
  shows "\<exists>s1 s2. store_dest dest (intern_dest s + 4) s = Some s1 \<and> intern_new sz tag s1 = Some (intern_dest s + 4, s2)
    \<and> moved s 0 (Suc q) (set_option dest \<union> {intern_dest s}) (note_new ign (intern_dest s + 4)) s2
    \<and> (\<forall>a. dest = Some a \<longrightarrow> load (i_heap s2) a = Some (intern_dest s + 4))
    \<and> load (i_heap s2) (intern_dest s) = Some (Make_header sz tag (intern_color s))
    \<and> ready ats hs at ign (insert (intern_dest s) C) (objs @ note_new ign v) N' m s2
    \<and> tbl_room s2 k \<and> mapped (i_heap s2) (intern_dest s + 4) q"
proof -
  define D where "D = intern_dest s"
  have rm: "room at s (Suc q + m)" and Cd: "C \<inter> rgn D (Suc q + m) = {}" using r by (simp_all add: ready_def D_def)
  have "free_dest C 0 dest s" using f by (simp add: free_dest_def)
  from store_dest_ok[OF this, of "D + 4"] obtain s1 where
    s1: "store_dest dest (D + 4) s = Some s1" "moved s 0 0 (set_option dest) [] s1"
      "\<forall>a. dest = Some a \<longrightarrow> load (i_heap s1) a = Some (D + 4)" by blast
  have D1: "intern_dest s1 = D" "intern_color s1 = intern_color s" using s1(2) by (simp_all add: moved_def D_def)
  have rm1: "room at s1 (Suc (unat sz) + m)" using moved_room[OF s1(2), of at "Suc q + m"] rm sz by simp
  have tf: "tbl_fits ign s1 (length (note_new ign (intern_dest s1 + 4)) + k)"
    using moved_fits[OF s1(2), of ign "length (note_new ign v) + k"] t by (cases ign) (simp_all add: note_new_def)
  obtain s2 where s2: "intern_new sz tag s1 = Some (D + 4, s2)" "moved s1 0 (Suc q) {D} (note_new ign (D + 4)) s2"
      "load (i_heap s2) D = Some (Make_header sz tag (intern_color s))"
    using intern_new_ok[OF rm1 tf, of tag] sz D1 by auto
  have m: "moved s 0 (Suc q) (set_option dest \<union> {D}) (note_new ign (D + 4)) s2"
    using moved_trans[OF s1(2) s2(2)] by simp
  have Din: "D \<in> rgn D (Suc q + m)" "D \<in> rgn D (Suc q)" by (simp_all add: rgn_Suc)
  have ad: "load (i_heap s2) a = Some (D + 4)" if "dest = Some a" for a
  proof -
    have "a \<noteq> D" using f that Din by (auto simp: free_dest_def D_def)
    then show ?thesis using s1(3) that s2(2) only_load[of "i_heap s1" "{D}" "i_heap s2" a] by (simp add: moved_def)
  qed
  have "ready ats hs at ign (insert D C) (objs @ note_new ign v) N' m s2"
  proof (rule ready_moved[OF r m])
    show "(set_option dest \<union> {D}) \<inter> C = {}" using f Cd Din by (auto simp: free_dest_def)
    show "insert D C \<inter> rgn (word_at (intern_dest s) (Suc q)) m = {}"
      using Cd rgn_split[of D "Suc q" m] rgn_disjoint[of "Suc q" m D] rm Din(2) by (auto simp: room_def D_def)
    show "list_all2 (copied ats hs at (within (insert D C) (i_heap s2)) (\<lambda>u. size u \<le> N')) (note_new ign v) (note_new ign (D + 4))"
      by (rule note_new_list) (use N(2) in \<open>auto simp: copied_def\<close>)
  qed (use N(1) in auto)
  moreover have "tbl_room s2 k"
    using m t by (auto simp: moved_def tbl_fits_def note_new_def split: if_splits)
  moreover have "mapped (i_heap s2) (D + 4) q"
    unfolding mapped_def word_at_simps
  proof (intro allI impI)
    fix k assume "k < q"
    then have "load (i_heap s) (word_at D (Suc k)) \<noteq> None" using rm unfolding room_def mapped_def D_def by simp
    moreover have "only (i_heap s) (set_option dest \<union> {D}) (i_heap s2)" using m by (simp add: moved_def)
    ultimately show "load (i_heap s2) (word_at D (Suc k)) \<noteq> None" by (simp only: only_mapped simp_thms)
  qed
  ultimately show ?thesis using s1(1) s2(1,3) m ad unfolding D_def[symmetric] by blast
qed

text \<open>A block read for the first time, when its fields can be read.\<close>

lemma block_done:
  assumes v: "repr ats hs v (TBlock tag ts)" and ni: "next_item ca s = Some (Inr (Block tag sz, s0))"
    and ms: "moved s b0 0 {} [] s0" and q: "unat sz = length ts" "ts \<noteq> []"
    and r: "ready ats hs at ign C objs (size (TBlock tag ts)) (Suc (length ts) + w1 + m) s"
    and f: "free_dest C (Suc (length ts) + w1 + m) dest s"
    and t: "tbl_room s (length (note_new ign v) + length n1)"
    and fields: "\<And>s2 D. D = intern_dest s \<Longrightarrow> intern_dest s2 = word_at D (Suc (length ts)) \<Longrightarrow>
      ready ats hs at ign (insert D C) (objs @ note_new ign v) (size_list size ts) (w1 + m) s2 \<Longrightarrow>
      tbl_room s2 (length n1) \<Longrightarrow> mapped (i_heap s2) (D + 4) (length ts) \<Longrightarrow> (\<And>bs. ahead s0 bs \<Longrightarrow> ahead s2 bs) \<Longrightarrow>
      length ts < 1073741824 \<Longrightarrow> rgn (D + 4) (length ts) \<inter> insert D C = {} \<Longrightarrow>
      rgn (D + 4) (length ts) \<inter> rgn (intern_dest s2) (w1 + m) = {} \<Longrightarrow>
      \<exists>new' s3. intern_fields k ca at (D + 4) (length ts) s2 = Some (Inr s3)
        \<and> moved s2 b1 w1 (rgn (intern_dest s2) w1 \<union> rgn (D + 4) (length ts)) new' s3
        \<and> list_all2 (copied ats hs at (within (insert D C \<union> rgn (intern_dest s2) w1 \<union> rgn (D + 4) (length ts)) (i_heap s3)) (\<lambda>_. True)) n1 new'
        \<and> repr_fields at (within (insert D C \<union> rgn (intern_dest s2) w1 \<union> rgn (D + 4) (length ts)) (i_heap s3)) (D + 4) ts"
  shows "\<exists>v' s'. intern_rec (Suc k) ca at dest s = Some (Inr (v', s'))
    \<and> rebuilt ats hs at C dest (b0 + b1) (Suc (length ts) + w1) (note_new ign v @ n1) (TBlock tag ts) s v' s'"
proof -
  define q where "q = length ts"
  define D where "D = intern_dest s"
  have D0: "intern_dest s0 = D" "intern_color s0 = intern_color s" using ms by (simp_all add: moved_def D_def)
  have qlt: "q < 4194304"
  proof -
    obtain hdr where "unat (Wosize_hd hdr) = q" using v block_withD unfolding q_def by (metis repr.simps(4))
    then show ?thesis using unat32_less[of hdr] by (auto simp: Wosize_hd_def unat_drop_bit32)
  qed
  have r0: "ready ats hs at ign C objs (size (TBlock tag ts)) (Suc q + (w1 + m)) s0"
    using ready_moved[OF _ ms, of ats hs at ign C objs "size (TBlock tag ts)" "Suc q + w1 + m" C "size (TBlock tag ts)" "[]"] r
    by (simp add: ready_def q_def add.assoc)
  have f0: "free_dest C (Suc q + (w1 + m)) dest s0" using free_moved[OF f ms] by (simp add: q_def add.assoc)
  have t0: "tbl_fits ign s0 (length (note_new ign v) + length n1)" using r t ms by (auto simp: tbl_fits_def ready_def moved_def)
  have N: "size_list size ts \<le> size (TBlock tag ts)" by simp
  have no: "\<not> size u \<le> size_list size ts" if "repr ats hs v u" for u using repr_unique(1)[OF that v] by simp
  obtain s1 s2 where s: "store_dest dest (D + 4) s0 = Some s1" "intern_new sz tag s1 = Some (D + 4, s2)"
      "moved s0 0 (Suc q) (set_option dest \<union> {D}) (note_new ign (D + 4)) s2"
      "\<forall>a. dest = Some a \<longrightarrow> load (i_heap s2) a = Some (D + 4)"
      "load (i_heap s2) D = Some (Make_header sz tag (intern_color s))"
      "ready ats hs at ign (insert D C) (objs @ note_new ign v) (size_list size ts) (w1 + m) s2"
      "tbl_room s2 (length n1)" "mapped (i_heap s2) (D + 4) q"
    using block_opened[OF r0 f0 _ qlt t0 N no, of sz tag] q(1) unfolding D0 q_def by blast
  have rm: "room at s0 (Suc q + (w1 + m))" and CD: "C \<inter> rgn D (Suc q + (w1 + m)) = {}" using r0 D0 by (simp_all add: ready_def)
  have R: "rgn D (Suc q + j) = insert D (rgn (D + 4) q) \<union> rgn (word_at D (Suc q)) j" for j
    using rgn_split[of D "Suc q" j] by (simp add: rgn_Suc)
  have Rj: "insert D (rgn (D + 4) q) \<inter> rgn (word_at D (Suc q)) (w1 + m) = {}" "D \<notin> rgn (D + 4) q"
    using rgn_disjoint[of "Suc q" "w1 + m" D] rgn_disjoint[of 1 q D] rm by (simp_all add: rgn_Suc room_def)
  have D2: "intern_dest s2 = word_at D (Suc q)" using s(3) D0 by (simp add: moved_def)
  let ?C2 = "insert D C \<union> rgn (word_at D (Suc q)) w1 \<union> rgn (D + 4) q"
  have "\<exists>new' s3. intern_fields k ca at (D + 4) (length ts) s2 = Some (Inr s3)
      \<and> moved s2 b1 w1 (rgn (intern_dest s2) w1 \<union> rgn (D + 4) (length ts)) new' s3
      \<and> list_all2 (copied ats hs at (within (insert D C \<union> rgn (intern_dest s2) w1 \<union> rgn (D + 4) (length ts)) (i_heap s3)) (\<lambda>_. True)) n1 new'
      \<and> repr_fields at (within (insert D C \<union> rgn (intern_dest s2) w1 \<union> rgn (D + 4) (length ts)) (i_heap s3)) (D + 4) ts"
  proof (rule fields[OF D_def _ s(6,7)])
    show "ahead s2 bs" if "ahead s0 bs" for bs using moved_ahead[OF s(3)] that by simp
  qed (use D2 s(8) qlt Rj CD R[of "w1 + m"] in \<open>auto simp: q_def\<close>)
  then obtain new' s3 where s3: "intern_fields k ca at (D + 4) q s2 = Some (Inr s3)"
      "moved s2 b1 w1 (rgn (word_at D (Suc q)) w1 \<union> rgn (D + 4) q) new' s3"
      "list_all2 (copied ats hs at (within ?C2 (i_heap s3)) (\<lambda>_. True)) n1 new'"
      "repr_fields at (within ?C2 (i_heap s3)) (D + 4) ts"
    using D2 by (auto simp: q_def)
  have o3: "only (i_heap s2) (rgn (word_at D (Suc q)) w1 \<union> rgn (D + 4) q) (i_heap s3)" using s3(2) by (simp add: moved_def)
  have sub: "rgn (word_at D (Suc q)) w1 \<subseteq> rgn (word_at D (Suc q)) (w1 + m)" by (simp add: rgn_split)
  have Cq: "?C2 = C \<union> rgn D (Suc q + w1)" using R[of w1] by auto
  have ld: "load (i_heap s3) D = Some (Make_header sz tag (intern_color s0))"
    using only_load[OF o3, of D] Rj sub s(5) D0 by auto
  have ad: "load (i_heap s3) a = Some (D + 4)" if "dest = Some a" for a
  proof -
    have "a \<notin> rgn D (Suc q + (w1 + m))" using f0 that D0 by (auto simp: free_dest_def)
    then show ?thesis using only_load[OF o3, of a] s(4) that sub R[of "w1 + m"] by auto
  qed
  have m: "moved s (b0 + b1) (Suc q + w1) (rgn D (Suc q + w1) \<union> set_option dest) (note_new ign (D + 4) @ new') s3"
    using moved_mono[OF moved_trans[OF ms moved_trans[OF s(3) s3(2)]], of "rgn D (Suc q + w1) \<union> set_option dest"] R[of w1] by auto
  have o: "only (i_heap s0) (set_option dest \<union> {D} \<union> (rgn (word_at D (Suc q)) w1 \<union> rgn (D + 4) q)) (i_heap s3)"
    using moved_trans[OF s(3) s3(2)] by (simp add: moved_def Un_assoc)
  have "block_with at (within ?C2 (i_heap s3)) (D + 4) tag q"
    using filled_block[OF rm o, of sz tag ?C2] ld q qlt D0 v tag_other by (auto simp: q_def Object_tag_def word_less_nat_alt)
  then have rp: "repr at (within ?C2 (i_heap s3)) (D + 4) (TBlock tag ts)" using v s3(4) by (simp add: q_def)
  have "list_all2 (copied ats hs at (within ?C2 (i_heap s3)) (\<lambda>_. True)) (note_new ign v @ n1) (note_new ign (D + 4) @ new')"
    by (intro list_all2_appendI note_new_list copied_leaf[OF v rp] s3(3))
  moreover have "intern_rec (Suc k) ca at dest s = Some (Inr (D + 4, s3))"
    using q s(1,2) s3(1) unfolding intern_rec_step ni by (auto simp: D0 q_def)
  ultimately show ?thesis using m rp ad unfolding rebuilt_def D_def[symmetric] q_def[symmetric] Cq by blast
qed

section \<open>The reader reads the serialisation\<close>

lemma ser_new:
  assumes "ser h ign v t objs = (bs, objs', w)" obtains new where "objs' = objs @ new"
  using ser_objs(1)[OF assms] by blast

lemma ser_fields_new:
  assumes "ser_fields h ign a ts objs = (bs, objs', w)" obtains new where "objs' = objs @ new"
  using ser_objs(2)[OF assms] by blast

theorem intern_rec_ok:
  fixes hs :: "'a mlheap_scheme"
  shows "repr ats hs v t \<Longrightarrow> ser hs ign v t objs = (bs, objs', w) \<Longrightarrow> ahead s (bs @ rest) \<Longrightarrow>
      ready ats hs at ign C objs (size t) (w + m) s \<Longrightarrow> free_dest C (w + m) dest s \<Longrightarrow>
      tbl_room s (length objs' - length objs) \<Longrightarrow> tdepth t < n \<Longrightarrow>
      \<exists>new v' s'. objs' = objs @ new \<and> intern_rec n ca at dest s = Some (Inr (v', s'))
        \<and> rebuilt ats hs at C dest (length bs) w new t s v' s'"
    "repr_fields ats hs b ts \<Longrightarrow> ser_fields hs ign b ts objs = (bs, objs', w) \<Longrightarrow> ahead s (bs @ rest) \<Longrightarrow>
      ready ats hs at ign C objs (size_list size ts) (w + m) s \<Longrightarrow>
      length ts < 1073741824 \<Longrightarrow> rgn a (length ts) \<inter> C = {} \<Longrightarrow> rgn a (length ts) \<inter> rgn (intern_dest s) (w + m) = {} \<Longrightarrow>
      mapped (i_heap s) a (length ts) \<Longrightarrow>
      tbl_room s (length objs' - length objs) \<Longrightarrow> tdepths ts < n \<Longrightarrow>
      \<exists>new new' s'. objs' = objs @ new \<and> intern_fields n ca at a (length ts) s = Some (Inr s')
        \<and> moved s (length bs) w (rgn (intern_dest s) w \<union> rgn a (length ts)) new' s'
        \<and> list_all2 (copied ats hs at (within (C \<union> rgn (intern_dest s) w \<union> rgn a (length ts)) (i_heap s')) (\<lambda>_. True)) new new'
        \<and> repr_fields at (within (C \<union> rgn (intern_dest s) w \<union> rgn a (length ts)) (i_heap s')) a ts"
proof (induction hs ign v t objs and hs ign b ts objs arbitrary: n s bs objs' w C m dest rest and n s bs objs' w C m a rest
    rule: ser_ser_fields.induct)
  case (1 h ign v i objs)
  then obtain k where n: "n = Suc k" by (cases n) auto
  have e: "bs = int_code (Long_val v)" "objs' = objs" "w = 0" using 1(2) by auto
  have ni: "next_item ca s = Some (Inr (Item v, skip (length bs) s))"
    using next_int[of s "Long_val v" rest ca] 1(1,3) Val_long_Long_val e by simp
  show ?case
    using item_done[OF ni, of "length bs" 0 "[]" at C "TInt i" ats h "[]" m dest k] moved_skip 1(1,5) e by (auto simp: n)
next
  case (2 h ign v str objs)
  then obtain k where n: "n = Suc k" by (cases n) auto
  show ?case
  proof (cases "shared_at ign v objs")
    case (Some d)
    then have e: "bs = shared_code d" "objs' = objs" "w = 0" using 2(2) by auto
    show ?thesis using shared_done[OF 2(4,6) Some 2(1) _ 2(5)] 2(3) e by (auto simp: n)
  next
    case None
    then have e: "bs = str_code str" "objs' = note_obj ign v objs" "w = 2 + length str div 4" using 2(2) by auto
    have l: "length str < 16777212" using 2(1) by simp
    obtain j where j: "next_item ca s = map_option (\<lambda>(v, s). Inr (Item v, s)) (read_string (word_of_nat (length str)) (skip j s))"
        "ahead (skip j s) (str @ rest)" "length (str_code str) = j + length str"
      using next_str[of s str rest ca] 2(3) e(1) l by auto
    have tf: "tbl_fits ign (skip j s) (length (note_new ign (intern_dest (skip j s) + 4)) + 0)"
      using 2(4,6) moved_skip[of s j] e(2) by (auto simp: tbl_fits_def ready_def note_obj_new note_new_def moved_def)
    have rm: "room at (skip j s) (2 + length str div 4 + m)"
      using moved_room[OF moved_skip[of s j], of at "w + m"] 2(4) e(3) by (simp add: ready_def)
    obtain s1 where s1: "read_string (word_of_nat (length str)) (skip j s) = Some (intern_dest s + 4, s1)"
        "moved (skip j s) (length str) w (rgn (intern_dest s) w) (note_new ign (intern_dest s + 4)) s1"
        "repr at (within (rgn (intern_dest s) w) (i_heap s1)) (intern_dest s + 4) (TStr str)"
      using read_string_ok[OF rm tf j(2) l] e(3) by auto
    have ni: "next_item ca s = Some (Inr (Item (intern_dest s + 4), s1))" by (simp add: j(1) s1(1))
    have mv: "moved s (length bs) w (rgn (intern_dest s) w) (note_new ign (intern_dest s + 4)) s1"
      using moved_trans[OF moved_skip s1(2)] by (simp add: e(1) j(3))
    show ?thesis using leaf_done[OF ni mv s1(3) 2(1,5)] by (auto simp: n e(2) note_obj_new)
  qed
next
  case (3 h ign v d objs)
  then obtain k where n: "n = Suc k" by (cases n) auto
  show ?case
  proof (cases "shared_at ign v objs")
    case (Some sd)
    then have e: "bs = shared_code sd" "objs' = objs" "w = 0" using 3(2) by auto
    show ?thesis using shared_done[OF 3(4,6) Some 3(1) _ 3(5)] 3(3) e by (auto simp: n)
  next
    case None
    then have e: "bs = dbl_code d" "objs' = note_obj ign v objs" "w = 3" using 3(2) by auto
    obtain lo hi where d: "d = wcat hi lo" using 3(1) by (auto simp: Double_val_def split: bind_splits)
    have a: "ahead (skip 1 s) ((word_bytes lo @ word_bytes hi) @ [])"
      using next_dbl(2)[of s d rest] 3(3) e(1) by (simp add: d ucast_wcat)
    have tf: "tbl_fits ign (skip 1 s) (length (note_new ign (intern_dest (skip 1 s) + 4)) + 0)"
      using 3(4,6) moved_skip[of s 1] e(2) by (auto simp: tbl_fits_def ready_def note_obj_new note_new_def moved_def)
    have rm: "room at (skip 1 s) (3 + m)"
      using moved_room[OF moved_skip[of s 1], of at "w + m"] 3(4) e(3) by (simp add: ready_def)
    obtain s1 where s1: "read_double True (skip 1 s) = Some (intern_dest s + 4, s1)"
        "moved (skip 1 s) 8 w (rgn (intern_dest s) w) (note_new ign (intern_dest s + 4)) s1"
        "repr at (within (rgn (intern_dest s) w) (i_heap s1)) (intern_dest s + 4) (TDbl d)"
      using read_double_ok[OF rm tf a] e(3) d by auto
    have ni: "next_item ca s = Some (Inr (Item (intern_dest s + 4), s1))"
      using next_dbl(1)[of s d rest ca] 3(3) e(1) s1(1) by simp
    have mv: "moved s (length bs) w (rgn (intern_dest s) w) (note_new ign (intern_dest s + 4)) s1"
      using moved_trans[OF moved_skip s1(2)] by (simp add: e(1) dbl_code_def)
    show ?thesis using leaf_done[OF ni mv s1(3) 3(1,5)] by (auto simp: n e(2) note_obj_new)
  qed
next
  case (4 h ign v tag ts objs)
  then obtain k where n: "n = Suc k" by (cases n) auto
  obtain hdr where hdr: "Hd_val h v = Some hdr" "Tag_hd hdr = tag" "unat (Wosize_hd hdr) = length ts"
    using 4(2) block_withD by (metis repr.simps(4))
  have tag: "tag < Object_tag" and fr: "repr_fields ats h v ts" using 4(2) by auto
  have tag256: "tag < 256" using tag by (simp add: Object_tag_def word_less_nat_alt)
  have ho: "hd_of h v = hdr" using hdr(1) by (simp add: hd_of_def)
  show ?case
  proof (cases "ts = []")
    case True
    then have e: "bs = atom_code hdr" "objs' = objs" "w = 0" and z: "Wosize_hd hdr = 0"
      using 4(3) hdr(3) by (simp_all add: ho word_unat_eq_iff)
    let ?s1 = "skip (length bs) s"
    have ni: "next_item ca s = Some (Inr (Block tag 0, ?s1))"
      using next_atom[of s hdr rest ca] 4(4) z by (simp add: e hdr(2))
    have f1: "free_dest C 0 dest ?s1" using 4(6) by (simp add: free_dest_def)
    obtain s2 where s2: "store_dest dest (at + 4 * tag + 4) ?s1 = Some s2" "moved ?s1 0 0 (set_option dest) [] s2"
        "\<forall>a. dest = Some a \<longrightarrow> load (i_heap s2) a = Some (at + 4 * tag + 4)"
      using store_dest_ok[OF f1] by blast
    have "C \<inter> set_option dest = {}" using 4(6) by (auto simp: free_dest_def)
    then have sb: "sub (within C (i_heap s)) (within C (i_heap s2))"
      using sub_within[of "i_heap s" "set_option dest" "i_heap s2" C C] s2(2) by (simp add: moved_def)
    have "atoms at (within C (i_heap s2))" using 4(5) atoms_sub[OF _ sb] by (simp add: ready_def)
    then have "repr at (within C (i_heap s2)) (at + 4 * tag + 4) (TBlock tag ts)"
      using tag tag256 True by (simp add: atoms_def)
    moreover have "moved s (length bs) 0 (set_option dest) [] s2" using moved_trans[OF moved_skip s2(2)] by simp
    moreover have "intern_rec n ca at dest s = Some (Inr (at + 4 * tag + 4, s2))"
      unfolding n intern_rec_step ni by (simp add: s2(1))
    ultimately show ?thesis using e s2(3) by (auto simp: rebuilt_def)
  next
    case False
    show ?thesis
    proof (cases "shared_at ign v objs")
      case (Some d)
      then have e: "bs = shared_code d" "objs' = objs" "w = 0" using 4(3) False by auto
      show ?thesis using shared_done[OF 4(5,7) Some 4(2) _ 4(6)] 4(4) e by (auto simp: n)
    next
      case None
      obtain b1 o1 w1 where sf: "ser_fields h ign v ts (note_obj ign v objs) = (b1, o1, w1)" using prod_cases3 by blast
      have e: "bs = block_code hdr @ b1" "objs' = o1" "w = Suc (length ts) + w1" using 4(3) False None by (simp_all add: sf ho)
      obtain n1 where n1: "o1 = note_obj ign v objs @ n1" using ser_fields_new[OF sf] .
      have ni: "next_item ca s = Some (Inr (Block tag (Wosize_hd hdr), skip (length (block_code hdr)) s))"
        and a0: "ahead (skip (length (block_code hdr)) s) (b1 @ rest)"
        using next_block[of s hdr "b1 @ rest"] 4(4) hdr(2) by (simp_all add: e)
      have len: "length objs' - length objs = length (note_new ign v) + length n1" using e(2) n1 by (simp add: note_obj_new)
      have "\<exists>v' s'. intern_rec (Suc k) ca at dest s = Some (Inr (v', s'))
        \<and> rebuilt ats h at C dest (length (block_code hdr) + length b1) (Suc (length ts) + w1) (note_new ign v @ n1) (TBlock tag ts) s v' s'"
      proof (rule block_done[OF 4(2) ni moved_skip hdr(3) False])
        show "ready ats h at ign C objs (size (TBlock tag ts)) (Suc (length ts) + w1 + m) s" using 4(5) e(3) by simp
        show "free_dest C (Suc (length ts) + w1 + m) dest s" using 4(6) e(3) by simp
        show "tbl_room s (length (note_new ign v) + length n1)" using 4(7) len by simp
        fix s2 D
        assume a: "intern_dest s2 = word_at D (Suc (length ts))"
          "ready ats h at ign (insert D C) (objs @ note_new ign v) (size_list size ts) (w1 + m) s2"
          "tbl_room s2 (length n1)" "mapped (i_heap s2) (D + 4) (length ts)"
          "\<And>bs. ahead (skip (length (block_code hdr)) s) bs \<Longrightarrow> ahead s2 bs"
          "length ts < 1073741824" "rgn (D + 4) (length ts) \<inter> insert D C = {}"
          "rgn (D + 4) (length ts) \<inter> rgn (intern_dest s2) (w1 + m) = {}"
        have t: "tbl_room s2 (length o1 - length (note_obj ign v objs))" using a(3) n1 by simp
        have d: "tdepths ts < k" using 4(8) n by simp
        show "\<exists>new' s3. intern_fields k ca at (D + 4) (length ts) s2 = Some (Inr s3)
          \<and> moved s2 (length b1) w1 (rgn (intern_dest s2) w1 \<union> rgn (D + 4) (length ts)) new' s3
          \<and> list_all2 (copied ats h at (within (insert D C \<union> rgn (intern_dest s2) w1 \<union> rgn (D + 4) (length ts)) (i_heap s3)) (\<lambda>_. True)) n1 new'
          \<and> repr_fields at (within (insert D C \<union> rgn (intern_dest s2) w1 \<union> rgn (D + 4) (length ts)) (i_heap s3)) (D + 4) ts"
          using 4(1)[OF False None fr sf a(5)[OF a0] a(2)[folded note_obj_new] a(6,7,8,4) t d] n1 by auto
      qed
      then show ?thesis using e n1 by (auto simp: n note_obj_new)
    qed
  qed
next
  case (5 h ign b objs)
  then show ?case using moved_refl[of s] by auto
next
  case (6 h ign b t ts objs)
  then obtain v where v: "load h b = Some v" "repr ats h v t" "repr_fields ats h (b + 4) ts" by (auto split: option.splits)
  obtain b1 o1 w1 where 1: "ser h ign v t objs = (b1, o1, w1)" using prod_cases3 by blast
  obtain b2 o2 w2 where 2: "ser_fields h ign (b + 4) ts o1 = (b2, o2, w2)" using prod_cases3 by blast
  have sf1: "(b1, o1, w1) = ser h ign (the (load h b)) t objs" using 1 v(1) by simp
  have e: "bs = b1 @ b2" "objs' = o2" "w = w1 + w2" using 6(4) v(1) by (simp_all add: 1 2)
  obtain n1 where n1: "o1 = objs @ n1" using ser_new[OF 1] .
  obtain n2 where n2: "o2 = o1 @ n2" using ser_fields_new[OF 2] .
  let ?D = "intern_dest s"
  have slots: "rgn a (length (t # ts)) = insert a (rgn (a + 4) (length ts))" by (simp add: rgn_Suc)
  have D: "rgn ?D (w + m) = rgn ?D w1 \<union> rgn (word_at ?D w1) (w2 + m)" using rgn_split[of ?D w1 "w2 + m"] e(3) by (simp add: add.assoc)
  have Dj: "rgn ?D w1 \<inter> rgn (word_at ?D w1) (w2 + m) = {}"
    using 6(6) e(3) rgn_disjoint[of w1 "w2 + m" ?D] by (simp add: ready_def room_def add.assoc)
  have CD: "C \<inter> rgn ?D (w + m) = {}" using 6(6) by (simp add: ready_def)
  have aS: "a \<notin> rgn (a + 4) (length ts)"
    using rgn_disjoint[of 1 "length ts" a] 6(7) by (simp add: rgn_Suc)
  have aD: "a \<notin> C" "a \<notin> rgn ?D (w + m)" and rS: "rgn (a + 4) (length ts) \<inter> C = {}" "rgn (a + 4) (length ts) \<inter> rgn ?D (w + m) = {}"
    using 6(8,9) slots by auto
  have rd: "ready ats h at ign C objs (size_list size (t # ts)) (w1 + (w2 + m)) s" using 6(6) e(3) by (simp add: add.assoc)
  have IH: "\<exists>new v' s'. o1 = objs @ new \<and> intern_rec n ca at (Some a) s = Some (Inr (v', s'))
      \<and> rebuilt ats h at C (Some a) (length b1) w1 new t s v' s'"
  proof (rule 6(1)[where rest = "b2 @ rest" and m = "w2 + m"])
    show "repr ats h (the (load h b)) t" "ser h ign (the (load h b)) t objs = (b1, o1, w1)" using v 1 by simp_all
    show "ahead s (b1 @ b2 @ rest)" using 6(5) e(1) by simp
    show "ready ats h at ign C objs (size t) (w1 + (w2 + m)) s"
      using ready_less[OF rd, of "size t"] by simp
    show "free_dest C (w1 + (w2 + m)) (Some a) s"
      using 6(8,9,10) slots e(3) by (auto simp: free_dest_def mapped_def add.assoc)
    show "tbl_room s (length o1 - length objs)" using 6(11) tbl_room_mono n1 n2 e(2) by auto
    show "tdepth t < n" using 6(12) by simp
  qed
  then obtain v' s1 new1 where s1: "intern_rec n ca at (Some a) s = Some (Inr (v', s1))"
      "moved s (length b1) w1 (rgn ?D w1 \<union> {a}) new1 s1" "load (i_heap s1) a = Some v'"
      "list_all2 (copied ats h at (within (C \<union> rgn ?D w1) (i_heap s1)) (\<lambda>_. True)) n1 new1"
      "repr at (within (C \<union> rgn ?D w1) (i_heap s1)) v' t"
    using n1 by (auto simp: rebuilt_def)
  let ?C1 = "insert a (C \<union> rgn ?D w1)"
  have n1': "list_all2 (copied ats h at (within ?C1 (i_heap s1)) (\<lambda>_. True)) n1 new1"
    by (rule copied_list_sub[OF s1(4) sub_within_mono]) auto
  have rd1: "ready ats h at ign ?C1 o1 (size_list size ts) (w2 + m) s1"
    unfolding n1
  proof (rule ready_moved[OF rd s1(2)])
    show "(rgn ?D w1 \<union> {a}) \<inter> C = {}" using aD CD D by auto
    show "?C1 \<inter> rgn (word_at ?D w1) (w2 + m) = {}" using aD CD D Dj by auto
    show "list_all2 (copied ats h at (within ?C1 (i_heap s1)) (\<lambda>u. size u \<le> size_list size ts)) n1 new1"
      using n1' by (rule list_all2_mono) (simp add: copied_def)
  qed auto
  have o1: "only (i_heap s) (rgn ?D w1 \<union> {a}) (i_heap s1)" and D1: "intern_dest s1 = word_at ?D w1"
    using s1(2) by (simp_all add: moved_def)
  have IH2: "\<exists>new new' s'. o2 = o1 @ new \<and> intern_fields n ca at (a + 4) (length ts) s1 = Some (Inr s')
        \<and> moved s1 (length b2) w2 (rgn (intern_dest s1) w2 \<union> rgn (a + 4) (length ts)) new' s'
        \<and> list_all2 (copied ats h at (within (?C1 \<union> rgn (intern_dest s1) w2 \<union> rgn (a + 4) (length ts)) (i_heap s')) (\<lambda>_. True)) new new'
        \<and> repr_fields at (within (?C1 \<union> rgn (intern_dest s1) w2 \<union> rgn (a + 4) (length ts)) (i_heap s')) (a + 4) ts"
  proof (rule 6(2)[OF sf1 refl v(3) 2, where rest = rest and m = m])
    show "ahead s1 (b2 @ rest)" using moved_ahead[OF s1(2)] ahead_append(2)[of s b1 "b2 @ rest"] 6(5) e(1) by simp
    show "length ts < 1073741824" using 6(7) by simp
    show "rgn (a + 4) (length ts) \<inter> ?C1 = {}" using aS rS D by auto
    show "rgn (a + 4) (length ts) \<inter> rgn (intern_dest s1) (w2 + m) = {}" using rS D D1 by auto
    have "mapped (i_heap s) (a + 4) (length ts)" using 6(10) by (auto simp: mapped_def)
    then show "mapped (i_heap s1) (a + 4) (length ts)" unfolding mapped_def only_mapped[OF o1] .
    show "tbl_room s1 (length o2 - length o1)"
      using s1(2) 6(11) list_all2_lengthD[OF s1(4)] n1 n2 e(2) by (auto simp: moved_def)
    show "tdepths ts < n" using 6(12) by simp
  qed (use rd1 D1 in auto)
  then obtain new2 s2 where s2: "intern_fields n ca at (a + 4) (length ts) s1 = Some (Inr s2)"
      "moved s1 (length b2) w2 (rgn (word_at ?D w1) w2 \<union> rgn (a + 4) (length ts)) new2 s2"
      "list_all2 (copied ats h at (within (?C1 \<union> rgn (word_at ?D w1) w2 \<union> rgn (a + 4) (length ts)) (i_heap s2)) (\<lambda>_. True)) n2 new2"
      "repr_fields at (within (?C1 \<union> rgn (word_at ?D w1) w2 \<union> rgn (a + 4) (length ts)) (i_heap s2)) (a + 4) ts"
    using n2 D1 by auto
  let ?C2 = "C \<union> rgn ?D w \<union> rgn a (length (t # ts))"
  have w: "rgn ?D w = rgn ?D w1 \<union> rgn (word_at ?D w1) w2" using rgn_split e(3) by simp
  have ceq: "?C1 \<union> rgn (word_at ?D w1) w2 \<union> rgn (a + 4) (length ts) = ?C2" using w slots by auto
  have sub2: "rgn (word_at ?D w1) w2 \<subseteq> rgn (word_at ?D w1) (w2 + m)" by (simp add: rgn_split)
  have o2: "only (i_heap s1) (rgn (word_at ?D w1) w2 \<union> rgn (a + 4) (length ts)) (i_heap s2)" using s2(2) by (simp add: moved_def)
  have disj: "?C1 \<inter> (rgn (word_at ?D w1) w2 \<union> rgn (a + 4) (length ts)) = {}"
    using aS aD rS CD D Dj sub2 by auto
  have sb: "sub (within ?C1 (i_heap s1)) (within ?C2 (i_heap s2))"
    by (rule sub_within[OF o2 disj]) (use w slots in auto)
  have r: "repr at (within ?C2 (i_heap s2)) v' t"
    using repr_sub(1)[OF repr_sub(1)[OF s1(5) sub_within_mono] sb] by auto
  have la: "load (within ?C2 (i_heap s2)) a = Some v'"
    using only_load[OF o2, of a] disj s1(3) slots by (simp add: load_within)
  have "list_all2 (copied ats h at (within ?C2 (i_heap s2)) (\<lambda>_. True)) n1 new1"
    by (rule copied_list_sub[OF n1' sb]) simp
  then have "list_all2 (copied ats h at (within ?C2 (i_heap s2)) (\<lambda>_. True)) (n1 @ n2) (new1 @ new2)"
    using s2(3) unfolding ceq by (rule list_all2_appendI)
  moreover have "moved s (length bs) w (rgn ?D w \<union> rgn a (length (t # ts))) (new1 @ new2) s2"
    using moved_mono[OF moved_trans[OF s1(2) s2(2)], of "rgn ?D w \<union> rgn a (length (t # ts))"] w slots e by auto
  moreover have "repr_fields at (within ?C2 (i_heap s2)) a (t # ts)" using la r s2(4) unfolding ceq by simp
  moreover have "intern_fields n ca at a (length (t # ts)) s = Some (Inr s2)" using s1(1) s2(1) by simp
  moreover have "objs' = objs @ (n1 @ n2)" using e(2) n1 n2 by simp
  ultimately show ?case by blast
qed

end
