(* ===== verification/Marshal_Thms.thy ===== *)
theory Marshal_Thms
  imports Marshal
begin

text \<open>
  The two ends together: what \<open>extern_value\<close> leaves in the output block, and that
  \<open>input_val_from_string\<close> rebuilds the data from it.
\<close>

section \<open>The output of \<open>extern_value\<close>\<close>

text \<open>The table between two calls: not allocated, or without a live entry.\<close>

definition table_ready :: "extern_state \<Rightarrow> bool" where
  "table_ready s \<longleftrightarrow> extern_table s = [] \<or>
     length (extern_table s) = INITIAL_EXTERN_TABLE_SIZE \<and> (\<forall>e \<in> set (extern_table s). fst e < initial_ofs s) \<and> initial_ofs s < INITIAL_OFFSET_MAX"

lemma put_over:
  assumes "extern_ptr s + length bs \<le> length (extern_block s)"
  shows "put bs s = Some (Inr (s\<lparr>extern_block := take (extern_ptr s) (extern_block s) @ bs
      @ drop (extern_ptr s + length bs) (extern_block s), extern_ptr := extern_ptr s + length bs\<rparr>))"
  using assms by (simp add: put_def ok_def)

lemma init_extern_ok:
  assumes "table_ready s"
  shows "tracks (init_extern s) []" "initial_ofs (init_extern s) < INITIAL_OFFSET_MAX"
proof -
  have l: "length (alloc_extern_table INITIAL_EXTERN_TABLE_SIZE) = INITIAL_EXTERN_TABLE_SIZE" "\<forall>e \<in> set (alloc_extern_table INITIAL_EXTERN_TABLE_SIZE). fst e < 1"
    by (simp_all add: alloc_extern_table_def)
  have "\<exists>tbl i. length tbl = INITIAL_EXTERN_TABLE_SIZE \<and> (\<forall>e \<in> set tbl. fst e < i) \<and> i < INITIAL_OFFSET_MAX
      \<and> extern_table (init_extern s) = tbl \<and> initial_ofs (init_extern s) = i"
  proof (cases "extern_table s = []")
    case True
    then show ?thesis using l by (auto simp: init_extern_def Let_def INITIAL_OFFSET_MAX_def)
  next
    case False
    then show ?thesis using assms by (auto simp: table_ready_def init_extern_def Let_def)
  qed
  then obtain tbl i where t: "length tbl = INITIAL_EXTERN_TABLE_SIZE" "\<forall>e \<in> set tbl. fst e < i" "i < INITIAL_OFFSET_MAX"
      "extern_table (init_extern s) = tbl" "initial_ofs (init_extern s) = i" by blast
  have l1: "0 < length tbl" by (simp add: t(1) INITIAL_EXTERN_TABLE_SIZE_def)
  then have "0 < i" using t(2) by (cases tbl) (auto simp: word_gt_0)
  have te: "tab_ok i [] {} tbl" by (rule tab_ok_empty[OF l1 t(2)])
  from \<open>0 < i\<close> show "tracks (init_extern s) []"
    using t(1-3) te unfolding tracks_def t(4,5) objs_ok_def
    by (auto simp: init_extern_def Let_def INITIAL_OFFSET_MAX_def word_less_nat_alt)
  show "initial_ofs (init_extern s) < INITIAL_OFFSET_MAX" using t by simp
qed

text \<open>After a value, no entry of the table is live, and the next value starts afresh.\<close>

lemma table_ready_after:
  assumes "tracks s objs"
  shows "table_ready (free_extern_table (s\<lparr>initial_ofs := initial_ofs s + obj_counter s\<rparr>))"
proof -
  have o: "objs_ok (initial_ofs s) objs" and t: "tab_ok (initial_ofs s) objs {..<length objs} (extern_table s)"
    and c: "obj_counter s = word_of_nat (length objs)" "INITIAL_EXTERN_TABLE_SIZE \<le> length (extern_table s)" using assms by (simp_all add: tracks_def)
  have u: "unat (initial_ofs s + obj_counter s) = unat (initial_ofs s) + length objs"
    using o assms unat_add32[of "initial_ofs s" "obj_counter s"] by (simp add: c(1) objs_ok_def tracks_def unat_word32)
  have "fst e < initial_ofs s + obj_counter s" if "e \<in> set (extern_table s)" for e
  proof (cases "initial_ofs s \<le> fst e")
    case True
    obtain h where h: "h < length (extern_table s)" "extern_table s ! h = e" using \<open>e \<in> set (extern_table s)\<close> by (metis in_set_conv_nth)
    then obtain k where k: "k < length objs" "e = entry (initial_ofs s) objs k"
      using tab_okD(3)[OF t h(1)] True by (auto simp: live_def)
    have "unat (fst e) = unat (initial_ofs s) + k"
      using k o unat_add32[of "initial_ofs s" "word_of_nat k"] by (simp add: entry_def objs_ok_def unat_word32)
    then show ?thesis using u k(1) by (simp add: word_less_nat_alt)
  next
    case False
    then show ?thesis using u by (simp add: word_less_nat_alt word_le_nat_alt)
  qed
  then show ?thesis using c(2) by (auto simp: table_ready_def free_extern_table_def not_le not_less)
qed

definition marshalled :: "u32 \<Rightarrow> u32 \<Rightarrow> u32 \<Rightarrow> u8 list \<Rightarrow> u8 list" where
  "marshalled nobjs s32 s64 bs =
    be32 Intext_magic_number @ be32 (word_of_nat (length bs)) @ be32 nobjs @ be32 s32 @ be32 s64 @ bs"

lemma puts_over:
  assumes "extern_ptr s + (length a + length b) \<le> length (extern_block s)"
  shows "andthen (put a s) (put b) = put (a @ b) s"
proof -
  define p where "p = extern_ptr s"
  define B where "B = extern_block s"
  have l: "p + length a + length b \<le> length B" using assms by (simp add: p_def B_def)
  have t: "take (p + length a) (take p B @ a @ drop (p + length a) B) = take p B @ a" using l by simp
  have d: "drop (p + length a + length b) (take p B @ a @ drop (p + length a) B) = drop (p + length a + length b) B"
    using l by (simp add: add.commute)
  define s1 where "s1 = s\<lparr>extern_block := take p B @ a @ drop (p + length a) B, extern_ptr := p + length a\<rparr>"
  have "put a s = Some (Inr s1)" using put_over[of s a] l by (simp add: s1_def p_def B_def)
  moreover have "put b s1 = put (a @ b) s"
    using put_over[of s1 b] put_over[of s "a @ b"] l t d by (simp add: s1_def p_def B_def add.assoc)
  ultimately show ?thesis by simp
qed

lemma put_step:
  assumes "extern_ptr s + length bs \<le> length (extern_block s)"
  shows "\<exists>t. put bs s = Some (Inr t) \<and> extern_ptr t = extern_ptr s + length bs \<and> length (extern_block t) = length (extern_block s)
    \<and> obj_counter t = obj_counter s \<and> size_32 t = size_32 s \<and> size_64 t = size_64 s"
  using assms put_over[OF assms] by simp

text \<open>The four words of the header are stored one after the other.\<close>

lemma put_header:
  assumes l: "extern_ptr s + 16 \<le> length (extern_block s)"
    and p: "put (be32 a @ be32 (obj_counter s) @ be32 (size_32 s) @ be32 (size_64 s)) s = Some (Inr t)"
  shows "andthen (write32 a s) (\<lambda>s. andthen (write32 (obj_counter s) s) (\<lambda>s. andthen (write32 (size_32 s) s)
      (\<lambda>s. andthen (write32 (size_64 s) s) (\<lambda>s. ok (n, s))))) = Some (Inr (n, t))"
proof -
  obtain t1 where t1: "put (be32 a) s = Some (Inr t1)" "extern_ptr t1 = extern_ptr s + 4" "length (extern_block t1) = length (extern_block s)"
      "obj_counter t1 = obj_counter s" "size_32 t1 = size_32 s" "size_64 t1 = size_64 s"
    using put_step[of s "be32 a"] l by auto
  obtain t2 where t2: "put (be32 (obj_counter s)) t1 = Some (Inr t2)" "extern_ptr t2 = extern_ptr s + 8" "length (extern_block t2) = length (extern_block s)"
      "size_32 t2 = size_32 s" "size_64 t2 = size_64 s"
    using put_step[of t1 "be32 (obj_counter s)"] l t1 by auto
  obtain t3 where t3: "put (be32 (size_32 s)) t2 = Some (Inr t3)" "extern_ptr t3 = extern_ptr s + 12" "length (extern_block t3) = length (extern_block s)"
      "size_64 t3 = size_64 s"
    using put_step[of t2 "be32 (size_32 s)"] l t2 by auto
  obtain t4 where t4: "put (be32 (size_64 s)) t3 = Some (Inr t4)" using put_step[of t3 "be32 (size_64 s)"] l t3 by auto
  have "put (be32 (size_32 s) @ be32 (size_64 s)) t2 = Some (Inr t4)"
    using puts_over[of t2 "be32 (size_32 s)" "be32 (size_64 s)"] l t2 t3(1) t4 by simp
  then have "put (be32 (obj_counter s) @ be32 (size_32 s) @ be32 (size_64 s)) t1 = Some (Inr t4)"
    using puts_over[of t1 "be32 (obj_counter s)" "be32 (size_32 s) @ be32 (size_64 s)"] l t1 t2(1) by simp
  then have "put (be32 a @ be32 (obj_counter s) @ be32 (size_32 s) @ be32 (size_64 s)) s = Some (Inr t4)"
    using puts_over[of s "be32 a" "be32 (obj_counter s) @ be32 (size_32 s) @ be32 (size_64 s)"] l t1(1) by simp
  then have "t4 = t" using p by simp
  then show ?thesis using t1(1,4-6) t2(1,4,5) t3(1,4) t4 by (simp add: write32_def ok_def)
qed

lemma andthen_assoc: "andthen (andthen m f) g = andthen m (\<lambda>x. andthen (f x) g)"
  by (cases "(m, f)" rule: andthen.cases) simp_all

text \<open>The bytes and the number of words of a value.\<close>

definition serial :: "'a mlheap_scheme \<Rightarrow> bool \<Rightarrow> val \<Rightarrow> mltree \<Rightarrow> u8 list" where
  "serial h ign v t = fst (ser h ign v t [])"
definition serial_objects :: "'a mlheap_scheme \<Rightarrow> bool \<Rightarrow> val \<Rightarrow> mltree \<Rightarrow> nat" where
  "serial_objects h ign v t = length (fst (snd (ser h ign v t [])))"
definition serial_words :: "'a mlheap_scheme \<Rightarrow> bool \<Rightarrow> val \<Rightarrow> mltree \<Rightarrow> nat" where
  "serial_words h ign v t = snd (snd (ser h ign v t []))"

lemma note_obj_length: "length objs \<le> length (note_obj ign v objs)" "length (note_obj ign v objs) \<le> Suc (length objs)"
  by (simp_all add: note_obj_def)

lemma ser_count:
  "ser h ign v t objs = (bs, objs', w) \<Longrightarrow> length objs' \<le> length objs + w"
  "ser_fields h ign a ts objs = (bs, objs', w) \<Longrightarrow> length objs' \<le> length objs + w"
proof (induction h ign v t objs and h ign a ts objs arbitrary: bs objs' w and bs objs' w rule: ser_ser_fields.induct)
  case (4 h ign v tag ts objs)
  obtain b1 o1 w1 where sf: "ser_fields h ign v ts (note_obj ign v objs) = (b1, o1, w1)" using prod_cases3 by blast
  then show ?case using 4(1)[OF _ _ sf] 4(2) note_obj_length(2)[of ign v objs]
    by (auto split: if_splits option.splits)
next
  case (6 h ign a t ts objs)
  obtain b1 o1 w1 where 1: "ser h ign (the (load h a)) t objs = (b1, o1, w1)" using prod_cases3 by blast
  obtain b2 o2 w2 where 2: "ser_fields h ign (a + 4) ts o1 = (b2, o2, w2)" using prod_cases3 by blast
  show ?case using 6(1)[OF 1] 6(2)[OF 1[symmetric] refl 2] 6(3) by (simp add: 1 2)
qed (auto simp: note_obj_def split: option.splits if_splits)

theorem extern_value_ok:
  assumes r: "repr at h v t" and al: "aligned_heap h" and tr: "table_ready s"
    and w: "serial_words h ign v t \<le> 4194304" and n: "tdepth t < n"
  shows "\<exists>s' s64. extern_value n ca at h v ign closures (alloc_extern_block s) = Some (Inr (20 + length (serial h ign v t), s'))
    \<and> take (20 + length (serial h ign v t)) (extern_block s')
      = marshalled (word_of_nat (serial_objects h ign v t)) (word_of_nat (serial_words h ign v t)) s64 (serial h ign v t)
    \<and> table_ready s'"
proof -
  obtain bs objs w' where ser: "ser h ign v t [] = (bs, objs, w')" using prod_cases3 by blast
  have sd: "serial h ign v t = bs" "serial_objects h ign v t = length objs" "serial_words h ign v t = w'"
    by (simp_all add: serial_def serial_objects_def serial_words_def ser)
  define s0 where "s0 = init_extern (set_flags ign closures (alloc_extern_block s))"
  have i0: "tracks s0 []" "initial_ofs s0 < INITIAL_OFFSET_MAX"
    using init_extern_ok[of "set_flags ign closures (alloc_extern_block s)"] tr
    by (simp_all add: s0_def table_ready_def set_flags_def alloc_extern_block_def)
  have b0: "extern_block s0 = replicate 8192 0" "extern_ptr s0 = 0" "extern_block_malloced s0" "extern_ignore_sharing s0 = ign"
      "size_32 s0 = 0"
    by (simp_all add: s0_def init_extern_def set_flags_def alloc_extern_block_def Let_def INITIAL_EXTERN_BLOCK_SIZE_def)
  define s1 where "s1 = s0\<lparr>extern_block := be32 Intext_magic_number @ replicate 8188 0, extern_ptr := 4 + 4 * 4\<rparr>"
  define sm where "sm = s0\<lparr>extern_block := be32 Intext_magic_number @ replicate 8188 0, extern_ptr := 4\<rparr>"
  have p1: "write32 Intext_magic_number s0 = Some (Inr sm)" "sm\<lparr>extern_ptr := extern_ptr sm + 4 * 4\<rparr> = s1"
    by (simp_all add: write32_def put_over b0 s1_def sm_def)
  have w1: "wf_out s1" "out s1 = be32 Intext_magic_number @ replicate 16 0" "extern_ignore_sharing s1 = ign"
      "tracks s1 []" "size_32 s1 = 0" "initial_ofs s1 = initial_ofs s0"
    using i0(1) tracks_cong[of s1 s0 "[]"] by (simp_all add: wf_out_def out_def s1_def b0)
  have c: "length objs \<le> 4194304" using ser_count(1)[OF ser] w sd(3) by simp
  have f: "fits (initial_ofs s1) objs" using c i0(2) w1(6) by (simp add: fits_def INITIAL_OFFSET_MAX_def word_less_nat_alt)
  obtain s2 where s2: "extern_rec n ca at h v s1 = Some (Inr s2)" "wrote s1 bs objs w' s2"
    using extern_rec_ok(1)[OF al r w1(1,4,3) ser f n] by blast
  define s3 where "s3 = free_extern_table (s2\<lparr>initial_ofs := initial_ofs s2 + obj_counter s2\<rparr>)"
  have t3: "table_ready s3" unfolding s3_def by (rule table_ready_after[of _ objs]) (use s2(2) in \<open>simp add: wrote_def\<close>)
  have e3: "extern_block s3 = extern_block s2" "extern_ptr s3 = extern_ptr s2" "obj_counter s3 = obj_counter s2" "size_32 s3 = size_32 s2"
    by (simp_all add: s3_def free_extern_table_def)
  let ?len = "20 + length bs"
  have o2: "take (extern_ptr s2) (extern_block s2) = be32 Intext_magic_number @ replicate 16 0 @ bs"
      "extern_ptr s2 \<le> length (extern_block s2)"
    using s2(2) w1(2) by (simp_all add: wrote_def out_def wf_out_def)
  have p2: "extern_ptr s2 = ?len"
    using arg_cong[OF o2(1), of length] o2(2) by simp
  define hdr where "hdr = be32 (word_of_nat (length bs)) @ be32 (word_of_nat (length objs)) @ be32 (word_of_nat w') @ be32 (size_64 s3)"
  define s4 where "s4 = s3\<lparr>extern_ptr := 4\<rparr>"
  have l4: "length hdr = 16" "?len \<le> length (extern_block s4)" "extern_ptr s4 = 4"
    using o2(2) p2 by (simp_all add: hdr_def s4_def e3)
  have sz: "obj_counter s4 = word_of_nat (length objs)" "size_32 s4 = word_of_nat w'" "size_64 s4 = size_64 s3"
    using s2(2) w1(5) by (simp_all add: s4_def e3 wrote_def tracks_def)
  define s5 where "s5 = s4\<lparr>extern_block := take 4 (extern_block s4) @ hdr @ drop 20 (extern_block s4), extern_ptr := 20\<rparr>"
  have p5: "put hdr s4 = Some (Inr s5)" using put_over[of s4 hdr] l4 by (simp add: s5_def)
  have block: "take ?len (extern_block s5) = marshalled (word_of_nat (length objs)) (word_of_nat w') (size_64 s3) bs"
  proof -
    have t: "take ?len (extern_block s4) = be32 Intext_magic_number @ replicate 16 0 @ bs"
      using o2(1) p2 by (simp add: s4_def e3)
    have "take 4 (extern_block s4) = take 4 (take ?len (extern_block s4))" by simp
    then have t4: "take 4 (extern_block s4) = be32 Intext_magic_number" unfolding t by simp
    have "take (length bs) (drop 20 (extern_block s4)) = drop 20 (take ?len (extern_block s4))" by (simp add: drop_take)
    then have d: "take (length bs) (drop 20 (extern_block s4)) = bs" unfolding t by simp
    have "take ?len (extern_block s5) = be32 Intext_magic_number @ hdr @ take (length bs) (drop 20 (extern_block s4))"
      using l4(1) by (simp add: s5_def t4)
    then show ?thesis by (simp add: d marshalled_def hdr_def)
  qed
  have "word_of_nat (extern_ptr s3) - 5 * 4 = (word_of_nat (length bs) :: u32)" by (simp add: e3 p2)
  then have chain: "andthen (write32 (word_of_nat (extern_ptr s3) - 5 * 4) s4) (\<lambda>s. andthen (write32 (obj_counter s) s)
      (\<lambda>s. andthen (write32 (size_32 s) s) (\<lambda>s. andthen (write32 (size_64 s) s) (\<lambda>s. ok (extern_ptr s3, s))))) = Some (Inr (?len, s5))"
    using put_header[of s4 "word_of_nat (length bs)" s5 ?len] l4 p5 by (simp add: hdr_def sz e3 p2)
  have "table_ready s5" using t3 by (simp add: s5_def s4_def table_ready_def)
  moreover have "extern_value n ca at h v ign closures (alloc_extern_block s) = Some (Inr (?len, s5))"
    unfolding extern_value_def Let_def s0_def[symmetric] p1(1) andthen.simps p1(2) s2(1) s3_def[symmetric] s4_def[symmetric] by (rule chain)
  ultimately show ?thesis using block unfolding sd by blast
qed

lemma ser_ign:
  "ser h ign v t objs = (bs, objs', w) \<Longrightarrow> ign \<Longrightarrow> objs' = objs"
  "ser_fields h ign a ts objs = (bs, objs', w) \<Longrightarrow> ign \<Longrightarrow> objs' = objs"
proof (induction h ign v t objs and h ign a ts objs arbitrary: bs objs' w and bs objs' w rule: ser_ser_fields.induct)
  case (4 h ign v tag ts objs)
  obtain b1 o1 w1 where sf: "ser_fields h ign v ts (note_obj ign v objs) = (b1, o1, w1)" using prod_cases3 by blast
  then show ?case using 4(1)[OF _ _ sf] 4(2,3) by (auto simp: note_obj_def shared_at_def split: if_splits option.splits)
next
  case (6 h ign a t ts objs)
  obtain b1 o1 w1 where 1: "ser h ign (the (load h a)) t objs = (b1, o1, w1)" using prod_cases3 by blast
  obtain b2 o2 w2 where 2: "ser_fields h ign (a + 4) ts o1 = (b2, o2, w2)" using prod_cases3 by blast
  have "objs' = o2" using 6(3) by (simp add: 1 2)
  then show ?case using 6(1)[OF 1 6(4)] 6(2)[OF 1[symmetric] refl 2 6(4)] by simp
qed (auto simp: note_obj_def split: option.splits if_splits)

text \<open>The words of the data without sharing are a bound.\<close>

fun twords :: "mltree \<Rightarrow> nat" and twords_list :: "mltree list \<Rightarrow> nat" where
  "twords (TInt n) = 0"
| "twords (TStr bs) = 2 + length bs div 4"
| "twords (TDbl d) = 3"
| "twords (TBlock tag ts) = Suc (length ts) + twords_list ts"
| "twords_list [] = 0"
| "twords_list (t # ts) = twords t + twords_list ts"

lemma ser_words_le:
  "ser h ign v t objs = (bs, objs', w) \<Longrightarrow> w \<le> twords t"
  "ser_fields h ign a ts objs = (bs, objs', w) \<Longrightarrow> w \<le> twords_list ts"
proof (induction h ign v t objs and h ign a ts objs arbitrary: bs objs' w and bs objs' w rule: ser_ser_fields.induct)
  case (4 h ign v tag ts objs)
  obtain b1 o1 w1 where sf: "ser_fields h ign v ts (note_obj ign v objs) = (b1, o1, w1)" using prod_cases3 by blast
  then show ?case using 4(1)[OF _ _ sf] 4(2) by (auto split: if_splits option.splits)
next
  case (6 h ign a t ts objs)
  obtain b1 o1 w1 where 1: "ser h ign (the (load h a)) t objs = (b1, o1, w1)" using prod_cases3 by blast
  obtain b2 o2 w2 where 2: "ser_fields h ign (a + 4) ts o1 = (b2, o2, w2)" using prod_cases3 by blast
  show ?case using 6(1)[OF 1] 6(2)[OF 1[symmetric] refl 2] 6(3) by (simp add: 1 2)
qed (auto split: option.splits if_splits)

lemma serial_words_le: "serial_words h ign v t \<le> twords t"
  using ser_words_le(1)[of h ign v t "[]"] prod.exhaust_sel by (metis serial_words_def)

section \<open>Reading it back\<close>

definition atom_headers :: "u32 \<Rightarrow> u32 set" where "atom_headers at = {at + 4 * tag | tag. tag < 256}"

lemma atoms_within: "atoms at h \<Longrightarrow> atoms at (within (atom_headers at) h)"
proof -
  assume a: "atoms at h"
  have "in_memory at (within C h) v = in_memory at h v" for C v by (simp add: in_memory_def Is_young_def)
  moreover have "Hd_val (within (atom_headers at) h) (at + 4 * tag + 4) = Hd_val h (at + 4 * tag + 4)" if "tag < 256" for tag
    using that by (auto simp: Hd_val_def load_within atom_headers_def)
  ultimately show ?thesis using a by (simp add: atoms_def block_with_def Tag_val_def Wosize_val_def)
qed

text \<open>
  What the reader asks of the allocator of the runtime: a block of the given size, in memory the
  collector manages, apart from the table of atoms.
\<close>

definition allocates :: "u32 \<Rightarrow> (u32 \<Rightarrow> u32 \<Rightarrow> mlheap \<Rightarrow> (val \<times> mlheap) option) \<Rightarrow> mlheap \<Rightarrow> bool" where
  "allocates at alloc h \<longleftrightarrow> (\<forall>sz \<le> Max_wosize. \<exists>b h'. alloc sz String_tag h = Some (b, h') \<and> aligned b
     \<and> mapped h' (b - 4) (Suc (unat sz)) \<and> (\<forall>k < unat sz. in_memory at h' (word_at (b - 4) (Suc k)))
     \<and> atoms at h' \<and> atom_headers at \<inter> rgn (b - 4) (Suc (unat sz)) = {})"

text \<open>The static variables of the reader before the first call and after each.\<close>

definition reader_ok :: "intern_state \<Rightarrow> bool" where
  "reader_ok s \<longleftrightarrow> aligned (intern_dest s) \<and> intern_color s \<in> {White, Gray, Blue, Black}"

lemma Color_hd_cases: "Color_hd hdr \<in> {White, Gray, Blue, Black}"
proof -
  have b: "Black = push_bit 8 (mask 2)" by code_simp
  have "Color_hd hdr = push_bit 8 (take_bit 2 (drop_bit 8 hdr))" unfolding Color_hd_def b
    by (rule bit_word_eqI) (auto simp: bit_simps)
  moreover have "take_bit 2 (drop_bit 8 hdr) \<in> {0, 1, 2, 3}"
  proof -
    have "unat (take_bit 2 (drop_bit 8 hdr)) < 4" by (simp add: unat_take_bit32)
    then have "unat (take_bit 2 (drop_bit 8 hdr)) \<in> {0, 1, 2, 3}" by auto
    then show ?thesis by (auto simp: word_unat_eq_iff)
  qed
  ultimately show ?thesis unfolding White_def Gray_def Blue_def Black_def by auto
qed

lemma aligned_minus4: "aligned b \<Longrightarrow> aligned (b - 4)"
proof -
  assume "aligned b"
  moreover have "aligned (- 4 :: u32)" by code_simp
  ultimately show ?thesis using aligned_add[of b "- 4"] by simp
qed

lemma intern_alloc_ok:
  assumes s: "reader_ok s" "atoms at (i_heap s)" "allocates at alloc (i_heap s)" and w: "w \<le> 4194304" "k \<le> w" "k = 0 \<or> \<not> ign"
  shows "\<exists>s'. intern_alloc alloc (word_of_nat w) (word_of_nat k) s = Some (Inr s')
    \<and> intern_input s' = intern_input s \<and> (\<forall>n. ready ats hs at ign (atom_headers at) [] N w (s'\<lparr>intern_src := n\<rparr>)
    \<and> tbl_room (s'\<lparr>intern_src := n\<rparr>) k)"
proof (cases "w = 0")
  case True
  let ?s' = "s\<lparr>intern_obj_table := None\<rparr>"
  have "intern_alloc alloc (word_of_nat w) (word_of_nat k) s = Some (Inr ?s')" using True by (simp add: intern_alloc_def)
  moreover have "ready ats hs at ign (atom_headers at) [] N w (?s'\<lparr>intern_src := n\<rparr>)" for n
    using True s(1,2) atoms_within[of at "i_heap s"] by (simp add: ready_def room_def reader_ok_def mapped_def objs_read_def)
  ultimately show ?thesis using True w(2) by (auto simp: tbl_room_def)
next
  case False
  let ?sz = "word_of_nat w - 1 :: u32"
  have sz: "unat ?sz = w - 1" using False w(1) unat_sub32[of 1 "word_of_nat w"] by (simp add: unat_word32)
  have "?sz \<le> Max_wosize" using sz w(1) by (simp add: word_le_nat_alt Max_wosize_def)
  then obtain b h where b: "alloc ?sz String_tag (i_heap s) = Some (b, h)" "aligned b" "mapped h (b - 4) (Suc (unat ?sz))"
      "\<forall>k < unat ?sz. in_memory at h (word_at (b - 4) (Suc k))" "atoms at h" "atom_headers at \<inter> rgn (b - 4) (Suc (unat ?sz)) = {}"
    using s(3) unfolding allocates_def by blast
  have w1: "Suc (unat ?sz) = w" using sz False by simp
  have "load h (word_at (b - 4) 0) \<noteq> None" using b(3) unfolding mapped_def by blast
  then obtain hdr where hdr: "Hd_val h b = Some hdr" by (auto simp: Hd_val_def)
  let ?s' = "s\<lparr>i_heap := h, intern_block := b, intern_header := hdr, intern_color := Color_hd hdr,
    intern_dest := b - 4, i_obj_counter := 0, intern_obj_table := if 0 < k then Some (replicate k 0) else None\<rparr>"
  have k: "unat (word_of_nat k :: u32) = k" "(0 < (word_of_nat k :: u32)) = (0 < k)"
    using w(1,2) by (simp_all add: unat_word32 word_less_nat_alt)
  have "(word_of_nat w :: u32) \<noteq> 0"
  proof
    assume "(word_of_nat w :: u32) = 0"
    then have "unat (word_of_nat w :: u32) = 0" by (simp only: unat_0)
    then show False using False w(1) by (simp add: unat_word32)
  qed
  then have "intern_alloc alloc (word_of_nat w) (word_of_nat k) s = Some (Inr ?s')"
    using \<open>?sz \<le> Max_wosize\<close> b(1) hdr k by (simp add: intern_alloc_def Wosize_whsize_def Let_def not_less)
  moreover have "ready ats hs at ign (atom_headers at) [] N w (?s'\<lparr>intern_src := n\<rparr>)" for n
    using b w w1 aligned_minus4 atoms_within Color_hd_cases[of hdr] by (auto simp: ready_def room_def objs_read_def)
  moreover have "tbl_room (?s'\<lparr>intern_src := n\<rparr>) k" for n using w by (auto simp: tbl_room_def)
  ultimately show ?thesis by auto
qed

lemma input_val_ok:
  assumes s: "reader_ok s" "atoms at (i_heap s)" "allocates at alloc (i_heap s)"
    and v: "repr ats hs v t" and w: "serial_words hs ign v t \<le> 4194304" and n: "tdepth t < n"
  shows "\<exists>v' s'. input_val_from_string alloc n ca at
      (pre @ marshalled (word_of_nat (serial_objects hs ign v t)) (word_of_nat (serial_words hs ign v t)) s64 (serial hs ign v t) @ post)
      (length pre) s = Some (Inr (v', s')) \<and> repr at (i_heap s') v' t"
proof -
  obtain bs objs w' where ser: "ser hs ign v t [] = (bs, objs, w')" using prod_cases3 by blast
  have sd: "serial hs ign v t = bs" "serial_objects hs ign v t = length objs" "serial_words hs ign v t = w'"
    by (simp_all add: serial_def serial_objects_def serial_words_def ser)
  define inp where "inp = pre @ marshalled (word_of_nat (length objs)) (word_of_nat w') s64 bs @ post"
  define s1 where "s1 = s\<lparr>intern_input := inp, intern_src := length pre + 2 * 4\<rparr>"
  have a1: "ahead s1 (be32 (word_of_nat (length objs)) @ be32 (word_of_nat w') @ be32 s64 @ bs)"
    by (simp add: ahead_def s1_def inp_def marshalled_def)
  have a2: "ahead (skip 4 s1) (be32 (word_of_nat w') @ be32 s64 @ bs)" using ahead_append(2)[OF a1] by simp
  have a3: "ahead (skip 8 s1) (be32 s64 @ bs)" using ahead_append(2)[OF a2] by simp
  let ?s3 = "skip 12 s1"
  have sk: "skip 4 (skip 4 s1) = skip 8 s1" "skip 4 (skip 8 s1) = ?s3" by simp_all
  have s3: "reader_ok ?s3" "atoms at (i_heap ?s3)" "allocates at alloc (i_heap ?s3)"
    using s by (simp_all add: s1_def reader_ok_def)
  have kw: "length objs \<le> w'" using ser_count(1)[OF ser] by simp
  have ko: "length objs = 0 \<or> \<not> ign"
  proof (cases ign)
    case True
    then have "objs = []" using ser_ign(1)[OF ser] by simp
    then show ?thesis by simp
  qed simp
  obtain s4 where s4: "intern_alloc alloc (word_of_nat w') (word_of_nat (length objs)) ?s3 = Some (Inr s4)"
      "intern_input s4 = intern_input ?s3"
      "\<forall>n. ready ats hs at ign (atom_headers at) [] (size t) w' (s4\<lparr>intern_src := n\<rparr>) \<and> tbl_room (s4\<lparr>intern_src := n\<rparr>) (length objs)"
    using intern_alloc_ok[OF s3, of w' "length objs" ign ats hs "size t"] w kw ko unfolding sd by blast
  define s5 where "s5 = s4\<lparr>intern_src := length pre + 5 * 4\<rparr>"
  have a5: "ahead s5 (bs @ [])" using s4(2) by (simp add: ahead_def s5_def s1_def inp_def marshalled_def)
  have r5: "ready ats hs at ign (atom_headers at) [] (size t) (w' + 0) s5" "tbl_room s5 (length objs - length ([] :: val list))"
    using s4(3) by (simp_all add: s5_def)
  have f5: "free_dest (atom_headers at) (w' + 0) None s5" by (simp add: free_dest_def)
  obtain v' s6 where s6: "intern_rec n ca at None s5 = Some (Inr (v', s6))"
      "repr at (within (atom_headers at \<union> rgn (intern_dest s5) w') (i_heap s6)) v' t"
    using intern_rec_ok(1)[OF v ser a5 r5(1) f5 r5(2) n, of ca] unfolding rebuilt_def by blast
  have s5e: "s4\<lparr>intern_src := length pre + 20\<rparr> = s5" by (simp add: s5_def)
  have "input_val_from_string alloc n ca at inp (length pre) s = Some (Inr (v', s6))"
    unfolding input_val_from_string_def Let_def s1_def[symmetric]
    by (simp add: read32u_be32[OF a1] read32u_be32[OF a2] read32u_be32[OF a3] sk s4(1) s5e s6(1))
  then show ?thesis using repr_sub(1)[OF s6(2) sub_within_id] unfolding sd inp_def by blast
qed

text \<open>
  C23. Marshalling: for data of any shape (integers, strings, numbers, constructor blocks, with or
  without sharing kept), \<open>extern_value\<close> returns, and \<open>input_val_from_string\<close> on a string that has its
  output at some offset returns a value that stands for the same data in the memory it leaves, as soon
  as the structure fits a block of the heap and the fuel exceeds the depth of the data. The table of
  objects is ready for the next value, which holds of the empty table the program starts with.
\<close>
theorem marshal_round_trip:
  assumes "repr ats h v t" "aligned_heap h" "table_ready s" "serial_words h ign v t \<le> 4194304" "tdepth t < n"
    and "reader_ok si" "atoms at (i_heap si)" "allocates at alloc (i_heap si)"
  shows "\<exists>len s'. extern_value n ca ats h v ign closures (alloc_extern_block s) = Some (Inr (len, s')) \<and> table_ready s'
    \<and> (\<forall>pre post. \<exists>v' si'. input_val_from_string alloc n ca' at (pre @ take len (extern_block s') @ post) (length pre) si
          = Some (Inr (v', si')) \<and> repr at (i_heap si') v' t)"
proof -
  obtain s' s64 where s': "extern_value n ca ats h v ign closures (alloc_extern_block s) = Some (Inr (20 + length (serial h ign v t), s'))"
      "take (20 + length (serial h ign v t)) (extern_block s')
        = marshalled (word_of_nat (serial_objects h ign v t)) (word_of_nat (serial_words h ign v t)) s64 (serial h ign v t)"
      "table_ready s'"
    using extern_value_ok[OF assms(1-5)] by blast
  show ?thesis using s'(1,3) input_val_ok[OF assms(6-8,1,4,5), of ca' _ s64] unfolding s'(2)[symmetric] by blast
qed

section \<open>An example\<close>

text \<open>A runtime with its atoms at address 0 and a free region from \<open>0x1000\<close>.\<close>

definition heap1 :: mlheap where
  "heap1 = heap_with (\<lambda>a. if a AND 3 = 0 then Some (if a < 0x400 then drop_bit 2 a else 0) else None) (\<lambda>_. True)"

definition alloc1 :: "u32 \<Rightarrow> u32 \<Rightarrow> mlheap \<Rightarrow> (val \<times> mlheap) option" where
  "alloc1 sz tag h = Some (0x1004, heap1)"

definition reader1 :: intern_state where
  "reader1 = \<lparr>i_heap = heap1, intern_input = [], intern_src = 0, intern_dest = 0, i_obj_counter = 0, intern_obj_table = None,
     intern_color = White, intern_header = 0, intern_block = 0\<rparr>"

definition writer1 :: extern_state where
  "writer1 = \<lparr>initial_ofs = 1, extern_table = [], obj_counter = 0, extern_block = [], extern_ptr = 0,
     extern_block_malloced = False, size_32 = 0, size_64 = 0, extern_ignore_sharing = False, extern_closures = False\<rparr>"

lemma heap1_atoms: "atoms 0 heap1"
  unfolding atoms_def
proof (intro allI impI)
  fix tag :: u32 assume "tag < 256"
  then have t: "unat tag < 256" by (simp add: word_less_nat_alt)
  have p: "4 * tag = push_bit 2 tag" by (simp add: push_bit_eq_mult)
  have u: "unat (4 * tag) = 4 * unat tag" unfolding p using t unat_push_bit32[of tag 2] by simp
  have "drop_bit 2 (4 * tag) = tag" by (simp only: word_unat_eq_iff unat_drop_bit32 u) simp
  moreover have "(4 * tag) AND 3 = 0" using aligned_4(1)[of tag] unfolding aligned_def .
  moreover have "4 * tag < 0x400" using t by (simp add: word_less_nat_alt u)
  ultimately have h: "Hd_val heap1 (0 + 4 * tag + 4) = Some tag" by (simp add: Hd_val_def load_def heap1_def heap_with_def)
  have "tag AND 0xFF = tag"
  proof -
    have "(0xFF :: u32) = mask 8" by code_simp
    then have "tag AND 0xFF = take_bit 8 tag" by (simp only: take_bit_eq_mask)
    then show ?thesis using t by (simp only: word_unat_eq_iff unat_take_bit32) simp
  qed
  moreover have "drop_bit 10 tag = 0" using t by (simp add: word_unat_eq_iff unat_drop_bit32)
  moreover have "Is_block (0 + 4 * tag + 4)" by (intro aligned_block aligned_add) simp_all
  moreover have "in_memory 0 heap1 (0 + 4 * tag + 4)" by (simp add: in_memory_def heap1_def heap_with_def)
  ultimately show "block_with 0 heap1 (0 + 4 * tag + 4) tag 0"
    using h by (simp add: block_with_def Tag_val_def Wosize_val_def Tag_hd_def Wosize_hd_def)
qed

lemma heap1_mapped: "aligned v \<Longrightarrow> mapped heap1 v n"
proof -
  assume v: "aligned v"
  have "load heap1 a \<noteq> None" if "aligned a" for a
    using that by (simp add: heap1_def heap_with_def load_def aligned_def)
  then show ?thesis using v by (simp add: mapped_def del: not_None_eq)
qed

lemma alloc1_allocates: "allocates 0 alloc1 h"
  unfolding allocates_def
proof (intro allI impI)
  fix sz assume "sz \<le> Max_wosize"
  then have sz: "unat sz < 4194304" by (simp add: Max_wosize_def word_le_nat_alt)
  have "atom_headers 0 \<inter> rgn 0x1000 (Suc (unat sz)) = {}"
  proof -
    have "unat (word_at 0x1000 k) = 4096 + 4 * k" if "k \<le> unat sz" for k
    proof -
      have "word_at 0x1000 k = word_of_nat (4096 + 4 * k)" by (simp add: word_at_def)
      then show ?thesis using sz that unat_word32[of "4096 + 4 * k"] by simp
    qed
    moreover have "unat (0 + 4 * tag) < 1024" if "tag < 256" for tag :: u32
    proof -
      have "0 + 4 * tag = push_bit 2 tag" by (simp add: push_bit_eq_mult)
      then show ?thesis using that unat_push_bit32[of tag 2] by (simp add: word_less_nat_alt)
    qed
    ultimately show ?thesis unfolding atom_headers_def rgn_def by fastforce
  qed
  moreover have "aligned 0x1004" "aligned 0x1000" by code_simp+
  moreover have "in_memory 0 heap1 a" for a by (simp add: in_memory_def heap1_def heap_with_def)
  ultimately show "\<exists>b h'. alloc1 sz String_tag h = Some (b, h') \<and> aligned b \<and> mapped h' (b - 4) (Suc (unat sz))
      \<and> (\<forall>k < unat sz. in_memory 0 h' (word_at (b - 4) (Suc k))) \<and> atoms 0 h' \<and> atom_headers 0 \<inter> rgn (b - 4) (Suc (unat sz)) = {}"
    using heap1_atoms heap1_mapped[of "0x1000"] by (auto simp: alloc1_def)
qed

lemma heap0_aligned: "aligned_heap heap0"
  by (auto simp: aligned_heap_def heap0_def heap_with_def load_def words_at_def aligned_def split: if_splits)

theorem marshal_round_trip_witness:
  "\<exists>len s'. extern_value 10 \<lparr>code_start = 0, code_end = 0, code_checksum = []\<rparr> 0 heap0 0x1004 False False (alloc_extern_block writer1)
      = Some (Inr (len, s')) \<and> table_ready s'
    \<and> (\<forall>pre post. \<exists>v' si'. input_val_from_string alloc1 10 \<lparr>code_start = 0, code_end = 0, code_checksum = []\<rparr> 0
          (pre @ take len (extern_block s') @ post) (length pre) reader1
        = Some (Inr (v', si')) \<and> repr 0 (i_heap si') v' (TBlock 0 [TInt 5, TStr [97, 98]]))"
proof (rule marshal_round_trip)
  show "table_ready writer1" by (simp add: table_ready_def writer1_def)
  show "reader_ok reader1" by (simp add: reader_ok_def reader1_def)
  show "serial_words heap0 False 0x1004 (TBlock 0 [TInt 5, TStr [97, 98]]) \<le> 4194304"
    using serial_words_le[of heap0 False "0x1004" "TBlock 0 [TInt 5, TStr [97, 98]]"] by simp
qed (use heap0_repr(1) heap0_aligned heap1_atoms alloc1_allocates in \<open>simp_all add: reader1_def\<close>)

end
