(* ===== verification/Marshal_Errors.thy ===== *)
theory Marshal_Errors
  imports Marshal_Thms
begin

text \<open>
  More on marshalling: the table of objects against a list, the writer into a fixed buffer stays inside
  it, and what the reader does on a message it cannot read.
\<close>

section \<open>Writing into a buffer\<close>

definition window :: "nat \<Rightarrow> extern_state \<Rightarrow> bool" where
  "window L s \<longleftrightarrow> \<not> extern_block_malloced s \<and> length (extern_block s) = L"

text \<open>Every outcome keeps the window, and a normal one has the pointer inside.\<close>

definition stays :: "nat \<Rightarrow> extern_state xres \<Rightarrow> bool" where
  "stays L r \<longleftrightarrow> (\<forall>e s. r = Some (Inl (e, s)) \<longrightarrow> window L s) \<and> (\<forall>s. r = Some (Inr s) \<longrightarrow> window L s \<and> extern_ptr s \<le> L)"

lemma window_cong: "extern_block_malloced s' = extern_block_malloced s \<Longrightarrow> extern_block s' = extern_block s \<Longrightarrow> window L s' = window L s"
  by (simp add: window_def)

lemma stays_ok: "stays L (ok s) \<longleftrightarrow> window L s \<and> extern_ptr s \<le> L"
  by (simp add: stays_def ok_def)

lemma stays_None [simp]: "stays L None"
  by (simp add: stays_def)

lemma stays_fails: "stays L (fails e s) \<longleftrightarrow> window L s"
  by (simp add: stays_def fails_def)

lemma stays_andthen:
  assumes "stays L m" "\<And>s. window L s \<Longrightarrow> extern_ptr s \<le> L \<Longrightarrow> stays L (f s)"
  shows "stays L (andthen m f)"
proof (cases "(m, f)" rule: andthen.cases)
  case (2 e g)
  then show ?thesis using assms(1) by (cases e) (simp add: stays_def)
next
  case (3 s g)
  then have "stays L (f s)" using assms(1) by (intro assms(2)) (simp_all add: stays_def)
  then show ?thesis using 3 by simp
qed simp

lemma free_extern_table_sel [simp]:
  "extern_block (free_extern_table s) = extern_block s" "extern_ptr (free_extern_table s) = extern_ptr s"
  "extern_block_malloced (free_extern_table s) = extern_block_malloced s"
  by (simp_all add: free_extern_table_def)

lemma stays_put: "window L s \<Longrightarrow> stays L (put bs s)"
  by (auto simp: put_def resize_extern_block_def stays_def window_def ok_def fails_def not_less)

lemma stays_codes:
  assumes "window L s"
  shows "stays L (Write c s)" "stays L (writeblock bs s)" "stays L (writecode8 c x s)" "stays L (writecode16 c x s)"
    "stays L (writecode32 c x s)" "stays L (write32 x s)"
  unfolding Write_def writeblock_def writecode8_def writecode16_def writecode32_def write32_def
  by (rule stays_put[OF assms])+

lemma stays_choices:
  assumes "window L s"
  shows "stays L (extern_int v s)" "stays L (extern_shared x s)" "stays L (extern_invalid_argument msg s)"
  using assms unfolding extern_int_def extern_shared_def extern_invalid_argument_def stays_fails
  by (auto simp: Let_def window_def intro!: stays_codes)

lemma stays_sizes: "window L s \<Longrightarrow> extern_ptr s \<le> L \<Longrightarrow> stays L (ok (add_sizes a b s))"
  by (simp add: stays_ok add_sizes_def window_def)

lemma stays_items:
  assumes "window L s"
  shows "stays L (extern_string h v s)" "stays L (extern_double h v s)" "stays L (extern_double_array h v n s)"
    "stays L (extern_header hdr s)"
proof -
  show "stays L (extern_string h v s)" "stays L (extern_double h v s)" "stays L (extern_double_array h v n s)"
    using assms unfolding extern_string_def extern_double_def extern_double_array_def
    by (auto simp: Let_def intro!: stays_andthen stays_codes stays_sizes split: bind_splits)
  show "stays L (extern_header hdr s)"
    using assms unfolding extern_header_def Let_def by (auto intro!: stays_andthen stays_codes stays_sizes)
qed

lemma extern_seen_window: "extern_seen v s = Some (r, s') \<Longrightarrow> window L s' = window L s \<and> extern_ptr s' = extern_ptr s"
  by (auto simp: extern_seen_def resize_extern_table_def Let_def window_def split: bind_splits if_splits option.splits)

lemma extern_rec_stays:
  "window L s \<Longrightarrow> stays L (extern_rec n ca at h v s)"
  "window L s \<Longrightarrow> extern_ptr s \<le> L \<Longrightarrow> stays L (extern_fields n ca at h a k s)"
proof (induction n ca at h v s and n ca at h a k s rule: extern_rec_extern_fields.induct)
  case (2 n ca at h v s)
  note w = 2(3)
  show ?case
  proof (cases "Is_long v \<or> \<not> in_memory at h v")
    case True
    then show ?thesis using w by (auto intro!: stays_andthen stays_codes stays_choices)
  next
    case False
    then have mem: "\<not> Is_long v" "in_memory at h v" by simp_all
    show ?thesis
    proof (cases "Hd_val h v")
      case (Some hdr)
      let ?r = "if extern_ignore_sharing s then Some (None, s) else extern_seen v s"
      show ?thesis
      proof (cases "Wosize_hd hdr = 0 \<or> ?r = None")
        case True
        then show ?thesis using mem Some w by (auto simp: Let_def intro!: stays_codes)
      next
        case f: False
        then obtain seen s1 where r: "?r = Some (seen, s1)" by auto
        have w1: "window L s1" using r w extern_seen_window by (fastforce split: if_splits)
        show ?thesis
          using mem Some f w1 2(1)[OF mem Some refl refl _ r refl] 2(2)[OF mem Some refl refl _ r refl] unfolding r
          by (auto simp: r Let_def split: option.splits intro!: stays_andthen stays_codes stays_choices stays_items)
      qed
    qed (use mem in simp)
  qed
next
  case (4 n ca at h a k s)
  show ?case
  proof (cases "load h a")
    case (Some v)
    show ?thesis using 4(1)[OF Some 4(3)] 4(2)[OF Some] by (auto simp: Some intro: stays_andthen)
  qed simp
qed (auto simp: stays_ok)

lemma stays_result: "stays L m \<Longrightarrow> (\<And>s. window L s \<Longrightarrow> extern_ptr s \<le> L \<Longrightarrow> stays L (map_option (map_sum id snd) (f s)) \<and> (\<forall>n s'. f s = Some (Inr (n, s')) \<longrightarrow> n \<le> L))
    \<Longrightarrow> stays L (map_option (map_sum id snd) (andthen m f)) \<and> (\<forall>n s'. andthen m f = Some (Inr (n, s')) \<longrightarrow> n \<le> L)"
proof (cases "(m, f)" rule: andthen.cases)
  case (2 e g)
  assume "stays L m"
  then show ?thesis using 2 by (cases e) (simp add: stays_def)
next
  case (3 s g)
  assume m: "stays L m" and f: "\<And>s. window L s \<Longrightarrow> extern_ptr s \<le> L \<Longrightarrow>
    stays L (map_option (map_sum id snd) (f s)) \<and> (\<forall>n s'. f s = Some (Inr (n, s')) \<longrightarrow> n \<le> L)"
  have "window L s" "extern_ptr s \<le> L" using m 3 by (simp_all add: stays_def)
  from f[OF this] show ?thesis using 3 by simp
qed simp

lemma extern_value_stays:
  assumes "window L s"
  shows "stays L (map_option (map_sum id snd) (extern_value n ca at h v ign closures s))
    \<and> (\<forall>len s'. extern_value n ca at h v ign closures s = Some (Inr (len, s')) \<longrightarrow> len \<le> L)"
proof -
  have w: "window L (init_extern (set_flags ign closures s))"
    using assms by (simp add: init_extern_def set_flags_def window_def Let_def)
  have c: "window L (s\<lparr>extern_ptr := p\<rparr>) = window L s" "window L (s\<lparr>initial_ofs := q\<rparr>) = window L s"
    "window L (free_extern_table s) = window L s" for s p q by (simp_all add: window_def)
  show ?thesis
    unfolding extern_value_def Let_def
    by (intro stays_result stays_codes extern_rec_stays conjI) (simp_all add: w c stays_codes stays_ok[unfolded ok_def] ok_def)
qed

text \<open>
  Whatever the value, marshalling into a buffer never writes outside the window it is given, although the room for the
  sizes is skipped without a check: the buffer keeps its length and its bytes outside the window, the
  length returned is at most that of the window, and on an error the window is as long as before.
\<close>
lemma output_window_kept:
  assumes "ofs + len \<le> length buf"
  shows "case output_value_to_buffer n ca at h buf ofs len v ign closures s of
      Some (Inr (r, buf', s')) \<Rightarrow> length buf' = length buf \<and> take ofs buf' = take ofs buf
        \<and> drop (ofs + len) buf' = drop (ofs + len) buf \<and> (\<exists>m \<le> len. r = Val_long (word_of_nat m))
    | Some (Inl (e, s')) \<Rightarrow> length (extern_block s') = len
    | None \<Rightarrow> True"
proof -
  let ?s = "s\<lparr>extern_block := take len (drop ofs buf), extern_ptr := 0, extern_block_malloced := False\<rparr>"
  have w: "window len ?s" using assms by (simp add: window_def)
  let ?r = "extern_value n ca at h v ign closures ?s"
  note st = extern_value_stays[OF w, of n ca at h v ign closures]
  consider "?r = None" | e s' where "?r = Some (Inl (e, s'))" | m s' where "?r = Some (Inr (m, s'))"
    by (metis not_None_eq sumE surj_pair)
  then show ?thesis
  proof cases
    case 1
    then show ?thesis by (simp add: output_value_to_buffer_def)
  next
    case 2
    then show ?thesis using st by (simp add: output_value_to_buffer_def stays_def window_def)
  next
    case 3
    then have "length (extern_block s') = len" "m \<le> len" using st by (simp_all add: stays_def window_def)
    then show ?thesis using 3 assms by (auto simp: output_value_to_buffer_def ok_def)
  qed
qed

text \<open>
  The writer on the window compared with the writer on an allocated block, which never runs out of
  room. \<open>mirror L P W s w\<close>: the states differ only in their blocks; as long as the pointer is in the
  window, the window holds the prefix \<open>P\<close>, the output of \<open>s\<close> after its first \<open>length P\<close> bytes and, from
  the pointer on, the bytes \<open>W\<close> it had at first.
\<close>

definition mirror :: "nat \<Rightarrow> u8 list \<Rightarrow> u8 list \<Rightarrow> extern_state \<Rightarrow> extern_state \<Rightarrow> bool" where
  "mirror L P W s w \<longleftrightarrow> wf_out s \<and> w = s\<lparr>extern_block := extern_block w, extern_block_malloced := False\<rparr>
     \<and> length (extern_block w) = L
     \<and> (extern_ptr s \<le> L \<longrightarrow> length P \<le> extern_ptr s \<and> take (extern_ptr s) (extern_block w) = P @ drop (length P) (out s)
          \<and> drop (extern_ptr s) (extern_block w) = drop (extern_ptr s) W)"

definition overflows :: "nat \<Rightarrow> (ml_error \<times> extern_state + 'a) option \<Rightarrow> bool" where
  "overflows L r \<longleftrightarrow> (\<exists>w. r = Some (Inl (Failure ''Marshal.to_buffer: buffer overflow'', w)) \<and> length (extern_block w) = L)"

text \<open>
  \<open>sim\<close>: when the first writer goes on to \<open>s'\<close>, the second goes on to a mirroring state if the pointer
  of \<open>s'\<close> is in the window, and overflows if it is not; a routine that may write nothing (\<open>b\<close> false) has
  to overflow only when it has started in the window.
\<close>

definition sim :: "bool \<Rightarrow> nat \<Rightarrow> u8 list \<Rightarrow> u8 list \<Rightarrow> nat \<Rightarrow> extern_state xres \<Rightarrow> extern_state xres \<Rightarrow> bool" where
  "sim b L P W p rm rw \<longleftrightarrow> (\<forall>s'. rm = Some (Inr s') \<longrightarrow> p \<le> extern_ptr s' \<and> wf_out s' \<and>
     (if extern_ptr s' \<le> L then \<exists>w'. rw = Some (Inr w') \<and> mirror L P W s' w' else (b \<or> p \<le> L) \<longrightarrow> overflows L rw))"

lemma mirror_beyond: "wf_out s \<Longrightarrow> L < extern_ptr s \<Longrightarrow> mirror L P W s (s\<lparr>extern_block := replicate L 0, extern_block_malloced := False\<rparr>)"
  by (simp add: mirror_def)

lemma sim_andthen:
  assumes m: "sim True L P W p m m'"
    and f: "\<And>s w. mirror L P W s w \<Longrightarrow> sim False L P W (extern_ptr s) (f s) (f w)"
  shows "sim True L P W p (andthen m f) (andthen m' f)"
  unfolding sim_def
proof (intro allI impI)
  fix s2 assume "andthen m f = Some (Inr s2)"
  then obtain s1 where s1: "m = Some (Inr s1)" "f s1 = Some (Inr s2)" by (auto simp: andthen_Inr)
  then have 1: "p \<le> extern_ptr s1" "wf_out s1"
      "if extern_ptr s1 \<le> L then \<exists>w'. m' = Some (Inr w') \<and> mirror L P W s1 w' else overflows L m'"
    using m by (auto simp: sim_def)
  show "p \<le> extern_ptr s2 \<and> wf_out s2 \<and>
     (if extern_ptr s2 \<le> L then \<exists>w'. andthen m' f = Some (Inr w') \<and> mirror L P W s2 w'
      else True \<or> p \<le> L \<longrightarrow> overflows L (andthen m' f))"
  proof (cases "extern_ptr s1 \<le> L")
    case True
    then obtain w1 where w1: "m' = Some (Inr w1)" "mirror L P W s1 w1" using 1(3) by auto
    show ?thesis using f[OF w1(2)] s1(2) 1(1) True w1(1) by (auto simp: sim_def)
  next
    case False
    then have "sim False L P W (extern_ptr s1) (f s1) (f (s1\<lparr>extern_block := replicate L 0, extern_block_malloced := False\<rparr>))"
      by (intro f mirror_beyond 1(2)) simp
    then have "extern_ptr s1 \<le> extern_ptr s2" "wf_out s2" using s1(2) by (auto simp: sim_def)
    then show ?thesis using 1 False by (auto simp: overflows_def)
  qed
qed

lemma sim_weaken: "sim True L P W p m m' \<Longrightarrow> sim b L P W p m m'"
  by (auto simp: sim_def)

lemma sim_put:
  assumes "mirror L P W s w"
  shows "sim True L P W (extern_ptr s) (put bs s) (put bs w)"
proof -
  have s: "wf_out s" and w: "w = s\<lparr>extern_block := extern_block w, extern_block_malloced := False\<rparr>" "length (extern_block w) = L"
    and in_w: "extern_ptr s \<le> L \<Longrightarrow> length P \<le> extern_ptr s \<and> take (extern_ptr s) (extern_block w) = P @ drop (length P) (out s)
          \<and> drop (extern_ptr s) (extern_block w) = drop (extern_ptr s) W"
    using assms by (auto simp: mirror_def)
  obtain s' blk where s': "put bs s = Some (Inr s')" "s' = s\<lparr>extern_block := blk, extern_ptr := extern_ptr s + length bs\<rparr>"
      "out s' = out s @ bs" "wf_out s'"
    using put_ok[OF s, of bs] by (auto simp: grew_def)
  have p: "extern_ptr w = extern_ptr s" by (subst w(1)) simp
  show ?thesis
  proof (cases "extern_ptr s + length bs \<le> L")
    case True
    let ?w = "w\<lparr>extern_block := take (extern_ptr s) (extern_block w) @ bs @ drop (extern_ptr s + length bs) (extern_block w),
        extern_ptr := extern_ptr s + length bs\<rparr>"
    have pw: "put bs w = Some (Inr ?w)" using put_over[of w bs] True w(2) by (simp add: p)
    have o: "length (out s) = extern_ptr s" using s by (simp add: out_def wf_out_def)
    have i: "length P \<le> extern_ptr s" "take (extern_ptr s) (extern_block w) = P @ drop (length P) (out s)"
        "drop (extern_ptr s) (extern_block w) = drop (extern_ptr s) W"
      using in_w True by auto
    have "drop (extern_ptr s + length bs) (extern_block w) = drop (length bs) (drop (extern_ptr s) (extern_block w))"
      by (simp add: add.commute)
    also have "\<dots> = drop (extern_ptr s + length bs) W" unfolding i(3) by (simp add: add.commute)
    finally have d: "drop (extern_ptr s + length bs) (extern_block w) = drop (extern_ptr s + length bs) W" .
    define B where "B = extern_block ?w"
    have "?w = s'\<lparr>extern_block := B, extern_block_malloced := False\<rparr>"
      unfolding B_def by (subst w(1)) (simp add: s'(2))
    moreover have l: "length B = L" using True w(2) by (simp add: B_def)
    moreover have "take (extern_ptr s') B = P @ drop (length P) (out s')"
      using i(1) o w(2) True by (simp add: B_def s'(2) s'(3)[unfolded s'(2)] i(2))
    moreover have "drop (extern_ptr s') B = drop (extern_ptr s') W"
      using w(2) True by (simp add: B_def s'(2) d)
    moreover have "extern_block ?w = B" "length P \<le> extern_ptr s'" using i(1) by (simp_all add: B_def s'(2))
    ultimately have "mirror L P W s' ?w" using s'(4) unfolding mirror_def by (metis (no_types))
    then show ?thesis using s' pw True by (auto simp: sim_def)
  next
    case False
    have "put bs w = andthen (resize_extern_block (length bs) w) (\<lambda>s. ok (s\<lparr>extern_block := take (extern_ptr s) (extern_block s) @ bs
                   @ drop (extern_ptr s + length bs) (extern_block s), extern_ptr := extern_ptr s + length bs\<rparr>))"
      using False w(2) by (simp add: put_def p)
    moreover have "\<not> extern_block_malloced w" by (subst w(1)) simp
    ultimately have "overflows L (put bs w)"
      using w(2) by (simp add: resize_extern_block_def fails_def overflows_def free_extern_table_def)
    then show ?thesis using s' False by (auto simp: sim_def)
  qed
qed

lemma sim_codes:
  assumes "mirror L P W s w"
  shows "sim True L P W (extern_ptr s) (Write c s) (Write c w)" "sim True L P W (extern_ptr s) (writeblock bs s) (writeblock bs w)"
    "sim True L P W (extern_ptr s) (writecode8 c x s) (writecode8 c x w)" "sim True L P W (extern_ptr s) (writecode16 c x s) (writecode16 c x w)"
    "sim True L P W (extern_ptr s) (writecode32 c x s) (writecode32 c x w)" "sim True L P W (extern_ptr s) (write32 x s) (write32 x w)"
  unfolding Write_def writeblock_def writecode8_def writecode16_def writecode32_def write32_def
  by (rule sim_put[OF assms])+

lemma sim_fails: "sim b L P W p (extern_invalid_argument msg s) r" "sim b L P W p None r"
  by (simp_all add: sim_def extern_invalid_argument_def fails_def)

lemma sim_choices:
  assumes "mirror L P W s w"
  shows "sim True L P W (extern_ptr s) (extern_int v s) (extern_int v w)"
    "sim True L P W (extern_ptr s) (extern_shared x s) (extern_shared x w)"
  using assms unfolding extern_int_def extern_shared_def by (auto simp: Let_def intro!: sim_codes)

lemma sim_sizes: "mirror L P W s w \<Longrightarrow> sim False L P W (extern_ptr s) (ok (add_sizes a b s)) (ok (add_sizes a b w))"
proof -
  assume m: "mirror L P W s w"
  have w: "w = s\<lparr>extern_block := extern_block w, extern_block_malloced := False\<rparr>" using m by (simp add: mirror_def)
  have "size_32 w = size_32 s" "size_64 w = size_64 s" by (subst w, simp)+
  then have "add_sizes a b w = (add_sizes a b s)\<lparr>extern_block := extern_block w, extern_block_malloced := False\<rparr>"
    unfolding add_sizes_def by (subst w) simp
  then have "mirror L P W (add_sizes a b s) (add_sizes a b w)"
    using m by (auto simp: mirror_def wf_out_def out_def add_sizes_def)
  then show ?thesis by (auto simp: sim_def ok_def mirror_def add_sizes_def)
qed

lemma sim_items:
  assumes m: "mirror L P W s w"
  shows "sim True L P W (extern_ptr s) (extern_string h v s) (extern_string h v w)"
    "sim True L P W (extern_ptr s) (extern_double h v s) (extern_double h v w)"
    "sim True L P W (extern_ptr s) (extern_double_array h v n s) (extern_double_array h v n w)"
    "sim True L P W (extern_ptr s) (extern_header hdr s) (extern_header hdr w)"
proof -
  show "sim True L P W (extern_ptr s) (extern_string h v s) (extern_string h v w)"
  proof (cases "string_length h v")
    case (Some len)
    show ?thesis
    proof (cases "bytes_of h v 0 (unat len)")
      case b: (Some bs)
      show ?thesis unfolding extern_string_def Some Option.bind.simps b
        by (rule sim_andthen, rule sim_andthen) (auto intro: sim_codes[OF m] sim_weaken sim_codes sim_sizes)
    qed (simp add: extern_string_def Some sim_fails)
  qed (simp add: extern_string_def sim_fails)
  show "sim True L P W (extern_ptr s) (extern_double h v s) (extern_double h v w)"
  proof (cases "bytes_of h v 0 8")
    case (Some bs)
    show ?thesis unfolding extern_double_def Some Option.bind.simps
      by (rule sim_andthen, rule sim_andthen) (auto intro: sim_codes[OF m] sim_weaken sim_codes sim_sizes)
  qed (simp add: extern_double_def sim_fails)
  show "sim True L P W (extern_ptr s) (extern_double_array h v n s) (extern_double_array h v n w)"
  proof (cases "bytes_of h v 0 (unat (Bsize_wsize n))")
    case (Some bs)
    show ?thesis unfolding extern_double_array_def Let_def Some Option.bind.simps
      by (rule sim_andthen, rule sim_andthen) (auto intro: sim_codes[OF m] sim_weaken sim_codes sim_sizes)
  qed (simp add: extern_double_array_def sim_fails)
  show "sim True L P W (extern_ptr s) (extern_header hdr s) (extern_header hdr w)"
    unfolding extern_header_def Let_def by (rule sim_andthen) (auto intro: sim_codes[OF m] sim_sizes)
qed

lemma mirror_seen:
  assumes m: "mirror L P W s w" and e: "extern_seen v s = Some (r, s1)"
  shows "\<exists>w1. extern_seen v w = Some (r, w1) \<and> mirror L P W s1 w1 \<and> extern_ptr s1 = extern_ptr s"
proof -
  let ?f = "\<lambda>s. s\<lparr>extern_block := extern_block w, extern_block_malloced := False\<rparr>"
  have w: "w = ?f s" using m by (simp add: mirror_def)
  have "extern_seen v (?f s) = map_option (map_prod id ?f) (extern_seen v s)"
    by (auto simp: extern_seen_def resize_extern_table_def Let_def split: bind_splits option.splits)
  then have "extern_seen v w = Some (r, ?f s1)" using e by (subst w) simp
  moreover have s1: "extern_ptr s1 = extern_ptr s" "extern_block s1 = extern_block s"
      "extern_block_malloced s1 = extern_block_malloced s"
    using e by (auto simp: extern_seen_def resize_extern_table_def Let_def split: bind_splits if_splits option.splits)
  moreover have "mirror L P W s1 (?f s1)" using m s1 by (simp add: mirror_def wf_out_def out_def)
  ultimately show ?thesis by blast
qed

lemma mirror_sel: "mirror L P W s w \<Longrightarrow> extern_ignore_sharing w = extern_ignore_sharing s \<and> extern_closures w = extern_closures s
    \<and> extern_ptr w = extern_ptr s"
  unfolding mirror_def by (metis (no_types, lifting) extern_state.select_convs extern_state.surjective extern_state.update_convs)

lemma extern_rec_sim:
  "mirror L P W s w \<Longrightarrow> sim True L P W (extern_ptr s) (extern_rec n ca at h v s) (extern_rec n ca at h v w)"
  "mirror L P W s w \<Longrightarrow> sim False L P W (extern_ptr s) (extern_fields n ca at h a k s) (extern_fields n ca at h a k w)"
proof (induction n ca at h v s and n ca at h a k s arbitrary: w and w rule: extern_rec_extern_fields.induct)
  case (1 ca at h v s)
  then show ?case by (simp add: sim_fails)
next
  case (2 n ca at h v s)
  note m = 2(3)
  have sel: "extern_ignore_sharing w = extern_ignore_sharing s" "extern_closures w = extern_closures s"
    using mirror_sel[OF m] by simp_all
  show ?case
  proof (cases "Is_long v \<or> \<not> in_memory at h v")
    case True
    then show ?thesis using m sel
      by (auto intro!: sim_andthen sim_choices sim_fails intro: sim_codes sim_weaken)
  next
    case False
    then have mem: "\<not> Is_long v" "in_memory at h v" by simp_all
    show ?thesis
    proof (cases "Hd_val h v")
      case None
      then show ?thesis using mem by (simp add: sim_fails)
    next
      case (Some hdr)
      let ?r = "if extern_ignore_sharing s then Some (None, s) else extern_seen v s"
      show ?thesis
      proof (cases "Wosize_hd hdr = 0 \<or> ?r = None")
        case True
        then show ?thesis using mem Some m sim_codes[OF m] by (auto simp: Let_def sim_fails split: if_splits)
      next
        case f: False
        then obtain seen s1 where r: "?r = Some (seen, s1)" by auto
        obtain w1 where w1: "(if extern_ignore_sharing w then Some (None, w) else extern_seen v w) = Some (seen, w1)"
            "mirror L P W s1 w1" "extern_ptr s1 = extern_ptr s"
          using r m sel(1) mirror_seen[OF m, of v] by (auto split: if_splits)
        have nz: "Wosize_hd hdr \<noteq> 0" using f by simp
        have blk: "Is_block v" using mem(1) by (simp add: Is_block_def Is_long_def)
        note es = extern_rec_block[OF blk mem(2) Some nz r] and ew = extern_rec_block[OF blk mem(2) Some nz w1(1)]
        show ?thesis
        proof (cases seen)
          case None
          note ih = 2(1)[OF mem Some refl refl nz r refl None] 2(2)[OF mem Some refl refl nz r refl None]
          show ?thesis unfolding es ew None option.case w1(3)[symmetric] using w1(2) ih
            by (auto intro!: sim_andthen sim_items sim_fails sim_codes intro: sim_weaken)
        next
          case (Some d)
          show ?thesis unfolding es ew Some option.case using sim_choices(2)[OF w1(2)] w1(3) by simp
        qed
      qed
    qed
  qed
next
  case (3 n ca at h a s)
  then show ?case by (auto simp: sim_def ok_def mirror_def)
next
  case (4 n ca at h a k s)
  show ?case
  proof (cases "load h a")
    case None
    then show ?thesis by (simp add: sim_fails)
  next
    case (Some v)
    show ?thesis using sim_weaken[OF sim_andthen[OF 4(1)[OF Some 4(3)] 4(2)[OF Some]]] by (simp add: Some)
  qed
qed

text \<open>The end of \<open>extern_value\<close>: the sizes are stored over the room left for them.\<close>

lemma finish_value:
  assumes blk: "extern_block u = P @ bs @ R" "length P = 20" "take 4 P = be32 Intext_magic_number"
    and u: "extern_ptr u = 20 + length bs" "tracks u objs" "obj_counter u = word_of_nat (length objs)" "size_32 u = word_of_nat w"
  shows "\<exists>s' s64. (let s = free_extern_table (u\<lparr>initial_ofs := initial_ofs u + obj_counter u\<rparr>); res_len = extern_ptr s; s = s\<lparr>extern_ptr := 4\<rparr>
     in andthen (write32 (word_of_nat res_len - 5 * 4) s) (\<lambda>s. andthen (write32 (obj_counter s) s) (\<lambda>s.
        andthen (write32 (size_32 s) s) (\<lambda>s. andthen (write32 (size_64 s) s) (\<lambda>s. ok (res_len, s)))))) = Some (Inr (20 + length bs, s'))
    \<and> table_ready s' \<and> extern_block s' = marshalled (word_of_nat (length objs)) (word_of_nat w) s64 bs @ R"
proof -
  define u3 where "u3 = free_extern_table (u\<lparr>initial_ofs := initial_ofs u + obj_counter u\<rparr>)"
  have t3: "table_ready u3" unfolding u3_def by (rule table_ready_after[OF u(2)])
  have e3: "extern_block u3 = P @ bs @ R" "extern_ptr u3 = 20 + length bs" "obj_counter u3 = word_of_nat (length objs)" "size_32 u3 = word_of_nat w"
    using u blk(1) by (simp_all add: u3_def free_extern_table_def)
  define hdr where "hdr = be32 (word_of_nat (length bs)) @ be32 (word_of_nat (length objs)) @ be32 (word_of_nat w) @ be32 (size_64 u3)"
  define u4 where "u4 = u3\<lparr>extern_ptr := 4\<rparr>"
  have sz: "obj_counter u4 = word_of_nat (length objs)" "size_32 u4 = word_of_nat w" "size_64 u4 = size_64 u3" "extern_ptr u4 = 4"
    "extern_block u4 = P @ bs @ R"
    by (simp_all add: u4_def e3)
  have l4: "length hdr = 16" "20 \<le> length (extern_block u4)" using blk(2) by (simp_all add: hdr_def sz(5))
  define u5 where "u5 = u4\<lparr>extern_block := be32 Intext_magic_number @ hdr @ bs @ R, extern_ptr := 20\<rparr>"
  have "take 4 (extern_block u4) = be32 Intext_magic_number" "drop 20 (extern_block u4) = bs @ R"
    using blk(2,3) by (simp_all add: sz(5))
  then have p5: "put hdr u4 = Some (Inr u5)" using put_over[of u4 hdr] l4 sz(4) by (simp add: u5_def)
  have "word_of_nat (extern_ptr u3) - 5 * 4 = (word_of_nat (length bs) :: u32)" by (simp add: e3)
  then have "andthen (write32 (word_of_nat (extern_ptr u3) - 5 * 4) u4) (\<lambda>s. andthen (write32 (obj_counter s) s)
      (\<lambda>s. andthen (write32 (size_32 s) s) (\<lambda>s. andthen (write32 (size_64 s) s) (\<lambda>s. ok (extern_ptr u3, s)))))
      = Some (Inr (20 + length bs, u5))"
    using put_header[of u4 "word_of_nat (length bs)" u5 "20 + length bs"] l4(2) p5 by (simp add: hdr_def sz e3)
  moreover have "table_ready u5" using t3 by (simp add: u5_def u4_def table_ready_def)
  moreover have "extern_block u5 = marshalled (word_of_nat (length objs)) (word_of_nat w) (size_64 u3) bs @ R"
    by (simp add: u5_def marshalled_def hdr_def)
  ultimately show ?thesis unfolding Let_def u3_def[symmetric] u4_def[symmetric] by blast
qed

text \<open>The writer of a representable value on a window.\<close>

lemma extern_value_window:
  fixes W :: "u8 list"
  assumes r: "repr at h v t" and al: "aligned_heap h" and tr: "table_ready s"
    and w: "serial_words h ign v t \<le> 4194304" and n: "tdepth t < n"
  defines "v0 \<equiv> s\<lparr>extern_block := W, extern_ptr := 0, extern_block_malloced := False\<rparr>"
    and "len \<equiv> 20 + length (serial h ign v t)"
  shows "if len \<le> length W
    then \<exists>s' s64. extern_value n ca at h v ign closures v0 = Some (Inr (len, s')) \<and> table_ready s'
      \<and> extern_block s' = marshalled (word_of_nat (serial_objects h ign v t)) (word_of_nat (serial_words h ign v t)) s64 (serial h ign v t)
          @ drop len W
    else overflows (length W) (extern_value n ca at h v ign closures v0)"
proof -
  obtain bs objs w' where ser: "ser h ign v t [] = (bs, objs, w')" using prod_cases3 by blast
  have sd: "serial h ign v t = bs" "serial_objects h ign v t = length objs" "serial_words h ign v t = w'"
    by (simp_all add: serial_def serial_objects_def serial_words_def ser)
  have len: "len = 20 + length bs" by (simp add: len_def sd)
  define s0 where "s0 = init_extern (set_flags ign closures (alloc_extern_block s))"
  have i0: "tracks s0 []" "initial_ofs s0 < INITIAL_OFFSET_MAX"
    using init_extern_ok[of "set_flags ign closures (alloc_extern_block s)"] tr
    by (simp_all add: s0_def table_ready_def set_flags_def alloc_extern_block_def)
  have b0: "extern_ptr s0 = 0" "extern_block_malloced s0" "extern_ignore_sharing s0 = ign" "size_32 s0 = 0"
    by (simp_all add: s0_def init_extern_def set_flags_def alloc_extern_block_def Let_def)
  define u0 where "u0 = s0\<lparr>extern_block := W, extern_block_malloced := False\<rparr>"
  have v0: "init_extern (set_flags ign closures v0) = u0"
    by (simp add: u0_def s0_def v0_def init_extern_def set_flags_def alloc_extern_block_def Let_def)
  show ?thesis
  proof (cases "length W < 4")
    case True
    then have "overflows (length W) (write32 Intext_magic_number u0)"
      by (simp add: write32_def put_def resize_extern_block_def u0_def b0 overflows_def fails_def)
    then have "overflows (length W) (extern_value n ca at h v ign closures v0)"
      by (auto simp: extern_value_def Let_def v0 overflows_def)
    then show ?thesis using True len by simp
  next
    case False
    define um where "um = u0\<lparr>extern_block := be32 Intext_magic_number @ drop 4 W, extern_ptr := 4\<rparr>"
    define u1 where "u1 = um\<lparr>extern_ptr := extern_ptr um + 4 * 4\<rparr>"
    have pm: "write32 Intext_magic_number u0 = Some (Inr um)"
      using False by (simp add: write32_def put_over u0_def b0 um_def)
    define s1 where "s1 = s0\<lparr>extern_block := be32 Intext_magic_number @ replicate 8188 0, extern_ptr := 20\<rparr>"
    have w1: "wf_out s1" "length (out s1) = 20" "extern_ignore_sharing s1 = ign" "tracks s1 []" "size_32 s1 = 0"
        "initial_ofs s1 = initial_ofs s0" "extern_ptr s1 = 20"
      using i0(1) tracks_cong[of s1 s0 "[]"] by (simp_all add: wf_out_def out_def s1_def b0)
    define P where "P = be32 Intext_magic_number @ take 16 (drop 4 W)"
    have m1: "mirror (length W) P W s1 u1"
      using w1(1,2) False by (simp add: mirror_def u1_def um_def u0_def s1_def P_def add.commute)
    have c: "length objs \<le> 4194304" using ser_count(1)[OF ser] w sd(3) by simp
    have f: "fits (initial_ofs s1) objs" using c i0(2) w1(6) by (simp add: fits_def INITIAL_OFFSET_MAX_def word_less_nat_alt)
    obtain s2 where s2: "extern_rec n ca at h v s1 = Some (Inr s2)" "wrote s1 bs objs w' s2"
      using extern_rec_ok(1)[OF al r w1(1,4,3) ser f n] by blast
    have o2: "out s2 = out s1 @ bs" "wf_out s2" using s2(2) by (simp_all add: wrote_def)
    have p2: "extern_ptr s2 = len"
      using arg_cong[OF o2(1), of length] o2(2) w1(2) by (simp add: out_def wf_out_def len)
    have sm: "if len \<le> length W then \<exists>u2. extern_rec n ca at h v u1 = Some (Inr u2) \<and> mirror (length W) P W s2 u2
        else overflows (length W) (extern_rec n ca at h v u1)"
      using extern_rec_sim(1)[OF m1, of n ca at h v] s2(1) by (simp add: sim_def p2)
    show ?thesis
    proof (cases "len \<le> length W")
      case False
      then have "overflows (length W) (extern_rec n ca at h v u1)" using sm by simp
      then have "overflows (length W) (extern_value n ca at h v ign closures v0)"
        by (auto simp: extern_value_def Let_def v0 pm u1_def overflows_def)
      then show ?thesis using False by simp
    next
      case True
      then obtain u2 where u2: "extern_rec n ca at h v u1 = Some (Inr u2)" and m2: "mirror (length W) P W s2 u2" using sm by auto
      have l20: "20 \<le> length W" "length P = 20" using True len by (simp_all add: P_def)
      have eq2: "u2 = s2\<lparr>extern_block := extern_block u2, extern_block_malloced := False\<rparr>" using m2 by (simp add: mirror_def)
      have blk2: "extern_block u2 = P @ bs @ drop len W"
      proof -
        have "take len (extern_block u2) = P @ drop 20 (out s2)" "drop len (extern_block u2) = drop len W"
          using m2 True p2 l20(2) by (simp_all add: mirror_def)
        moreover have "drop 20 (out s2) = bs" using o2(1) w1(2) by simp
        ultimately show ?thesis by (metis append.assoc append_take_drop_id)
      qed
      have sel: "obj_counter u2 = word_of_nat (length objs)" "size_32 u2 = word_of_nat w'" "extern_ptr u2 = len" "tracks u2 objs"
        using s2(2) w1(5) p2 tracks_cong[of u2 s2 objs] by (subst eq2, simp add: wrote_def tracks_def)+
      have "take 4 P = be32 Intext_magic_number" by (simp add: P_def)
      from finish_value[OF blk2 l20(2) this _ sel(4,1,2)] sel(3) obtain s' s64 where
        "extern_value n ca at h v ign closures v0 = Some (Inr (len, s'))" "table_ready s'"
        "extern_block s' = marshalled (word_of_nat (length objs)) (word_of_nat w') s64 bs @ drop len W"
        unfolding extern_value_def Let_def v0 pm andthen.simps u1_def[symmetric] u2 len by blast
      then show ?thesis using True unfolding sd by auto
    qed
  qed
qed

text \<open>
  C25. Marshalling into a window of a buffer, for a value that represents data of at most \<open>2^22\<close> words.
  The writer returns. When the message, its header of 20 bytes and the serialisation, fits, the
  result is its length, the message lies at the start of the window, every other byte of the buffer
  is as before, and the table is ready for the next value. When it does not, the result is the
  failure \<open>buffer overflow\<close>, also when it is noticed only after the room for the sizes has been
  skipped without a check, and nothing was written outside the window.
\<close>

theorem output_window:
  assumes "repr at h v t" "aligned_heap h" "table_ready s" "serial_words h ign v t \<le> 4194304" "tdepth t < n"
    and "ofs + len \<le> length buf"
  shows "\<exists>s'. if 20 + length (serial h ign v t) \<le> len
    then table_ready s' \<and> (\<exists>s64. output_value_to_buffer n ca at h buf ofs len v ign closures s =
      (let msg = marshalled (word_of_nat (serial_objects h ign v t)) (word_of_nat (serial_words h ign v t)) s64 (serial h ign v t)
       in Some (Inr (Val_long (word_of_nat (length msg)), take ofs buf @ msg @ drop (ofs + length msg) buf, s'))))
    else output_value_to_buffer n ca at h buf ofs len v ign closures s =
      Some (Inl (Failure ''Marshal.to_buffer: buffer overflow'', s')) \<and> length (extern_block s') = len"
proof -
  let ?W = "take len (drop ofs buf)" and ?len = "20 + length (serial h ign v t)"
  have W: "length ?W = len" using assms(6) by simp
  note ev = extern_value_window[OF assms(1-5), where W = ?W and ca = ca and closures = closures, unfolded W]
  show ?thesis
  proof (cases "?len \<le> len")
    case True
    then obtain s' s64 where s': "extern_value n ca at h v ign closures
        (s\<lparr>extern_block := ?W, extern_ptr := 0, extern_block_malloced := False\<rparr>) = Some (Inr (?len, s'))" "table_ready s'"
      "extern_block s' = marshalled (word_of_nat (serial_objects h ign v t)) (word_of_nat (serial_words h ign v t)) s64 (serial h ign v t)
          @ drop ?len ?W"
      using ev by auto
    have "drop ?len ?W @ drop (ofs + len) buf = drop (ofs + ?len) buf"
    proof -
      have "drop ?len ?W = take (len - ?len) (drop (ofs + ?len) buf)" by (simp add: drop_take add.commute)
      moreover have "drop (ofs + len) buf = drop (len - ?len) (drop (ofs + ?len) buf)" using True by (simp add: add.commute)
      ultimately show ?thesis by (metis append_take_drop_id)
    qed
    then show ?thesis using True s'
      by (intro exI[of _ s']) (auto simp: output_value_to_buffer_def ok_def Let_def marshalled_def)
  next
    case False
    then show ?thesis using ev by (auto simp: output_value_to_buffer_def overflows_def)
  qed
qed

theorem output_window_witness:
  "(\<exists>s' s64. output_value_to_buffer 4 \<lparr>code_start = 0, code_end = 0, code_checksum = []\<rparr> 0 heap0 (replicate 40 7) 3 30 0x1004 False False writer1
      = Some (Inr (Val_long 25, replicate 3 7 @ marshalled 2 5 s64 [160, 69, 34, 97, 98] @ replicate 12 7, s')))
   \<and> (\<exists>s'. output_value_to_buffer 4 \<lparr>code_start = 0, code_end = 0, code_checksum = []\<rparr> 0 heap0 (replicate 40 7) 3 24 0x1004 False False writer1
      = Some (Inl (Failure ''Marshal.to_buffer: buffer overflow'', s')))"
proof -
  let ?t = "TBlock 0 [TInt 5, TStr [97, 98]]" and ?ca = "\<lparr>code_start = 0, code_end = 0, code_checksum = []\<rparr>"
  have ser: "serial heap0 False 0x1004 ?t = [160, 69, 34, 97, 98]" "serial_objects heap0 False 0x1004 ?t = 2"
      "serial_words heap0 False 0x1004 ?t = 5"
    by code_simp+
  have pre: "repr 0 heap0 0x1004 ?t" "aligned_heap heap0" "table_ready writer1" "serial_words heap0 False 0x1004 ?t \<le> 4194304"
      "tdepth ?t < 4"
    using heap0_repr(1) heap0_aligned ser(3) by (simp_all add: table_ready_def writer1_def)
  show ?thesis
    using output_window[OF pre, of 3 30 "replicate 40 7" ?ca False] output_window[OF pre, of 3 24 "replicate 40 7" ?ca False]
    by (auto simp: ser marshalled_def be32_def)
qed

section \<open>The table of objects\<close>

text \<open>Looking up the objects of a list in turn, in the table and in a list of the objects seen.\<close>

fun seen_all :: "val list \<Rightarrow> extern_state \<Rightarrow> (u32 option list \<times> extern_state) option" where
  "seen_all [] s = Some ([], s)"
| "seen_all (v # vs) s = do {
     (r, s) \<leftarrow> extern_seen v s;
     (rs, s) \<leftarrow> seen_all vs s;
     Some (r # rs, s)
   }"

fun seen_list :: "val list \<Rightarrow> val list \<Rightarrow> u32 option list" where
  "seen_list objs [] = []"
| "seen_list objs (v # vs) =
    (if v \<in> set objs then Some (word_of_nat (length objs - obj_index v objs)) # seen_list objs vs
     else None # seen_list (objs @ [v]) vs)"

lemma seen_all_ok:
  assumes "tracks s objs" "length objs + length vs < 2147483648" "unat (initial_ofs s) + length objs + length vs < 4294967296"
  shows "\<exists>s' objs'. seen_all vs s = Some (seen_list objs vs, s') \<and> tracks s' objs' \<and> set objs' = set objs \<union> set vs"
  using assms
proof (induction vs arbitrary: s objs)
  case (Cons v vs)
  define objs1 where "objs1 = (if v \<in> set objs then objs else objs @ [v])"
  obtain tbl k where e: "extern_seen v s = Some (if v \<in> set objs then Some (word_of_nat (length objs - obj_index v objs)) else None,
        s\<lparr>extern_table := tbl, obj_counter := k\<rparr>)" "tracks (s\<lparr>extern_table := tbl, obj_counter := k\<rparr>) objs1"
    using extern_seen_ok[OF Cons.prems(1), of v] Cons.prems(2,3) unfolding objs1_def by auto
  have "length objs1 \<le> length objs + 1" by (simp add: objs1_def)
  then obtain s' objs' where "seen_all vs (s\<lparr>extern_table := tbl, obj_counter := k\<rparr>) = Some (seen_list objs1 vs, s')"
      "tracks s' objs'" "set objs' = set objs1 \<union> set vs"
    using Cons.IH[OF e(2)] Cons.prems(2,3) by auto
  then show ?case using e(1) by (intro exI[of _ s'] exI[of _ objs']) (auto simp: objs1_def)
qed auto

text \<open>
  C24. The table of the objects already written, a hash table with linear probing that grows and is
  reused between values without being cleared, answers as the list of the objects in the order they
  were met: the first lookup of an object finds nothing, each later one the distance in objects to it;
  every lookup returns, up to a thousand million objects.
\<close>
theorem extern_table_refines:
  assumes "table_ready s" "length vs < 1073741824"
  shows "\<exists>s' objs. seen_all vs (init_extern s) = Some (seen_list [] vs, s') \<and> tracks s' objs \<and> set objs = set vs"
proof -
  have "unat (initial_ofs (init_extern s)) < 2147483648"
    using init_extern_ok(2)[OF assms(1)] by (simp add: INITIAL_OFFSET_MAX_def word_less_nat_alt)
  then show ?thesis using seen_all_ok[OF init_extern_ok(1)[OF assms(1)], of vs] assms(2) by simp
qed

theorem extern_table_refines_witness:
  "\<exists>s' objs. seen_all [8, 12, 8] (init_extern writer1) = Some ([None, None, Some 2], s') \<and> tracks s' objs \<and> set objs = set [8, 12, 8]"
  using extern_table_refines[of writer1 "[8, 12, 8]"] by (simp add: table_ready_def writer1_def obj_index_def)

section \<open>Messages the reader refuses\<close>

lemma ill_formed_item:
  fixes code :: u8
  assumes "0x12 \<le> code" "code < 0x20"
  shows "intern_item ca (ucast code) s = intern_fails (Failure ''input_value: ill-formed message'') s"
proof -
  define u :: u32 where "u = ucast code"
  have "unat u = unat code" by (simp add: u_def unat_ucast8)
  then have u: "18 \<le> u" "u < 32" using assms by (simp_all add: word_le_nat_alt word_less_nat_alt)
  then have "\<not> 0x80 \<le> u" "\<not> 0x40 \<le> u" "\<not> 0x20 \<le> u" by (simp_all add: word_le_nat_alt word_less_nat_alt)
  moreover have "u \<noteq> 0" "u \<noteq> 1" "u \<noteq> 2" "u \<noteq> 3" "u \<noteq> 4" "u \<noteq> 5" "u \<noteq> 6" "u \<noteq> 8" "u \<noteq> 9" "u \<noteq> 10" "u \<noteq> 11" "u \<noteq> 12" "u \<noteq> 13"
    "u \<noteq> 14" "u \<noteq> 15" "u \<noteq> 7" "u \<noteq> 16" "u \<noteq> 17"
    using u(1) by (auto simp: word_le_nat_alt)
  ultimately show ?thesis unfolding u_def[symmetric] by (simp add: intern_item_def code_values)
qed

text \<open>
  C26. A message without blocks whose code is not one of the format: the reader raises the failure, but
  restores \<open>intern_header\<close> at \<open>intern_block\<close> first, which \<open>intern_alloc\<close> has not set for this message:
  the word stored into is the header of the block of an earlier message, and the program faults when
  there was none.
\<close>
theorem ill_formed_without_blocks:
  assumes "0x12 \<le> code" "code < 0x20"
  shows "\<exists>s1. input_val_from_string alloc (Suc n) ca at (pre @ marshalled k 0 s64 (code # bs)) (length pre) s
      = map_option (\<lambda>h. Inl (Failure ''input_value: ill-formed message'', s1\<lparr>i_heap := h\<rparr>))
          (store (intern_block s - 4) (intern_header s) (i_heap s))"
proof -
  define inp where "inp = pre @ marshalled k 0 s64 (code # bs)"
  define s1 where "s1 = s\<lparr>intern_input := inp, intern_src := length pre + 2 * 4\<rparr>"
  have a1: "ahead s1 (be32 k @ be32 0 @ be32 s64 @ code # bs)"
    by (simp add: ahead_def s1_def inp_def marshalled_def)
  have a2: "ahead (skip 4 s1) (be32 0 @ be32 s64 @ code # bs)" using ahead_append(2)[OF a1] by simp
  have a3: "ahead (skip 8 s1) (be32 s64 @ code # bs)" using ahead_append(2)[OF a2] by simp
  define s2 where "s2 = (skip 12 s1)\<lparr>intern_obj_table := None, intern_src := length pre + 5 * 4\<rparr>"
  have al: "intern_alloc alloc 0 k (skip 12 s1) = Some (Inr ((skip 12 s1)\<lparr>intern_obj_table := None\<rparr>))"
    by (simp add: intern_alloc_def)
  have a4: "ahead s2 (code # bs)" by (simp add: ahead_def s2_def s1_def inp_def marshalled_def)
  have sel: "intern_block s2 = intern_block s" "intern_header s2 = intern_header s" "i_heap s2 = i_heap s"
    by (simp_all add: s2_def s1_def skip_def)
  have "input_val_from_string alloc (Suc n) ca at inp (length pre) s = intern_rec (Suc n) ca at None s2"
    unfolding input_val_from_string_def Let_def s1_def[symmetric]
    by (simp add: read32u_be32[OF a1] read32u_be32[OF a2] read32u_be32[OF a3] al s2_def del: intern_rec.simps)
  also have "\<dots> = map_option (\<lambda>h. Inl (Failure ''input_value: ill-formed message'', (skip 1 s2)\<lparr>i_heap := h\<rparr>))
      (store (intern_block s - 4) (intern_header s) (i_heap s))"
    by (cases "store (intern_block s - 4) (intern_header s) (i_heap s)")
      (simp_all add: read8u_byte[OF a4] ill_formed_item[OF assms] intern_fails_def intern_cleanup_def sel)
  finally show ?thesis unfolding inp_def by blast
qed

theorem ill_formed_without_blocks_witness:
  "input_val_from_string alloc1 1 \<lparr>code_start = 0, code_end = 0, code_checksum = []\<rparr> 0 (marshalled 0 0 0 [0x12]) 0
     (reader1\<lparr>i_heap := heap0\<rparr>) = None"
proof -
  have "store (0 - 4) 0 heap0 = None" by (simp add: store_def heap0_def heap_with_def words_at_def rd_def)
  then show ?thesis
    using ill_formed_without_blocks[of "0x12" alloc1 0 "\<lparr>code_start = 0, code_end = 0, code_checksum = []\<rparr>" 0 "[]" 0 0 "[]" "reader1\<lparr>i_heap := heap0\<rparr>"]
    by (simp add: reader1_def del: input_val_from_string_def)
qed

end
