(* ===== verification/Spec2Isabelle.thy ===== *)
theory Spec2Isabelle
  imports Prelude Vlrt Utfstring Qsort Geometry Chan Xalloc_Refine Tod Interp_Thms Md5 Portclock Hash Lex_Refill Marshal_Errors
begin

text \<open>
  A verification library for the C code of the kernel under \<open>src/kernel\<close>: a Plan 9 kernel for the
  ARM (\<open>Port\<close>, \<open>Bcm\<close>) that runs an OCaml bytecode machine (\<open>Byterun\<close>) on top of the Plan 9 C
  libraries (\<open>Libc\<close>, \<open>Libgeometry\<close>).

  \<^bold>\<open>Parts and how they interact.\<close>
  At boot the kernel carves its memory into holes and serves permanent allocations from them
  (\<open>xalloc\<close>); the clock interrupt runs the timer queues (\<open>portclock\<close>) against the time of day clock
  (\<open>tod\<close>), whose conversions use 64-bit fixed-point arithmetic (\<open>mul64fract\<close>) compiled to the
  64-bit runtime (\<open>vlrt\<close>) on the 32-bit target. The bytecode machine interprets OCaml programs:
  values are tagged words (\<open>mlvalues.h\<close>), blocks live in the young generation and the major heap,
  stores go through the write barrier, and the primitives (comparison, hashing, digests) read the
  same memory. The C library supplies strings, UTF-8 and sorting, the geometry library rectangles and
  the description of pixel formats.

  \<^bold>\<open>Theories.\<close>
  \<^item> \<open>Prelude\<close>: the integer types of the target (32-bit words with wrap-around, \<open>sint\<close>/\<open>unat\<close> readings,
    64-bit values as two halves), buffers with checked access (\<open>rd\<close>, \<open>wr\<close>), the collections
    \<open>wcat_simps\<close> and \<open>c_defs\<close>.
  \<^item> \<open>Vlrt\<close> (\<open>Libc/arm/vlrt.c\<close>): the integer routines on the pair of halves \<open>vlong\<close>, each related to
    the operation on 64-bit words, division by shift and subtract included, and the conversion from
    the bits of a double; \<open>_v2d\<close>, \<open>_v2f\<close> and \<open>_f2v\<close>, which compute with floating point, are left out.
  \<^item> \<open>Cstring\<close>, \<open>Utf\<close>, \<open>Utfstring\<close> (\<open>Libc/port/str*.c, mem*.c, atol.c, strtoul.c, rune.c, utf*.c,
    getfields.c\<close>): a string is a buffer and an index; loops that scan are \<open>partial_function (option)\<close>
    or structural, and each theorem says that they return.
  \<^item> \<open>Qsort\<close> (\<open>Libc/port/qsort.c\<close>): the index loops of quicksort on a list of elements. A comparison
    that is a total preorder is the locale \<open>comparator\<close>. The bytes of the elements and the choice
    between the two exchange routines are abstracted; \<open>swapb\<close> and \<open>swapi\<close> are modelled on their own and
    \<open>swapb\<close> is related to the exchange of two elements.
  \<^item> \<open>Geometry\<close>, \<open>Chan\<close> (\<open>Libgeometry/arith.c, replclipr_geom.c, resolution.c, chan.c\<close>).
  \<^item> \<open>Xalloc\<close>, \<open>Xalloc_Refine\<close> (\<open>Port/xalloc.c\<close>): the table of hole descriptors and its two linked
    lists; the refinement maps a state to the sorted list of its holes and to the set of free bytes.
  \<^item> \<open>Tod\<close> (\<open>Port/tod.c, mul64fract.c\<close>) and \<open>Portclock\<close> (\<open>Port/portclock.c\<close>): the record of the clock,
    the timer queues with the interrupt as a loop over the first queue element.
  \<^item> \<open>Mlvalues\<close> (\<open>Byterun/mlvalues.h, gc.h, memory.h, memory.c, major_gc.c, minor_gc.c, fail.c\<close>): words,
    headers, a partial map as memory, the write barrier, allocation in the young generation.
  \<^item> \<open>Interp\<close>, \<open>Interp_Inv\<close>, \<open>Interp_Thms\<close> (\<open>Byterun/interp.c, stacks.c, instruct.h\<close>): the registers, one
    equation per instruction for all 123 opcodes, the run of the machine; the locale \<open>vm_invariant\<close>
    carries a property of the states through every instruction, here the size of the stack area, from
    which the safety of the unchecked pushes follows.
  \<^item> \<open>Mltree\<close>, \<open>Compare\<close>, \<open>Hash\<close> (\<open>Byterun/compare.c, hash.c, str.c\<close>): which data a word stands for in a
    memory (\<open>repr\<close>), structural comparison as an order on data, hashing as a function of data.
  \<^item> \<open>Extern\<close>, \<open>Intern\<close> (\<open>Byterun/extern.c, intern.c, intext.h\<close>): the writer and the reader of marshalled
    data. \<open>Extern_Table\<close> relates the hash table of the objects already written to the list of them;
    \<open>Serial\<close> gives the bytes of a value as a function of its data and sharing and shows that the writer
    produces them; \<open>Mlbytes\<close>, \<open>Intern_Codes\<close>, \<open>Intern_Read\<close> hold the lemmas on the bytes of words and
    blocks and on each code of the format; \<open>Marshal\<close> follows the reader along those bytes;
    \<open>Marshal_Thms\<close> and \<open>Marshal_Errors\<close> hold the round trip and the behaviour at the limits.
  \<^item> \<open>Lexing\<close> (\<open>Byterun/lexing.c\<close>): the automaton of the generated lexers as one turn of its loop and the
    loop (\<open>partial_function (option)\<close>, with a theorem that it returns) and the longest accepted prefix as
    its specification. \<open>Lex_Refill\<close> models the buffer of the library (\<open>src/lib_parsing/lexing_.ml\<close>), which
    \<open>lex_refill\<close> shifts or grows, and shows that lexing in pieces is lexing the whole text.
  \<^item> \<open>Md5\<close> (\<open>Byterun/md5.c\<close>): the context, the block transform and incremental updates.

  \<^bold>\<open>Conventions.\<close>
  \<open>None\<close> is behaviour the C code leaves undefined or a panic: an access outside the mapped memory or a
  buffer, a failed assertion, running out of fuel where a definition has fuel. Exceptions of the
  language and error returns are values. Code outside the repository, and parts of the runtime that
  are not modelled, are arguments: the comparison function of \<open>qsort\<close>, the functions of timers, the
  readings of the hardware clock, the collector and the C primitives of the bytecode machine.

  \<^bold>\<open>Fuel.\<close>
  \<open>run\<close> executes a number of instructions given as argument, so that its theorems hold for every
  number. \<open>compare_val\<close> and \<open>hash_aux\<close> have fuel for the depth of the C recursion: the theorems state
  that the depth of the data plus one is enough for comparison and hashing of data, and that the node
  limit plus one is enough for hashing any readable value, cyclic ones included. The writer and the
  reader of marshalled data have fuel for the depth of their recursion: more than the depth of the data
  (\<open>tdepth\<close>) is enough for both.

  \<^bold>\<open>Not modelled.\<close>
  Locks and interrupt masking (operations are taken as atomic); the debugger and the backtrace buffer of
  the bytecode machine (the build has no sockets, so that \<open>debugger\<close> is empty); the assembly files; the hardware side
  of \<open>Bcm\<close> (traps, UART, screen, coprocessor registers, the VFP emulation); floating-point library
  functions (\<open>strtod\<close>, \<open>sin\<close>, \<open>pow\<close> and the like), for lack of a model of the target's floating-point
  unit beyond the bit patterns used by \<open>Vlrt\<close> and \<open>Compare\<close>; fonts, colour maps and other tables;
  console and print devices; the remaining parts of the runtime (channels, the collections, compaction,
  the start-up code) and of the libraries (\<open>pool.c\<close>, \<open>fmt\<close>, \<open>Libmemdraw\<close>, \<open>Libmemlayer\<close>).
\<close>

end
